(* ===== verification/Prelude.thy ===== *)
theory Prelude
  imports Main "HOL-Library.Word" "HOL-Library.Monad_Syntax"
begin

text \<open>
  Shared vocabulary of the development: the C integer types, byte-addressed memory, the
  little-endian reading of bytes as numbers, intrusive singly linked lists, and the
  generic lemmas the component theories use.

  Conventions. A C pointer into a fixed object space (page descriptors, tree nodes, tasks)
  is a \<^typ>\<open>nat option\<close> whose \<^const>\<open>None\<close> is NULL; a raw address is a \<^typ>\<open>nat\<close>
  whose \<open>0\<close> is NULL. An operation that C code may fail to complete (a loop over a cyclic list, a
  NULL dereference) has an \<^typ>\<open>'a option\<close> result whose \<^const>\<open>None\<close> is "does not return
  normally". An error return of the code is part of the ordinary result.
\<close>

unbundle bit_operations_syntax

section \<open>Types\<close>

type_synonym u8 = "8 word"
type_synonym u16 = "16 word"
type_synonym u32 = "32 word"
type_synonym u64 = "64 word"

type_synonym bytes = "u8 list"
type_synonym mem = "nat \<Rightarrow> u8"

text \<open>Facts that unfold the operations of the components one level.\<close>

named_theorems ops_defs
named_theorems inv_defs

section \<open>Bytes and machine words in memory\<close>

primrec bytes_val :: "bytes \<Rightarrow> nat" where
  "bytes_val [] = 0"
| "bytes_val (b # bs) = unat b + 256 * bytes_val bs"

definition load64 :: "mem \<Rightarrow> nat \<Rightarrow> u64" where
  "load64 m a = of_nat (bytes_val (map m [a..<a + 8]))"

definition load32 :: "mem \<Rightarrow> nat \<Rightarrow> u32" where
  "load32 m a = of_nat (bytes_val (map m [a..<a + 4]))"

definition store64 :: "mem \<Rightarrow> nat \<Rightarrow> u64 \<Rightarrow> mem" where
  "store64 m a v = (\<lambda>x. if a \<le> x \<and> x < a + 8 then of_nat (unat v div 256 ^ (x - a)) else m x)"

text \<open>Two byte regions do not overlap.\<close>

definition disjoint_regions :: "nat \<Rightarrow> nat \<Rightarrow> nat \<Rightarrow> nat \<Rightarrow> bool" where
  "disjoint_regions a n b k \<longleftrightarrow> a + n \<le> b \<or> b + k \<le> a"

section \<open>Intrusive linked lists\<close>

text \<open>
  \<open>linked nxt p xs\<close>: following the next field from \<open>p\<close> visits exactly the nodes \<open>xs\<close> and ends
  in NULL.
\<close>

primrec linked :: "('a \<Rightarrow> 'a option) \<Rightarrow> 'a option \<Rightarrow> 'a list \<Rightarrow> bool" where
  "linked nxt p [] \<longleftrightarrow> p = None"
| "linked nxt p (x # xs) \<longleftrightarrow> p = Some x \<and> linked nxt (nxt x) xs"

section \<open>Lemmas on bytes\<close>

lemma unat_u8_less [simp]: "unat (b :: u8) < 256"
  using unsigned_less [of b] by simp

lemma bytes_val_less: "bytes_val bs < 256 ^ length bs"
proof (induction bs)
  case (Cons b bs)
  have "unat b < 256" by (rule unat_u8_less)
  with Cons have "unat b + 256 * bytes_val bs < 256 + 256 * (256 ^ length bs - 1)"
    by (intro add_less_le_mono) auto
  also have "\<dots> = 256 * 256 ^ length bs"
    by (simp add: algebra_simps)
  finally show ?case by simp
qed simp

lemma bytes_val_append: "bytes_val (xs @ ys) = bytes_val xs + 256 ^ length xs * bytes_val ys"
  by (induction xs) (simp_all add: algebra_simps)

lemma bytes_val_digit: "i < length bs \<Longrightarrow> bytes_val bs div 256 ^ i mod 256 = unat (bs ! i)"
proof (induction bs arbitrary: i)
  case (Cons b bs)
  have b: "unat b < 256" by (rule unat_u8_less)
  show ?case
  proof (cases i)
    case 0
    then show ?thesis using b by simp
  next
    case (Suc j)
    have "bytes_val (b # bs) div 256 ^ Suc j = (unat b + 256 * bytes_val bs) div 256 div 256 ^ j"
      by (simp add: div_mult2_eq)
    also have "(unat b + 256 * bytes_val bs) div 256 = bytes_val bs"
      using b by simp
    finally show ?thesis using Cons Suc by simp
  qed
qed simp

lemma unat_load64: "unat (load64 m a) = bytes_val (map m [a..<a + 8])"
proof -
  have "bytes_val (map m [a..<a + 8]) < 2 ^ 64"
    using bytes_val_less [of "map m [a..<a + 8]"] by simp
  then show ?thesis by (simp add: load64_def unat_of_nat take_bit_nat_eq_self_iff
        flip: take_bit_eq_mod)
qed

lemma load64_digit: "i < 8 \<Longrightarrow> unat (load64 m a) div 256 ^ i mod 256 = unat (m (a + i))"
  using bytes_val_digit [of i "map m [a..<a + 8]"] by (simp add: unat_load64 nth_append)

lemma of_nat_u8_mod: "(of_nat (n mod 256) :: u8) = of_nat n"
  by (simp add: word_of_nat_eq_iff take_bit_eq_mod)

lemma store64_load64:
  "store64 m d (load64 m s) = (\<lambda>x. if d \<le> x \<and> x < d + 8 then m (s + (x - d)) else m x)"
proof
  fix x
  show "store64 m d (load64 m s) x = (if d \<le> x \<and> x < d + 8 then m (s + (x - d)) else m x)"
  proof (cases "d \<le> x \<and> x < d + 8")
    case True
    then have "x - d < 8" by arith
    then have "unat (load64 m s) div 256 ^ (x - d) mod 256 = unat (m (s + (x - d)))"
      by (rule load64_digit)
    then have "(of_nat (unat (load64 m s) div 256 ^ (x - d)) :: u8) = m (s + (x - d))"
      by (metis of_nat_u8_mod of_nat_unat ucast_id)
    with True show ?thesis by (simp add: store64_def)
  next
    case False
    then show ?thesis unfolding store64_def by (simp only: if_False)
  qed
qed

section \<open>Lemmas on intrusive lists\<close>

lemma linked_None [simp]: "linked nxt None xs \<longleftrightarrow> xs = []"
  by (cases xs) simp_all

lemma linked_Some: "linked nxt (Some a) xs \<longleftrightarrow> (\<exists>ys. xs = a # ys \<and> linked nxt (nxt a) ys)"
  by (cases xs) auto

lemma linked_unique: "linked nxt p xs \<Longrightarrow> linked nxt p ys \<Longrightarrow> xs = ys"
  by (induction xs arbitrary: p ys) (auto simp: linked_Some)

lemma linked_cong: "(\<And>x. x \<in> set xs \<Longrightarrow> nxt x = nxt' x) \<Longrightarrow> linked nxt p xs = linked nxt' p xs"
  by (induction xs arbitrary: p) simp_all

lemma linked_upd [simp]: "a \<notin> set xs \<Longrightarrow> linked (nxt(a := q)) p xs = linked nxt p xs"
  by (rule linked_cong) auto

lemma linked_append:
  "linked nxt p (xs @ y # ys) \<Longrightarrow> linked nxt (Some y) (y # ys)"
  by (induction xs arbitrary: p) auto

lemma linked_distinct: "linked nxt p xs \<Longrightarrow> distinct xs"
proof (induction xs arbitrary: p)
  case (Cons x xs)
  have "x \<notin> set xs"
  proof
    assume "x \<in> set xs"
    then obtain us vs where s: "xs = us @ x # vs" by (auto dest: split_list)
    with Cons.prems have "linked nxt (Some x) (x # vs)"
      by (auto dest: linked_append)
    with Cons.prems have "x # xs = x # vs" by (auto dest: linked_unique)
    with s show False by (auto dest: arg_cong [where f = length])
  qed
  with Cons show ?case by auto
qed simp

lemma linked_head: "linked nxt p xs \<Longrightarrow> p = (case xs of [] \<Rightarrow> None | x # _ \<Rightarrow> Some x)"
  by (cases xs) auto

end
