(* ===== verification/KString.thy ===== *)
theory KString
  imports Prelude
begin

text \<open>
  The freestanding string library, \<open>kernel/string.c\<close>.

  Memory is a byte-addressed function; a pointer is an address and \<open>0\<close> is NULL. The word-at-a-time
  fast paths of memcpy, memset, strlen and strcmp are modelled with 64-bit little-endian loads and
  stores and shown equal to their byte-wise meaning. A scan that may run past every terminator is a
  partial function. \<open>snprintf\<close> works on the destination buffer as a list of characters and
  on the argument list as typed values; reading an argument of the wrong type or a missing one is
  undefined behaviour and gives \<^const>\<open>None\<close>.
\<close>

section \<open>Memory blocks\<close>

fun memcpy_words :: "mem \<Rightarrow> nat \<Rightarrow> nat \<Rightarrow> nat \<Rightarrow> mem \<times> nat \<times> nat \<times> nat" where
  "memcpy_words m d s remaining =
     (if remaining \<ge> 8 then memcpy_words (store64 m d (load64 m s)) (d + 8) (s + 8) (remaining - 8)
      else (m, d, s, remaining))"

declare memcpy_words.simps [simp del]

function memcpy_bytes :: "mem \<Rightarrow> nat \<Rightarrow> nat \<Rightarrow> nat \<Rightarrow> nat \<Rightarrow> mem" where
  "memcpy_bytes m d s i remaining =
     (if i < remaining then memcpy_bytes (m(d + i := m (s + i))) d s (i + 1) remaining else m)"
  by pat_completeness auto
termination by (relation "measure (\<lambda>(m, d, s, i, r). r - i)") auto

declare memcpy_bytes.simps [simp del]

definition memcpy :: "mem \<Rightarrow> nat \<Rightarrow> nat \<Rightarrow> nat \<Rightarrow> mem \<times> nat" where
  "memcpy m dst src n =
     (let (m', d, s, remaining) =
            (if dst mod 8 = 0 \<and> src mod 8 = 0 then memcpy_words m dst src n else (m, dst, src, n))
      in (memcpy_bytes m' d s 0 remaining, dst))"

fun memset_words :: "mem \<Rightarrow> u64 \<Rightarrow> nat \<Rightarrow> nat \<Rightarrow> mem \<times> nat \<times> nat" where
  "memset_words m val64 p remaining =
     (if remaining \<ge> 8 then memset_words (store64 m p val64) val64 (p + 8) (remaining - 8)
      else (m, p, remaining))"

declare memset_words.simps [simp del]

function memset_bytes :: "mem \<Rightarrow> u8 \<Rightarrow> nat \<Rightarrow> nat \<Rightarrow> nat \<Rightarrow> mem" where
  "memset_bytes m b p i remaining =
     (if i < remaining then memset_bytes (m(p + i := b)) b p (i + 1) remaining else m)"
  by pat_completeness auto
termination by (relation "measure (\<lambda>(m, b, p, i, r). r - i)") auto

declare memset_bytes.simps [simp del]

definition splat64 :: "u8 \<Rightarrow> u64" where
  "splat64 b = (push_bit 56 (ucast b)) OR (push_bit 48 (ucast b)) OR (push_bit 40 (ucast b))
     OR (push_bit 32 (ucast b)) OR (push_bit 24 (ucast b)) OR (push_bit 16 (ucast b))
     OR (push_bit 8 (ucast b)) OR (ucast b)"

definition memset :: "mem \<Rightarrow> nat \<Rightarrow> u32 \<Rightarrow> nat \<Rightarrow> mem \<times> nat" where
  "memset m s c n =
     (let byte_val = (ucast c :: u8);
          (m', p, remaining) =
            (if s mod 8 = 0 then memset_words m (splat64 byte_val) s n else (m, s, n))
      in (memset_bytes m' byte_val p 0 remaining, s))"

function memcmp_from :: "mem \<Rightarrow> nat \<Rightarrow> nat \<Rightarrow> nat \<Rightarrow> nat \<Rightarrow> int" where
  "memcmp_from m a b i n =
     (if i < n then
        (if m (a + i) \<noteq> m (b + i) then uint (m (a + i)) - uint (m (b + i))
         else memcmp_from m a b (i + 1) n)
      else 0)"
  by pat_completeness auto
termination by (relation "measure (\<lambda>(m, a, b, i, n). n - i)") auto

declare memcmp_from.simps [simp del]

definition memcmp :: "mem \<Rightarrow> nat \<Rightarrow> nat \<Rightarrow> nat \<Rightarrow> int" where
  "memcmp m a b n = memcmp_from m a b 0 n"

section \<open>NUL-terminated strings\<close>

definition himagic :: u64 where "himagic = 0x8080808080808080"
definition lomagic :: u64 where "lomagic = 0x0101010101010101"

definition word_has_zero :: "u64 \<Rightarrow> bool" where
  "word_has_zero v \<longleftrightarrow> (v - lomagic) AND NOT v AND himagic \<noteq> 0"

function strlen_head :: "mem \<Rightarrow> nat \<Rightarrow> nat \<Rightarrow> nat + nat" where
  "strlen_head m s p =
     (if p mod 8 \<noteq> 0 then (if m p = 0 then Inl (p - s) else strlen_head m s (p + 1)) else Inr p)"
  by pat_completeness auto
termination by (relation "measure (\<lambda>(m, s, p). (8 - p mod 8) mod 8)") (auto simp: mod_Suc)

declare strlen_head.simps [simp del]

partial_function (option) strlen_words :: "mem \<Rightarrow> nat \<Rightarrow> nat option" where
  "strlen_words m w =
     (let v = load64 m w; w' = w + 8
      in if word_has_zero v then Some w' else strlen_words m w')"

partial_function (option) strlen_tail :: "mem \<Rightarrow> nat \<Rightarrow> nat option" where
  "strlen_tail m p = (if m p \<noteq> 0 then strlen_tail m (p + 1) else Some p)"

definition strlen :: "mem \<Rightarrow> nat \<Rightarrow> nat option" where
  "strlen m s =
     (if s = 0 then Some 0
      else case strlen_head m s s of
             Inl r \<Rightarrow> Some r
           | Inr p \<Rightarrow> do { w \<leftarrow> strlen_words m p; p' \<leftarrow> strlen_tail m (w - 8); Some (p' - s) })"

function strcmp_head :: "mem \<Rightarrow> nat \<Rightarrow> nat \<Rightarrow> int + nat \<times> nat" where
  "strcmp_head m a b =
     (if a mod 8 \<noteq> 0 \<and> b mod 8 \<noteq> 0 then
        (if m a = 0 \<or> m a \<noteq> m b then Inl (uint (m a) - uint (m b))
         else strcmp_head m (a + 1) (b + 1))
      else Inr (a, b))"
  by pat_completeness auto
termination by (relation "measure (\<lambda>(m, a, b). (8 - a mod 8) mod 8)") (auto simp: mod_Suc)

declare strcmp_head.simps [simp del]

partial_function (option) strcmp_words :: "mem \<Rightarrow> nat \<Rightarrow> nat \<Rightarrow> (int + nat \<times> nat) option" where
  "strcmp_words m wa wb =
     (let va = load64 m wa; vb = load64 m wb
      in if va \<noteq> vb then Some (Inr (wa, wb))
         else if word_has_zero va then Some (Inl 0)
         else strcmp_words m (wa + 8) (wb + 8))"

partial_function (option) strcmp_tail :: "mem \<Rightarrow> nat \<Rightarrow> nat \<Rightarrow> int option" where
  "strcmp_tail m a b =
     (if m a \<noteq> 0 \<and> m a = m b then strcmp_tail m (a + 1) (b + 1)
      else Some (uint (m a) - uint (m b)))"

definition strcmp :: "mem \<Rightarrow> nat \<Rightarrow> nat \<Rightarrow> int option" where
  "strcmp m a b =
     (if a = 0 \<or> b = 0 then Some (if a = b then 0 else if a \<noteq> 0 then 1 else - 1)
      else case strcmp_head m a b of
             Inl r \<Rightarrow> Some r
           | Inr (a, b) \<Rightarrow>
               do { w \<leftarrow> (if a mod 8 = 0 \<and> b mod 8 = 0 then strcmp_words m a b else Some (Inr (a, b)));
                    case w of Inl r \<Rightarrow> Some r | Inr (a, b) \<Rightarrow> strcmp_tail m a b })"

function strncmp_from :: "mem \<Rightarrow> nat \<Rightarrow> nat \<Rightarrow> nat \<Rightarrow> nat \<Rightarrow> int" where
  "strncmp_from m a b i n =
     (if i < n then
        (if m (a + i) \<noteq> m (b + i) then uint (m (a + i)) - uint (m (b + i))
         else if m (a + i) = 0 then 0
         else strncmp_from m a b (i + 1) n)
      else 0)"
  by pat_completeness auto
termination by (relation "measure (\<lambda>(m, a, b, i, n). n - i)") auto

declare strncmp_from.simps [simp del]

definition strncmp :: "mem \<Rightarrow> nat \<Rightarrow> nat \<Rightarrow> nat \<Rightarrow> int" where
  "strncmp m a b n =
     (if a = 0 \<or> b = 0 then (if a = b then 0 else if a \<noteq> 0 then 1 else - 1)
      else strncmp_from m a b 0 n)"

partial_function (option) strcpy_loop :: "mem \<Rightarrow> nat \<Rightarrow> nat \<Rightarrow> mem option" where
  "strcpy_loop m d src =
     (let c = m src; m' = m(d := c) in if c \<noteq> 0 then strcpy_loop m' (d + 1) (src + 1) else Some m')"

definition strcpy :: "mem \<Rightarrow> nat \<Rightarrow> nat \<Rightarrow> (mem \<times> nat) option" where
  "strcpy m dst src =
     (if dst = 0 \<or> src = 0 then Some (m, dst)
      else do { m' \<leftarrow> strcpy_loop m dst src; Some (m', dst) })"

function strncpy_copy :: "mem \<Rightarrow> nat \<Rightarrow> nat \<Rightarrow> nat \<Rightarrow> nat \<Rightarrow> mem \<times> nat" where
  "strncpy_copy m dst src i n =
     (if i < n \<and> m (src + i) \<noteq> 0
      then strncpy_copy (m(dst + i := m (src + i))) dst src (i + 1) n else (m, i))"
  by pat_completeness auto
termination by (relation "measure (\<lambda>(m, d, s, i, n). n - i)") auto

declare strncpy_copy.simps [simp del]

definition strncpy :: "mem \<Rightarrow> nat \<Rightarrow> nat \<Rightarrow> nat \<Rightarrow> mem \<times> nat" where
  "strncpy m dst src n =
     (if dst = 0 \<or> src = 0 then (m, dst)
      else let (m', i) = strncpy_copy m dst src 0 n in (memset_bytes m' 0 dst i n, dst))"

section \<open>Reference meanings\<close>

text \<open>The NUL-terminated string at an address, and C's comparison of two such strings.\<close>

primrec cstr_at :: "mem \<Rightarrow> nat \<Rightarrow> bytes \<Rightarrow> bool" where
  "cstr_at m a [] \<longleftrightarrow> m a = 0"
| "cstr_at m a (x # xs) \<longleftrightarrow> m a = x \<and> x \<noteq> 0 \<and> cstr_at m (Suc a) xs"

fun strcmp_spec :: "bytes \<Rightarrow> bytes \<Rightarrow> int" where
  "strcmp_spec [] [] = 0"
| "strcmp_spec [] (y # ys) = - uint y"
| "strcmp_spec (x # xs) [] = uint x"
| "strcmp_spec (x # xs) (y # ys) = (if x = y then strcmp_spec xs ys else uint x - uint y)"

section \<open>Memory block lemmas\<close>

lemma memcpy_bytes_eq:
  "disjoint_regions d r s r \<Longrightarrow> i \<le> r \<Longrightarrow>
   memcpy_bytes m d s i r = (\<lambda>x. if d + i \<le> x \<and> x < d + r then m (s + (x - d)) else m x)"
proof (induction m d s i r rule: memcpy_bytes.induct)
  case (1 m d s i r)
  show ?case
  proof (cases "i < r")
    case True
    then have "memcpy_bytes m d s i r = memcpy_bytes (m(d + i := m (s + i))) d s (i + 1) r"
      by (subst memcpy_bytes.simps) simp
    also have "\<dots> = (\<lambda>x. if d + (i + 1) \<le> x \<and> x < d + r then (m(d + i := m (s + i))) (s + (x - d))
        else (m(d + i := m (s + i))) x)"
      using True "1.prems" by (intro "1.IH") auto
    also have "\<dots> = (\<lambda>x. if d + i \<le> x \<and> x < d + r then m (s + (x - d)) else m x)"
      using True "1.prems" by (auto simp: fun_eq_iff disjoint_regions_def)
    finally show ?thesis .
  next
    case False
    with 1 show ?thesis by (subst memcpy_bytes.simps) (auto simp: fun_eq_iff)
  qed
qed

lemma memcpy_words_eq:
  "disjoint_regions d n s n \<Longrightarrow>
   \<exists>k. k \<le> n \<and> memcpy_words m d s n =
     ((\<lambda>x. if d \<le> x \<and> x < d + k then m (s + (x - d)) else m x), d + k, s + k, n - k)"
proof (induction m d s n rule: memcpy_words.induct)
  case (1 m d s n)
  show ?case
  proof (cases "n \<ge> 8")
    case True
    have "disjoint_regions (d + 8) (n - 8) (s + 8) (n - 8)"
      using "1.prems" True by (auto simp: disjoint_regions_def)
    from "1.IH" [OF True this] obtain k where k: "k \<le> n - 8"
      "memcpy_words (store64 m d (load64 m s)) (d + 8) (s + 8) (n - 8) =
        ((\<lambda>x. if d + 8 \<le> x \<and> x < d + 8 + k then store64 m d (load64 m s) (s + 8 + (x - (d + 8)))
              else store64 m d (load64 m s) x), d + 8 + k, s + 8 + k, n - 8 - k)"
      by blast
    have "(\<lambda>x. if d + 8 \<le> x \<and> x < d + 8 + k then store64 m d (load64 m s) (s + 8 + (x - (d + 8)))
              else store64 m d (load64 m s) x) =
          (\<lambda>x. if d \<le> x \<and> x < d + (8 + k) then m (s + (x - d)) else m x)"
      using k(1) "1.prems" True
      by (auto simp: fun_eq_iff store64_load64 disjoint_regions_def)
    with k(2) True have "memcpy_words m d s n =
        ((\<lambda>x. if d \<le> x \<and> x < d + (8 + k) then m (s + (x - d)) else m x),
         d + (8 + k), s + (8 + k), n - (8 + k))"
      by (subst memcpy_words.simps) (simp only: if_True prod.inject add.assoc diff_diff_left simp_thms)
    moreover have "8 + k \<le> n" using k(1) True by simp
    ultimately show ?thesis by blast
  next
    case False
    then have "memcpy_words m d s n =
        ((\<lambda>x. if d \<le> x \<and> x < d + 0 then m (s + (x - d)) else m x), d + 0, s + 0, n - 0)"
      by (subst memcpy_words.simps) (auto simp: fun_eq_iff)
    then show ?thesis by blast
  qed
qed

lemma bit_u8_ge: "8 \<le> n \<Longrightarrow> \<not> bit (b :: u8) n"
  using bit_imp_le_length [of b n] by auto

lemma bit_splat64:
  assumes i: "i < 8" and n: "n < 8"
  shows "bit (splat64 b) (8 * i + n) = bit b n"
proof -
  have "i = 0 \<or> i = 1 \<or> i = 2 \<or> i = 3 \<or> i = 4 \<or> i = 5 \<or> i = 6 \<or> i = 7"
    using i by linarith
  then show ?thesis
    using n by (elim disjE; simp add: splat64_def bit_or_iff bit_push_bit_iff bit_unsigned_iff bit_u8_ge)
qed

lemma splat64_digit: "i < 8 \<Longrightarrow> (of_nat (unat (splat64 b) div 256 ^ i) :: u8) = b"
proof -
  assume i: "i < 8"
  have "unat (splat64 b) div 256 ^ i = unat (drop_bit (8 * i) (splat64 b))"
    by (simp only: unat_drop_bit_eq) (simp add: drop_bit_eq_div power_mult)
  then have "(of_nat (unat (splat64 b) div 256 ^ i) :: u8) = ucast (drop_bit (8 * i) (splat64 b))"
    by (simp only: of_nat_unat)
  also have "\<dots> = b"
    by (rule bit_word_eqI) (simp add: bit_unsigned_iff bit_drop_bit_eq bit_splat64 i)
  finally show ?thesis .
qed

lemma store64_splat64:
  "store64 m p (splat64 b) = (\<lambda>x. if p \<le> x \<and> x < p + 8 then b else m x)"
proof
  fix x
  have "x - p < 8" if "x < p + 8" using that by arith
  then show "store64 m p (splat64 b) x = (if p \<le> x \<and> x < p + 8 then b else m x)"
    unfolding store64_def using splat64_digit [of "x - p" b] by simp
qed

lemma memset_bytes_eq:
  "memset_bytes m b p i r = (\<lambda>x. if p + i \<le> x \<and> x < p + r then b else m x)"
proof (induction m b p i r rule: memset_bytes.induct)
  case (1 m b p i r)
  show ?case
  proof (cases "i < r")
    case True
    then have "memset_bytes m b p i r = memset_bytes (m(p + i := b)) b p (i + 1) r"
      by (subst memset_bytes.simps) simp
    also have "\<dots> = (\<lambda>x. if p + (i + 1) \<le> x \<and> x < p + r then b else (m(p + i := b)) x)"
      using True by (rule "1.IH")
    finally show ?thesis using True by (auto simp: fun_eq_iff)
  next
    case False
    then show ?thesis by (subst memset_bytes.simps) (auto simp: fun_eq_iff)
  qed
qed

lemma memset_words_eq:
  "\<exists>k. k \<le> n \<and> memset_words m (splat64 b) p n =
     ((\<lambda>x. if p \<le> x \<and> x < p + k then b else m x), p + k, n - k)"
proof (induction m "splat64 b" p n rule: memset_words.induct)
  case (1 m p n)
  show ?case
  proof (cases "n \<ge> 8")
    case True
    from "1.hyps" [OF True] obtain k where k: "k \<le> n - 8"
      "memset_words (store64 m p (splat64 b)) (splat64 b) (p + 8) (n - 8) =
        ((\<lambda>x. if p + 8 \<le> x \<and> x < p + 8 + k then b else store64 m p (splat64 b) x),
          p + 8 + k, n - 8 - k)"
      by blast
    have "(\<lambda>x. if p + 8 \<le> x \<and> x < p + 8 + k then b else store64 m p (splat64 b) x) =
        (\<lambda>x. if p \<le> x \<and> x < p + (8 + k) then b else m x)"
      by (auto simp: fun_eq_iff store64_splat64)
    with k(2) True have "memset_words m (splat64 b) p n =
        ((\<lambda>x. if p \<le> x \<and> x < p + (8 + k) then b else m x), p + (8 + k), n - (8 + k))"
      by (subst memset_words.simps) (simp only: if_True prod.inject add.assoc diff_diff_left simp_thms)
    moreover have "8 + k \<le> n" using k(1) True by simp
    ultimately show ?thesis by blast
  next
    case False
    then have "memset_words m (splat64 b) p n =
        ((\<lambda>x. if p \<le> x \<and> x < p + 0 then b else m x), p + 0, n - 0)"
      by (subst memset_words.simps) (auto simp: fun_eq_iff)
    then show ?thesis by blast
  qed
qed

lemma memset_eq:
  "memset m s c n = ((\<lambda>x. if s \<le> x \<and> x < s + n then ucast c else m x), s)"
proof (cases "s mod 8 = 0")
  case True
  obtain k where "k \<le> n" "memset_words m (splat64 (ucast c)) s n =
      ((\<lambda>x. if s \<le> x \<and> x < s + k then ucast c else m x), s + k, n - k)"
    using memset_words_eq by blast
  with True show ?thesis by (auto simp: memset_def memset_bytes_eq fun_eq_iff Let_def)
qed (auto simp: memset_def memset_bytes_eq fun_eq_iff)

lemma memcmp_from_zero:
  "memcmp_from m a b i n = 0 \<longleftrightarrow> (\<forall>j. i \<le> j \<and> j < n \<longrightarrow> m (a + j) = m (b + j))"
proof (induction m a b i n rule: memcmp_from.induct)
  case (1 m a b i n)
  show ?case
  proof (cases "i < n \<and> m (a + i) = m (b + i)")
    case True
    then have "memcmp_from m a b i n = 0 \<longleftrightarrow> (\<forall>j. Suc i \<le> j \<and> j < n \<longrightarrow> m (a + j) = m (b + j))"
      using 1 by (subst memcmp_from.simps) simp
    moreover have "j = i \<or> Suc i \<le> j \<longleftrightarrow> i \<le> j" for j by auto
    ultimately show ?thesis using True by metis
  next
    case False
    then show ?thesis by (subst memcmp_from.simps) (auto simp: word_uint_eq_iff)
  qed
qed

section \<open>The zero-byte test on words\<close>

lemma odd_div_byte: "odd ((x :: nat) div 2 ^ (8 * i + 7)) \<longleftrightarrow> 128 \<le> x div 256 ^ i mod 256"
proof -
  have "x div 2 ^ (8 * i + 7) = x div 256 ^ i div 128"
    by (simp add: power_add power_mult div_mult2_eq)
  moreover have "odd (y div 128) \<longleftrightarrow> 128 \<le> y mod 256" for y :: nat
  proof -
    have "y mod 256 = 128 * (y div 128 mod 2) + y mod 128"
      using mod_mult2_eq [of y 128 2] by simp
    moreover have "y mod 128 < 128" by simp
    ultimately show ?thesis by (cases "even (y div 128)") (simp_all add: mod_2_eq_odd)
  qed
  ultimately show ?thesis by simp
qed

lemma bytes_val_pred:
  "0 \<notin> set bs \<Longrightarrow>
   bytes_val bs = bytes_val (map (\<lambda>b. b - 1) bs) + bytes_val (replicate (length bs) 1)"
proof (induction bs)
  case (Cons b bs)
  have "unat b = unat (b - 1) + 1"
    using Cons.prems unat_minus_one [of b] unat_gt_0 [of b] by simp
  with Cons show ?case by simp
qed simp

lemma himagic_bit: "n < 64 \<Longrightarrow> bit himagic n \<longleftrightarrow> n mod 8 = 7"
proof -
  have "\<forall>k \<in> set [0..<64]. bit himagic k \<longleftrightarrow> k mod 8 = 7"
    by (simp add: himagic_def upt_rec)
  then show "n < 64 \<Longrightarrow> ?thesis" by simp
qed

lemma lomagic_bytes: "unat lomagic = bytes_val (replicate 8 1)"
proof -
  have "replicate 8 (1 :: u8) = [1, 1, 1, 1, 1, 1, 1, 1]"
    by (simp add: numeral_eq_Suc)
  then show ?thesis by (simp add: lomagic_def)
qed

lemma word_has_zero_bits:
  "word_has_zero v \<longleftrightarrow> (\<exists>i < 8. bit (v - lomagic) (8 * i + 7) \<and> \<not> bit v (8 * i + 7))"
proof -
  have "word_has_zero v \<longleftrightarrow> (\<exists>n. bit ((v - lomagic) AND NOT v AND himagic) n)"
    unfolding word_has_zero_def by (metis bit_0_eq bit_word_eqI bot_apply bot_bool_def)
  also have "\<dots> \<longleftrightarrow> (\<exists>n < 64. bit (v - lomagic) n \<and> \<not> bit v n \<and> n mod 8 = 7)"
    using himagic_bit by (auto simp: bit_simps dest: bit_imp_le_length)
  also have "\<dots> \<longleftrightarrow> (\<exists>i < 8. bit (v - lomagic) (8 * i + 7) \<and> \<not> bit v (8 * i + 7))"
  proof safe
    fix n :: nat assume n: "n < 64" "bit (v - lomagic) n" "\<not> bit v n" "n mod 8 = 7"
    then have "n = 8 * (n div 8) + 7" "n div 8 < 8" by presburger+
    with n show "\<exists>i < 8. bit (v - lomagic) (8 * i + 7) \<and> \<not> bit v (8 * i + 7)" by metis
  next
    fix i :: nat assume i: "i < 8" "bit (v - lomagic) (8 * i + 7)" "\<not> bit v (8 * i + 7)"
    have "8 * i + 7 < 64" "(8 * i + 7) mod 8 = 7" using i(1) by presburger+
    with i show "\<exists>n < 64. bit (v - lomagic) n \<and> \<not> bit v n \<and> n mod 8 = 7" by blast
  qed
  finally show ?thesis .
qed

lemma bit_unat_word: "bit v n \<longleftrightarrow> odd (unat (v :: u64) div 2 ^ n)"
  by (metis bit_iff_odd bit_unsigned_iff possible_bit_nat)

lemma bit_of_nat_u64: "n < 64 \<Longrightarrow> bit (of_nat x :: u64) n \<longleftrightarrow> bit x n"
  by transfer (simp add: bit_take_bit_iff bit_of_nat_iff_bit)

lemma bit_of_nat_byte:
  "i < 8 \<Longrightarrow> bit (of_nat x :: u64) (8 * i + 7) \<longleftrightarrow> 128 \<le> x div 256 ^ i mod 256"
proof -
  assume "i < 8"
  then have "8 * i + 7 < 64" by simp
  then have "bit (of_nat x :: u64) (8 * i + 7) \<longleftrightarrow> bit x (8 * i + 7)"
    by (rule bit_of_nat_u64)
  then show ?thesis by (simp only: bit_iff_odd [of x] odd_div_byte)
qed

lemma bit_of_bytes:
  "i < 8 \<Longrightarrow> length bs = 8 \<Longrightarrow> bit (of_nat (bytes_val bs) :: u64) (8 * i + 7) \<longleftrightarrow> 128 \<le> unat (bs ! i)"
  by (simp add: bit_of_nat_byte bytes_val_digit)

lemma word_has_zero_no_zero:
  assumes len: "length bs = 8" and nz: "0 \<notin> set bs"
  shows "\<not> word_has_zero (of_nat (bytes_val bs))"
proof
  assume "word_has_zero (of_nat (bytes_val bs))"
  then obtain i where i: "i < 8"
    and 1: "bit (of_nat (bytes_val bs) - lomagic) (8 * i + 7)"
    and 2: "\<not> bit (of_nat (bytes_val bs) :: u64) (8 * i + 7)"
    by (auto simp: word_has_zero_bits)
  have "lomagic = of_nat (bytes_val (replicate 8 1))"
    by (metis lomagic_bytes of_nat_unat ucast_id)
  then have "of_nat (bytes_val bs) - lomagic = (of_nat (bytes_val (map (\<lambda>b. b - 1) bs)) :: u64)"
    using bytes_val_pred [OF nz] len by simp
  with 1 i len have "128 \<le> unat (bs ! i - 1)" by (simp add: bit_of_bytes)
  moreover have "unat (bs ! i) < 128" using 2 i len by (simp add: bit_of_bytes)
  moreover have "bs ! i \<noteq> 0" using nz i len by (metis nth_mem)
  ultimately show False using unat_minus_one [of "bs ! i"] by simp
qed

lemma word_has_zero_zero:
  assumes len: "length bs = 8" and z: "0 \<in> set bs"
  shows "word_has_zero (of_nat (bytes_val bs))"
proof -
  obtain us vs where bs: "bs = us @ 0 # vs" and us: "0 \<notin> set us"
    using z by (metis split_list_first)
  define k where "k = length us"
  have k: "k < 8" and rep: "replicate 8 (1 :: u8) = replicate k 1 @ 1 # replicate (7 - k) 1"
    using len bs by (simp_all add: k_def flip: replicate_Suc replicate_add)
  define D where "D = bytes_val (map (\<lambda>b. b - 1) us)"
  define w where "w = unat (of_nat (bytes_val vs) - of_nat (bytes_val (replicate (7 - k) 1)) - 1 :: u64)"
  define Y where "Y = D + 256 ^ k * (255 + 256 * w)"
  have w: "(of_nat w :: u64) = of_nat (bytes_val vs) - of_nat (bytes_val (replicate (7 - k) 1)) - 1"
    unfolding w_def by (metis of_nat_unat ucast_id)
  have "lomagic = of_nat (bytes_val (replicate 8 1))"
    by (metis lomagic_bytes of_nat_unat ucast_id)
  also have "\<dots> = of_nat (bytes_val (replicate k 1) +
      256 ^ k * (1 + 256 * bytes_val (replicate (7 - k) 1)))"
    by (simp only: rep bytes_val_append) (simp add: algebra_simps)
  finally have lo: "lomagic = of_nat (bytes_val (replicate k 1) +
      256 ^ k * (1 + 256 * bytes_val (replicate (7 - k) 1)))" .
  have v: "bytes_val bs = D + bytes_val (replicate k 1) + 256 ^ k * (256 * bytes_val vs)"
    using bytes_val_pred [OF us] by (simp add: bs bytes_val_append k_def D_def)
  have "of_nat (bytes_val bs) - lomagic = (of_nat Y :: u64)"
    unfolding v lo Y_def by (simp add: w algebra_simps)
  moreover have "Y div 256 ^ k mod 256 = 255"
  proof -
    have "D < 256 ^ k" unfolding D_def k_def using bytes_val_less [of "map (\<lambda>b. b - 1) us"] by simp
    then have "Y div 256 ^ k = 255 + 256 * w" by (simp add: Y_def)
    then show ?thesis by (simp add: mod_mult_self2)
  qed
  ultimately have "bit (of_nat (bytes_val bs) - lomagic) (8 * k + 7)"
    using k by (simp add: bit_of_nat_byte)
  moreover have "\<not> bit (of_nat (bytes_val bs) :: u64) (8 * k + 7)"
    using k len by (simp add: bit_of_bytes bs nth_append k_def)
  ultimately show ?thesis using k unfolding word_has_zero_bits by blast
qed

lemma word_has_zero_load64: "word_has_zero (load64 m a) \<longleftrightarrow> (\<exists>i < 8. m (a + i) = 0)"
proof -
  have len: "length (map m [a..<a + 8]) = 8" by simp
  have "word_has_zero (load64 m a) \<longleftrightarrow> 0 \<in> set (map m [a..<a + 8])"
    unfolding load64_def using word_has_zero_zero [OF len] word_has_zero_no_zero [OF len] by blast
  also have "\<dots> \<longleftrightarrow> (\<exists>x. a \<le> x \<and> x < a + 8 \<and> m x = 0)" by auto
  also have "\<dots> \<longleftrightarrow> (\<exists>i < 8. m (a + i) = 0)"
    by (metis add_less_cancel_left le_add1 le_add_diff_inverse)
  finally show ?thesis .
qed

section \<open>String lemmas\<close>

lemma cstr_at_drop: "cstr_at m a xs \<Longrightarrow> k \<le> length xs \<Longrightarrow> cstr_at m (a + k) (drop k xs)"
proof (induction xs arbitrary: a k)
  case (Cons x xs)
  then show ?case by (cases k) (auto simp flip: add_Suc)
qed simp

lemma cstr_at_nth: "cstr_at m a xs \<Longrightarrow> i < length xs \<Longrightarrow> m (a + i) = xs ! i \<and> xs ! i \<noteq> 0"
proof (induction xs arbitrary: a i)
  case (Cons x xs)
  then show ?case by (cases i) (auto simp flip: add_Suc)
qed simp

lemma cstr_at_end: "cstr_at m a xs \<Longrightarrow> m (a + length xs) = 0"
  by (induction xs arbitrary: a) (auto simp flip: add_Suc)

lemma cstr_at_unique: "cstr_at m a xs \<Longrightarrow> cstr_at m a ys \<Longrightarrow> xs = ys"
proof (induction xs arbitrary: a ys)
  case Nil
  then show ?case by (cases ys) auto
next
  case (Cons x xs)
  then show ?case by (cases ys) auto
qed

lemma cstr_at_zero: "cstr_at m a xs \<Longrightarrow> (\<exists>i < n. m (a + i) = 0) \<longleftrightarrow> length xs < n"
  by (metis cstr_at_end cstr_at_nth not_less order_le_less_trans order.strict_trans1)

lemma load64_inj: "load64 m a = load64 m b \<Longrightarrow> i < 8 \<Longrightarrow> m (a + i) = m (b + i)"
  using load64_digit [of i m a] load64_digit [of i m b] by (simp add: word_unat_eq_iff)

lemma strlen_tail_eq: "cstr_at m p xs \<Longrightarrow> strlen_tail m p = Some (p + length xs)"
  by (induction xs arbitrary: p) (simp_all add: strlen_tail.simps)

lemma strlen_head_eq:
  "cstr_at m p xs \<Longrightarrow> s \<le> p \<Longrightarrow>
   strlen_head m s p = Inl (p + length xs - s) \<or>
   (\<exists>k \<le> length xs. strlen_head m s p = Inr (p + k))"
proof (induction xs arbitrary: p)
  case Nil
  then show ?case by (subst (1 2) strlen_head.simps) auto
next
  case (Cons x xs)
  show ?case
  proof (cases "p mod 8 = 0")
    case True
    then show ?thesis by (subst (1 2) strlen_head.simps) auto
  next
    case False
    with Cons.prems have "strlen_head m s p = strlen_head m s (Suc p)"
      by (subst strlen_head.simps) auto
    moreover have "strlen_head m s (Suc p) = Inl (Suc p + length xs - s) \<or>
        (\<exists>k \<le> length xs. strlen_head m s (Suc p) = Inr (Suc p + k))"
      using Cons.prems by (intro Cons.IH) auto
    ultimately show ?thesis
      by (metis Suc_le_mono add_Suc_shift length_Cons)
  qed
qed

lemma strlen_words_eq:
  "cstr_at m w xs \<Longrightarrow> \<exists>k. strlen_words m w = Some (w + k + 8) \<and> k \<le> length xs"
proof (induction "length xs" arbitrary: w xs rule: less_induct)
  case less
  show ?case
  proof (cases "length xs < 8")
    case True
    with less.prems have "strlen_words m w = Some (w + 0 + 8)"
      by (simp add: strlen_words.simps word_has_zero_load64 cstr_at_zero)
    then show ?thesis by blast
  next
    case False
    with less.prems have "strlen_words m w = strlen_words m (w + 8)"
      by (subst strlen_words.simps) (simp add: word_has_zero_load64 cstr_at_zero)
    moreover have "length (drop 8 xs) < length xs" "cstr_at m (w + 8) (drop 8 xs)"
      using False cstr_at_drop [OF less.prems, of 8] by auto
    then obtain k where "strlen_words m (w + 8) = Some (w + 8 + k + 8)" "k \<le> length xs - 8"
      using less.hyps [of "drop 8 xs" "w + 8"] by auto
    ultimately have "strlen_words m w = Some (w + (8 + k) + 8)" "8 + k \<le> length xs"
      using False by (simp_all add: algebra_simps)
    then show ?thesis by blast
  qed
qed

text \<open>C32: on a NUL-terminated string the word-at-a-time strlen returns, and it returns the number
  of bytes before the terminator, whatever the alignment of the string.\<close>

theorem strlen_correct:
  assumes s: "s \<noteq> 0" and str: "cstr_at m s xs"
  shows "strlen m s = Some (length xs)"
proof -
  consider "strlen_head m s s = Inl (length xs)"
    | k where "k \<le> length xs" "strlen_head m s s = Inr (s + k)"
    using strlen_head_eq [OF str, of s] by auto
  then show ?thesis
  proof cases
    case 1
    then show ?thesis using s by (simp add: strlen_def)
  next
    case 2
    obtain j where j: "strlen_words m (s + k) = Some (s + k + j + 8)" "j \<le> length (drop k xs)"
      using strlen_words_eq [OF cstr_at_drop [OF str 2(1)]] by blast
    have "cstr_at m (s + (k + j)) (drop (k + j) xs)"
      using j(2) 2(1) by (intro cstr_at_drop [OF str]) simp
    then have "strlen_tail m (s + k + j) = Some (s + length xs)"
      using j(2) 2(1) by (simp add: strlen_tail_eq add.assoc)
    with s 2 j show ?thesis by (simp add: strlen_def)
  qed
qed

theorem strlen_correct_witness:
  "strlen (\<lambda>a. if 3 \<le> a \<and> a < 23 then 0x80 else 0) 3 = Some 20"
proof -
  have "cstr_at (\<lambda>a. if 3 \<le> a \<and> a < 23 then 0x80 else 0) 3 (replicate 20 0x80)"
    by code_simp
  then show ?thesis using strlen_correct [of 3 _ "replicate 20 0x80"] by simp
qed

lemma memcpy_eq:
  assumes "disjoint_regions dst n src n"
  shows "memcpy m dst src n =
    ((\<lambda>x. if dst \<le> x \<and> x < dst + n then m (src + (x - dst)) else m x), dst)"
proof (cases "dst mod 8 = 0 \<and> src mod 8 = 0")
  case True
  obtain k where k: "k \<le> n" and w: "memcpy_words m dst src n =
      ((\<lambda>x. if dst \<le> x \<and> x < dst + k then m (src + (x - dst)) else m x), dst + k, src + k, n - k)"
    using memcpy_words_eq [OF assms] by blast
  have "disjoint_regions (dst + k) (n - k) (src + k) (n - k)"
    using assms k by (auto simp: disjoint_regions_def)
  with True w k assms show ?thesis
    by (auto simp: memcpy_def memcpy_bytes_eq fun_eq_iff Let_def disjoint_regions_def)
next
  case False
  with assms show ?thesis by (auto simp: memcpy_def memcpy_bytes_eq)
qed

text \<open>C31: for source and destination regions that do not overlap, memcpy stores the \<open>n\<close> source
  bytes at the destination, changes no other byte and returns the destination, on the word path and
  on the byte path alike.\<close>

theorem memcpy_correct:
  assumes "disjoint_regions dst n src n"
  shows "memcpy m dst src n =
    ((\<lambda>x. if dst \<le> x \<and> x < dst + n then m (src + (x - dst)) else m x), dst)"
  by (rule memcpy_eq [OF assms])

theorem memcpy_correct_witness:
  "memcpy (\<lambda>a. of_nat a) 64 16 11 =
    ((\<lambda>x. if 64 \<le> x \<and> x < 64 + 11 then of_nat (16 + (x - 64)) else of_nat x), 64)"
  by (rule memcpy_correct) (simp add: disjoint_regions_def)

lemma strcmp_spec_step:
  "cstr_at m a xs \<Longrightarrow> cstr_at m b ys \<Longrightarrow> m a \<noteq> 0 \<Longrightarrow> m a = m b \<Longrightarrow>
   cstr_at m (Suc a) (tl xs) \<and> cstr_at m (Suc b) (tl ys) \<and>
   strcmp_spec xs ys = strcmp_spec (tl xs) (tl ys) \<and> length xs = Suc (length (tl xs))"
  by (cases xs; cases ys) auto

lemma strcmp_spec_stop:
  "cstr_at m a xs \<Longrightarrow> cstr_at m b ys \<Longrightarrow> m a = 0 \<or> m a \<noteq> m b \<Longrightarrow>
   strcmp_spec xs ys = uint (m a) - uint (m b)"
  by (cases xs; cases ys) auto

lemma strcmp_tail_eq:
  "cstr_at m a xs \<Longrightarrow> cstr_at m b ys \<Longrightarrow> strcmp_tail m a b = Some (strcmp_spec xs ys)"
proof (induction xs arbitrary: a b ys)
  case Nil
  then show ?case using strcmp_spec_stop [OF Nil] by (subst strcmp_tail.simps) simp
next
  case (Cons x xs)
  show ?case
  proof (cases "m a = m b")
    case True
    then have "strcmp_tail m a b = strcmp_tail m (Suc a) (Suc b)"
      using Cons.prems by (subst strcmp_tail.simps) simp
    then show ?thesis
      using Cons.IH strcmp_spec_step [OF Cons.prems] True Cons.prems(1) by simp
  next
    case False
    then show ?thesis
      using strcmp_spec_stop [OF Cons.prems] by (subst strcmp_tail.simps) simp
  qed
qed

text \<open>The result of a phase: either the final answer or two positions with the same answer.\<close>

definition strcmp_phase :: "mem \<Rightarrow> int \<Rightarrow> int + nat \<times> nat \<Rightarrow> bool" where
  "strcmp_phase m v r = (case r of
     Inl v' \<Rightarrow> v' = v
   | Inr (a, b) \<Rightarrow> (\<exists>us vs. cstr_at m a us \<and> cstr_at m b vs \<and> strcmp_spec us vs = v))"

lemma strcmp_head_phase:
  "cstr_at m a xs \<Longrightarrow> cstr_at m b ys \<Longrightarrow> strcmp_phase m (strcmp_spec xs ys) (strcmp_head m a b)"
proof (induction m a b arbitrary: xs ys rule: strcmp_head.induct)
  case (1 m a b)
  show ?case
  proof (cases "a mod 8 \<noteq> 0 \<and> b mod 8 \<noteq> 0 \<and> \<not> (m a = 0 \<or> m a \<noteq> m b)")
    case True
    then have "strcmp_head m a b = strcmp_head m (Suc a) (Suc b)"
      by (subst strcmp_head.simps) auto
    moreover have s: "cstr_at m (Suc a) (tl xs)" "cstr_at m (Suc b) (tl ys)"
      "strcmp_spec xs ys = strcmp_spec (tl xs) (tl ys)"
      using True strcmp_spec_step [OF "1.prems"] by auto
    moreover have "strcmp_phase m (strcmp_spec (tl xs) (tl ys)) (strcmp_head m (a + 1) (b + 1))"
      using True s by (intro "1.IH") auto
    ultimately show ?thesis by simp
  next
    case False
    then consider
        "strcmp_head m a b = Inl (uint (m a) - uint (m b))" "m a = 0 \<or> m a \<noteq> m b"
      | "strcmp_head m a b = Inr (a, b)"
      using strcmp_head.simps [of m a b] by argo
    then show ?thesis
      using strcmp_spec_stop [OF "1.prems"] "1.prems"
      by cases (simp_all add: strcmp_phase_def, blast)
  qed
qed

lemma strcmp_spec_drop:
  "cstr_at m a xs \<Longrightarrow> cstr_at m b ys \<Longrightarrow> (\<And>i. i < n \<Longrightarrow> m (a + i) = m (b + i)) \<Longrightarrow>
   n \<le> length xs \<Longrightarrow> n \<le> length ys \<and> strcmp_spec xs ys = strcmp_spec (drop n xs) (drop n ys)"
proof (induction n arbitrary: a b xs ys)
  case (Suc n)
  have "m a = m b" using Suc.prems(3) [of 0] by simp
  moreover have "m (Suc a + i) = m (Suc b + i)" if "i < n" for i
    using Suc.prems(3) [of "Suc i"] that by simp
  ultimately show ?case
    using Suc.IH [of "Suc a" "tl xs" "Suc b" "tl ys"] Suc.prems
    by (cases xs; cases ys) auto
qed simp

lemma strcmp_words_phase:
  "cstr_at m a xs \<Longrightarrow> cstr_at m b ys \<Longrightarrow>
   \<exists>r. strcmp_words m a b = Some r \<and> strcmp_phase m (strcmp_spec xs ys) r"
proof (induction "length xs" arbitrary: a b xs ys rule: less_induct)
  case less
  show ?case
  proof (cases "load64 m a = load64 m b")
    case False
    then show ?thesis
      using less.prems by (subst strcmp_words.simps) (auto simp: strcmp_phase_def)
  next
    case eq: True
    show ?thesis
    proof (cases "length xs < 8")
      case True
      then have "word_has_zero (load64 m a)"
        using less.prems by (simp add: word_has_zero_load64 cstr_at_zero)
      then have "strcmp_words m a b = Some (Inl 0)"
        using eq by (subst strcmp_words.simps) (simp add: Let_def)
      moreover have "strcmp_spec xs ys = strcmp_spec [] (drop (length xs) ys) \<and> length xs \<le> length ys"
        using strcmp_spec_drop [OF less.prems, of "length xs"] load64_inj [OF eq] True by simp
      moreover have "m (b + length xs) = 0"
        using load64_inj [OF eq True] cstr_at_end [OF less.prems(1)] by simp
      ultimately have "strcmp_spec xs ys = 0" "strcmp_words m a b = Some (Inl 0)"
        using cstr_at_nth [OF less.prems(2), of "length xs"] by (auto simp: le_less)
      then show ?thesis by (simp add: strcmp_phase_def)
    next
      case False
      then have "\<not> word_has_zero (load64 m a)"
        using less.prems by (simp add: word_has_zero_load64 cstr_at_zero)
      then have "strcmp_words m a b = strcmp_words m (a + 8) (b + 8)"
        using eq by (subst strcmp_words.simps) (simp add: Let_def)
      have d: "8 \<le> length ys \<and> strcmp_spec xs ys = strcmp_spec (drop 8 xs) (drop 8 ys)"
        using strcmp_spec_drop [OF less.prems, of 8] load64_inj [OF eq] False by simp
      moreover have "length (drop 8 xs) < length xs" using False by (cases xs) auto
      ultimately show ?thesis
        using less.hyps [of "drop 8 xs" "a + 8" "b + 8" "drop 8 ys"] False d
          cstr_at_drop [OF less.prems(1), of 8] cstr_at_drop [OF less.prems(2), of 8]
          \<open>strcmp_words m a b = _\<close> by auto
    qed
  qed
qed

text \<open>C33: strcmp on two NUL-terminated strings returns, and its value is the difference of the
  first unequal bytes (as unsigned bytes, the terminator included) or zero; in particular the
  word-wise phase never changes the answer.\<close>

theorem strcmp_correct:
  assumes "a \<noteq> 0" "b \<noteq> 0" "cstr_at m a xs" "cstr_at m b ys"
  shows "strcmp m a b = Some (strcmp_spec xs ys)"
proof (cases "strcmp_head m a b")
  case (Inl r)
  then show ?thesis
    using assms strcmp_head_phase [OF assms(3,4)] by (simp add: strcmp_def strcmp_phase_def)
next
  case (Inr p)
  obtain a' b' where p: "p = (a', b')" by (cases p)
  obtain us vs where uv: "cstr_at m a' us" "cstr_at m b' vs" "strcmp_spec us vs = strcmp_spec xs ys"
    using strcmp_head_phase [OF assms(3,4)] Inr p by (auto simp: strcmp_phase_def)
  obtain r where "strcmp_words m a' b' = Some r" "strcmp_phase m (strcmp_spec us vs) r"
    using strcmp_words_phase [OF uv(1,2)] by blast
  with assms Inr p uv show ?thesis
    by (auto simp: strcmp_def strcmp_phase_def strcmp_tail_eq split: sum.splits)
qed

theorem strcmp_correct_witness:
  "strcmp (\<lambda>a. if 8 \<le> a \<and> a < 20 then 0x41 else if 32 \<le> a \<and> a < 43 then 0x41
               else if a = 43 then 0xFF else 0) 8 32 = Some (- 190)"
proof -
  let ?m = "(\<lambda>a. if 8 \<le> a \<and> a < 20 then 0x41 else if 32 \<le> a \<and> a < 43 then 0x41
               else if a = 43 then 0xFF else 0) :: mem"
  have 1: "cstr_at ?m 8 (replicate 12 0x41)" by code_simp
  have 2: "cstr_at ?m 32 (replicate 11 0x41 @ [0xFF])" by code_simp
  have 3: "strcmp_spec (replicate 12 0x41) (replicate 11 0x41 @ [0xFF]) = - 190" by code_simp
  show ?thesis using strcmp_correct [OF _ _ 1 2] 3 by simp
qed

end
