(* ===== verification/Snprintf.thy ===== *)
theory Snprintf
  imports Prelude
begin

text \<open>
  The formatted output of \<open>kernel/string.c\<close>: \<open>snprintf\<close> and its helpers \<open>sn_write_char\<close>,
  \<open>sn_write_str\<close> and \<open>sn_write_uint\<close>.

  The destination is the list of the characters of the buffer, the format is the list of the
  characters before its terminator, and the variable arguments are a list of typed values. Taking an
  argument that is missing or has another type is undefined behaviour, the value \<^const>\<open>None\<close>. The
  cursor \<open>pos\<close> is threaded through the helpers as in the code.
\<close>

section \<open>Arguments and cursor\<close>

datatype va = VStr "string option" | VInt "32 word" | VU64 "u64" | VPtr "u64"

type_synonym cursor = "string \<times> nat"

definition nul :: char where "nul = char_of (0 :: nat)"

fun sn_write_char :: "nat \<Rightarrow> char \<Rightarrow> cursor \<Rightarrow> cursor" where
  "sn_write_char sz c (buf, pos) = (if pos + 1 < sz then buf[pos := c] else buf, pos + 1)"

primrec sn_write_chars :: "nat \<Rightarrow> string \<Rightarrow> cursor \<Rightarrow> cursor" where
  "sn_write_chars sz [] k = k"
| "sn_write_chars sz (c # s) k = sn_write_chars sz s (sn_write_char sz c k)"

definition sn_write_str :: "nat \<Rightarrow> string option \<Rightarrow> cursor \<Rightarrow> cursor" where
  "sn_write_str sz s k = sn_write_chars sz (case s of None \<Rightarrow> ''(null)'' | Some t \<Rightarrow> t) k"

definition sn_digit :: "nat \<Rightarrow> char" where
  "sn_digit d = char_of (if d < 10 then 48 + d else 97 + d - 10)"

text \<open>The loop that fills \<open>tmp\<close>, least significant digit first, at most 20 digits.\<close>

function sn_digits :: "nat \<Rightarrow> nat \<Rightarrow> string \<Rightarrow> string" where
  "sn_digits base val tmp =
     (if val > 0 \<and> length tmp < 20
      then sn_digits base (val div base) (tmp @ [sn_digit (val mod base)]) else tmp)"
  by pat_completeness auto
termination by (relation "measure (\<lambda>(base, val, tmp). 20 - length tmp)") auto

declare sn_digits.simps [simp del]

definition sn_write_uint :: "nat \<Rightarrow> nat \<Rightarrow> nat \<Rightarrow> cursor \<Rightarrow> cursor" where
  "sn_write_uint sz val base k =
     (let tmp = sn_digits base val (if val = 0 then [sn_digit 0] else [])
      in sn_write_chars sz (rev tmp) k)"

fun sn_arg :: "nat \<Rightarrow> char \<Rightarrow> va list \<Rightarrow> cursor \<Rightarrow> (va list \<times> cursor) option" where
  "sn_arg sz c args k =
     (if c = CHR ''s'' then
        (case args of VStr s # as \<Rightarrow> Some (as, sn_write_str sz s k) | _ \<Rightarrow> None)
      else if c = CHR ''d'' then
        (case args of
           VInt v # as \<Rightarrow>
             Some (as, if sint v < 0
                       then sn_write_uint sz (nat (- (sint v + 1)) + 1) 10
                              (sn_write_char sz (CHR ''-'') k)
                       else sn_write_uint sz (nat (sint v)) 10 k)
         | _ \<Rightarrow> None)
      else if c = CHR ''u'' then
        (case args of VU64 v # as \<Rightarrow> Some (as, sn_write_uint sz (unat v) 10 k) | _ \<Rightarrow> None)
      else if c = CHR ''x'' then
        (case args of VU64 v # as \<Rightarrow> Some (as, sn_write_uint sz (unat v) 16 k) | _ \<Rightarrow> None)
      else if c = CHR ''p'' then
        (case args of
           VPtr v # as \<Rightarrow>
             Some (as, if v = 0 then sn_write_str sz (Some ''(nil)'') k
                       else sn_write_uint sz (unat v) 16 (sn_write_str sz (Some ''0x'') k))
         | _ \<Rightarrow> None)
      else if c = CHR ''c'' then
        (case args of VInt v # as \<Rightarrow> Some (as, sn_write_char sz (char_of (unat v)) k) | _ \<Rightarrow> None)
      else if c = CHR ''%'' then Some (args, sn_write_char sz (CHR ''%'') k)
      else Some (args, sn_write_char sz c (sn_write_char sz (CHR ''%'') k)))"

text \<open>The main loop: it ends at the end of the format or as soon as \<open>pos\<close> reaches \<open>size\<close>.\<close>

fun sn_loop :: "nat \<Rightarrow> string \<Rightarrow> va list \<Rightarrow> cursor \<Rightarrow> cursor option" where
  "sn_loop sz [] args k = Some k"
| "sn_loop sz (c # p) args k =
     (if snd k < sz then
        (if c \<noteq> CHR ''%'' then sn_loop sz p args (sn_write_char sz c k)
         else (case p of
                 [] \<Rightarrow> Some (sn_write_char sz (CHR ''%'') k)
               | c' # p' \<Rightarrow> do { (as, k') \<leftarrow> sn_arg sz c' args k; sn_loop sz p' as k' }))
      else Some k)"

definition snprintf :: "string option \<Rightarrow> nat \<Rightarrow> string option \<Rightarrow> va list \<Rightarrow> (string option \<times> nat) option" where
  "snprintf buf sz fmt args =
     (case buf of
        None \<Rightarrow> Some (None, 0)
      | Some b \<Rightarrow>
          if sz = 0 then Some (Some b, 0)
          else case fmt of
                 None \<Rightarrow> Some (Some (b[0 := nul]), 0)
               | Some f \<Rightarrow>
                   do { (b', pos) \<leftarrow> sn_loop sz f args (b, 0);
                        Some (Some (b'[(if pos < sz then pos else sz - 1) := nul]), pos) })"

section \<open>The intended output\<close>

function num_str :: "nat \<Rightarrow> nat \<Rightarrow> string" where
  "num_str base n =
     (if base < 2 \<or> n < base then [sn_digit n] else num_str base (n div base) @ [sn_digit (n mod base)])"
  by pat_completeness auto
termination by (relation "measure snd") auto

declare num_str.simps [simp del]

fun render_arg :: "char \<Rightarrow> va list \<Rightarrow> (va list \<times> string) option" where
  "render_arg c args =
     (if c = CHR ''s'' then
        (case args of VStr s # as \<Rightarrow> Some (as, case s of None \<Rightarrow> ''(null)'' | Some t \<Rightarrow> t) | _ \<Rightarrow> None)
      else if c = CHR ''d'' then
        (case args of
           VInt v # as \<Rightarrow>
             Some (as, if sint v < 0 then CHR ''-'' # num_str 10 (nat (- sint v)) else num_str 10 (nat (sint v)))
         | _ \<Rightarrow> None)
      else if c = CHR ''u'' then (case args of VU64 v # as \<Rightarrow> Some (as, num_str 10 (unat v)) | _ \<Rightarrow> None)
      else if c = CHR ''x'' then (case args of VU64 v # as \<Rightarrow> Some (as, num_str 16 (unat v)) | _ \<Rightarrow> None)
      else if c = CHR ''p'' then
        (case args of
           VPtr v # as \<Rightarrow> Some (as, if v = 0 then ''(nil)'' else ''0x'' @ num_str 16 (unat v))
         | _ \<Rightarrow> None)
      else if c = CHR ''c'' then (case args of VInt v # as \<Rightarrow> Some (as, [char_of (unat v)]) | _ \<Rightarrow> None)
      else if c = CHR ''%'' then Some (args, ''%'')
      else Some (args, [CHR ''%'', c]))"

fun render :: "string \<Rightarrow> va list \<Rightarrow> string option" where
  "render [] args = Some []"
| "render (c # p) args =
     (if c \<noteq> CHR ''%'' then map_option (\<lambda>r. c # r) (render p args)
      else (case p of
              [] \<Rightarrow> Some ''%''
            | c' # p' \<Rightarrow> do { (as, t) \<leftarrow> render_arg c' args; map_option (\<lambda>r. t @ r) (render p' as) }))"

section \<open>Lemmas\<close>

lemma sn_write_chars_append:
  "sn_write_chars sz (s @ t) k = sn_write_chars sz t (sn_write_chars sz s k)"
  by (induction s arbitrary: k) simp_all

lemma sn_write_char_chars: "sn_write_char sz c k = sn_write_chars sz [c] k"
  by simp

lemma sn_write_char_pos [simp]: "snd (sn_write_char sz c k) = Suc (snd k)"
  by (cases k) simp

lemma sn_write_chars_pos [simp]: "snd (sn_write_chars sz s k) = snd k + length s"
  by (induction s arbitrary: k) (auto simp: split_paired_all)

lemma sn_digits_num_str:
  "2 \<le> base \<Longrightarrow> 0 < val \<Longrightarrow> val < base ^ (20 - length tmp) \<Longrightarrow>
   rev (sn_digits base val tmp) = num_str base val @ rev tmp"
proof (induction base val tmp rule: sn_digits.induct)
  case (1 base val tmp)
  have len: "length tmp < 20"
    using "1.prems" by (cases "20 - length tmp") auto
  have step: "sn_digits base val tmp = sn_digits base (val div base) (tmp @ [sn_digit (val mod base)])"
    using len "1.prems" by (subst sn_digits.simps) simp
  show ?case
  proof (cases "val < base")
    case True
    then have "sn_digits base 0 (tmp @ [sn_digit val]) = tmp @ [sn_digit val]"
      by (subst sn_digits.simps) simp
    with True "1.prems" show ?thesis
      by (simp add: step num_str.simps [of base val])
  next
    case False
    have "20 - length tmp = Suc (20 - length (tmp @ [sn_digit (val mod base)]))" using len by simp
    then have "val div base < base ^ (20 - length (tmp @ [sn_digit (val mod base)]))"
      using "1.prems" by (simp add: less_mult_imp_div_less mult.commute)
    moreover have "0 < val div base" using False "1.prems" by (simp add: div_greater_zero_iff)
    ultimately have "rev (sn_digits base (val div base) (tmp @ [sn_digit (val mod base)])) =
        num_str base (val div base) @ rev (tmp @ [sn_digit (val mod base)])"
      using "1.IH" "1.prems" len by simp
    with False "1.prems" show ?thesis
      by (simp add: step num_str.simps [of base val])
  qed
qed

lemma sn_write_uint_num_str:
  assumes "val < 2 ^ 64" "base = 10 \<or> base = 16"
  shows "sn_write_uint sz val base k = sn_write_chars sz (num_str base val) k"
proof (cases "val = 0")
  case True
  have "sn_digits base 0 [sn_digit 0] = [sn_digit 0]" by (subst sn_digits.simps) simp
  with True assms(2) show ?thesis by (auto simp: sn_write_uint_def num_str.simps)
next
  case False
  have "val < base ^ (20 - length [])" using assms by auto
  then have "rev (sn_digits base val []) = num_str base val @ rev []"
    using False assms(2) by (intro sn_digits_num_str) auto
  with False show ?thesis by (simp add: sn_write_uint_def)
qed

lemma sint_u32_bounds: "- (2 ^ 31) \<le> sint (v :: 32 word)" "sint (v :: 32 word) < 2 ^ 31"
  using sint_greater_eq [of v] sint_less [of v] by simp_all

lemma sn_write_uint_u64:
  "sn_write_uint sz (unat (v :: u64)) 10 k = sn_write_chars sz (num_str 10 (unat v)) k"
  "sn_write_uint sz (unat (v :: u64)) 16 k = sn_write_chars sz (num_str 16 (unat v)) k"
proof -
  have "unat v < 2 ^ 64" using unsigned_less [of v] by simp
  then show "sn_write_uint sz (unat v) 10 k = sn_write_chars sz (num_str 10 (unat v)) k"
    "sn_write_uint sz (unat v) 16 k = sn_write_chars sz (num_str 16 (unat v)) k"
    by (simp_all only: sn_write_uint_num_str simp_thms)
qed

lemma sn_write_uint_int:
  "sn_write_uint sz (nat (sint (v :: 32 word))) 10 k = sn_write_chars sz (num_str 10 (nat (sint v))) k"
  using sint_u32_bounds [of v] by (intro sn_write_uint_num_str) auto

lemma sn_write_uint_neg:
  "sint (v :: 32 word) < 0 \<Longrightarrow>
   sn_write_uint sz (Suc (nat (- sint v - 1))) 10 k = sn_write_chars sz (num_str 10 (nat (- sint v))) k"
proof -
  assume "sint v < 0"
  then have "Suc (nat (- sint v - 1)) = nat (- sint v)" "nat (- sint v) < 2 ^ 64"
    using sint_u32_bounds [of v] by auto
  then show ?thesis using sn_write_uint_num_str by metis
qed

lemma sn_arg_render:
  "sn_arg sz c args k = map_option (\<lambda>(as, t). (as, sn_write_chars sz t k)) (render_arg c args)"
  by (simp add: sn_write_str_def sn_write_uint_u64 sn_write_uint_int sn_write_uint_neg
      sn_write_chars_append del: sn_write_char.simps split: list.splits va.splits)

text \<open>The cursor after writing a text: the part that fits is in the buffer.\<close>

lemma sn_write_chars_buf:
  "sz \<le> length buf \<Longrightarrow> pos < sz \<Longrightarrow>
   fst (sn_write_chars sz s (buf, pos)) =
     take pos buf @ take (sz - 1 - pos) s @ drop (pos + min (length s) (sz - 1 - pos)) buf"
proof (induction s arbitrary: buf pos)
  case (Cons c s)
  show ?case
  proof (cases "pos + 1 < sz")
    case True
    then have "fst (sn_write_chars sz (c # s) (buf, pos)) = fst (sn_write_chars sz s (buf[pos := c], pos + 1))"
      by simp
    also have "\<dots> = take (pos + 1) (buf[pos := c]) @ take (sz - 1 - (pos + 1)) s @
        drop (pos + 1 + min (length s) (sz - 1 - (pos + 1))) (buf[pos := c])"
      using True Cons.prems by (intro Cons.IH) auto
    also have "take (pos + 1) (buf[pos := c]) = take pos buf @ [c]"
      using True Cons.prems by (simp add: take_Suc_conv_app_nth)
    also have "take (sz - 1 - pos) (c # s) = c # take (sz - 1 - (pos + 1)) s"
      using True by (simp add: take_Cons' )
    moreover have "pos + min (length (c # s)) (sz - 1 - pos) = pos + 1 + min (length s) (sz - 1 - (pos + 1))"
      using True by auto
    ultimately show ?thesis by simp
  next
    case False
    have "fst (sn_write_chars sz s (buf, q)) = buf" if "sz \<le> q + 1" for q
      using that by (induction s arbitrary: q) auto
    moreover have "sz - 1 - pos = 0" using False by simp
    ultimately show ?thesis using False by simp
  qed
qed simp

lemma sn_loop_render:
  "render f args = Some r \<Longrightarrow>
   \<exists>s. sn_loop sz f args k = Some (sn_write_chars sz s k) \<and> (\<exists>t. r = s @ t) \<and>
       (s = r \<or> sz \<le> snd k + length s)"
proof (induction f args arbitrary: k r rule: render.induct)
  case (1 args)
  then show ?case by (intro exI [of _ "[]"]) auto
next
  case (2 c p args)
  consider (full) "\<not> snd k < sz"
    | (lit) "snd k < sz" "c \<noteq> CHR ''%''"
    | (pct) "snd k < sz" "c = CHR ''%''" "p = []"
    | (arg) c' p' where "snd k < sz" "c = CHR ''%''" "p = c' # p'"
    by (cases p) auto
  then show ?case
  proof cases
    case full
    then show ?thesis by (intro exI [of _ "[]"]) auto
  next
    case lit
    with 2 obtain r' where r: "r = c # r'" "render p args = Some r'" by auto
    from "2.IH"(1) [OF lit(2) r(2), of "sn_write_char sz c k"] obtain s t where
      "sn_loop sz p args (sn_write_char sz c k) = Some (sn_write_chars sz s (sn_write_char sz c k))"
      "r' = s @ t" "s = r' \<or> sz \<le> Suc (snd k) + length s"
      by auto
    with lit r have "sn_loop sz (c # p) args k = Some (sn_write_chars sz (c # s) k)"
      "r = (c # s) @ t" "c # s = r \<or> sz \<le> snd k + length (c # s)" by auto
    then show ?thesis by blast
  next
    case pct
    with 2 show ?thesis by (intro exI [of _ "''%''"]) auto
  next
    case arg
    with "2.prems" obtain as u r' where r: "render_arg c' args = Some (as, u)" "render p' as = Some r'"
      "r = u @ r'" by (auto simp del: render_arg.simps split: bind_splits)
    have "\<not> c \<noteq> CHR ''%''" using arg(2) by simp
    from "2.IH"(2) [OF this arg(3) r(1) refl r(2), of "sn_write_chars sz u k"] obtain s t where
      "sn_loop sz p' as (sn_write_chars sz u k) = Some (sn_write_chars sz s (sn_write_chars sz u k))"
      "r' = s @ t" "s = r' \<or> sz \<le> snd (sn_write_chars sz u k) + length s"
      by auto
    with arg r have "sn_loop sz (c # p) args k = Some (sn_write_chars sz (u @ s) k)"
      "r = (u @ s) @ t" "u @ s = r \<or> sz \<le> snd k + length (u @ s)"
      by (auto simp: sn_arg_render sn_write_chars_append simp del: sn_arg.simps render_arg.simps)
    then show ?thesis by blast
  qed
qed



end
