(* ===== verification/Buddy.thy ===== *)
theory Buddy
  imports KString
begin

text \<open>
  The physical page allocator of \<open>kernel/mem.c\<close>: page descriptors, the per-order free lists,
  splitting and merging, \<open>alloc_pages\<close> and \<open>free_pages\<close>.

  The static data of the file is the record \<open>pmm\<close>; a \<open>struct page *\<close> is the index of the
  descriptor in \<open>page_array\<close> and the free lists are threaded through \<open>pg_next\<close>. Physical memory is
  the byte memory \<open>ram\<close>, because \<open>alloc_pages\<close> clears what it returns. Every public operation runs
  between \<open>buddy_lock\<close> and \<open>buddy_unlock\<close>, so it is one atomic step. Orders, counters and
  addresses are natural numbers: an address is at most 1 MiB plus 256 MiB and a counter at most
  the number of pages, far below \<open>2 ^ 32\<close>. Writing outside \<open>page_array\<close> and looping on a cyclic
  list give \<^const>\<open>None\<close>.
\<close>

section \<open>Descriptors and state\<close>

definition PAGE_SIZE :: nat where "PAGE_SIZE = 4096"
definition MAX_ORDER :: nat where "MAX_ORDER = 10"
definition BUDDY_MAX_PAGES :: nat where "BUDDY_MAX_PAGES = 65536"
definition KERNEL_PHYS_MAX :: nat where "KERNEL_PHYS_MAX = 0x40000000"

definition PAGE_FLAG_FREE :: u32 where "PAGE_FLAG_FREE = 1"
definition PAGE_FLAG_RESERVED :: u32 where "PAGE_FLAG_RESERVED = 2"
definition PAGE_FLAG_KERNEL :: u32 where "PAGE_FLAG_KERNEL = 4"
definition PAGE_FLAG_SLAB :: u32 where "PAGE_FLAG_SLAB = 8"

record page =
  pg_flags :: u32
  pg_order :: nat
  pg_ref_count :: nat
  pg_phys_addr :: nat
  pg_buddy :: "nat option"
  pg_next :: "nat option"
  pg_slab_cache :: "nat option"

record pmm =
  page_array :: "nat \<Rightarrow> page"
  total_phys_pages :: nat
  phys_mem_base :: nat
  phys_mem_end :: nat
  free_area :: "nat \<Rightarrow> nat option"
  stat_total_pages :: nat
  stat_used_pages :: nat
  ram :: mem

definition page_zero :: page where
  "page_zero = \<lparr> pg_flags = 0, pg_order = 0, pg_ref_count = 0, pg_phys_addr = 0,
     pg_buddy = None, pg_next = None, pg_slab_cache = None \<rparr>"

definition has_flag :: "page \<Rightarrow> u32 \<Rightarrow> bool" where
  "has_flag p f \<longleftrightarrow> pg_flags p AND f \<noteq> 0"

definition set_page :: "nat \<Rightarrow> (page \<Rightarrow> page) \<Rightarrow> pmm \<Rightarrow> pmm" where
  "set_page i f s = s\<lparr> page_array := (page_array s)(i := f (page_array s i)) \<rparr>"

definition set_head :: "nat \<Rightarrow> nat option \<Rightarrow> pmm \<Rightarrow> pmm" where
  "set_head o' p s = s\<lparr> free_area := (free_area s)(o' := p) \<rparr>"

section \<open>Descriptor helpers\<close>

definition pfn_to_page :: "nat \<Rightarrow> nat option" where
  "pfn_to_page pfn = (if pfn \<ge> BUDDY_MAX_PAGES then None else Some pfn)"

text \<open>\<^const>\<open>None\<close> is the code's \<open>(uint64_t)-1\<close>.\<close>

definition phys_to_pfn :: "pmm \<Rightarrow> nat \<Rightarrow> nat option" where
  "phys_to_pfn s pa = (if pa < phys_mem_base s then None else Some ((pa - phys_mem_base s) div PAGE_SIZE))"

definition pfn_to_phys :: "pmm \<Rightarrow> nat \<Rightarrow> nat" where
  "pfn_to_phys s pfn = phys_mem_base s + pfn * PAGE_SIZE"

definition get_buddy :: "nat \<Rightarrow> nat \<Rightarrow> nat option" where
  "get_buddy pfn ord = (let buddy_pfn = pfn XOR 2 ^ ord
     in if buddy_pfn \<ge> BUDDY_MAX_PAGES then None else Some buddy_pfn)"

section \<open>Free lists\<close>

definition list_add :: "nat \<Rightarrow> nat \<Rightarrow> pmm \<Rightarrow> pmm" where
  "list_add ord p s = set_head ord (Some p) (set_page p (pg_next_update (\<lambda>_. free_area s ord)) s)"

partial_function (option) list_prev :: "(nat \<Rightarrow> page) \<Rightarrow> nat option \<Rightarrow> nat \<Rightarrow> nat option option" where
  "list_prev pa prev p =
     (case prev of
        None \<Rightarrow> Some None
      | Some q \<Rightarrow> if pg_next (pa q) \<noteq> Some p then list_prev pa (pg_next (pa q)) p else Some (Some q))"

definition list_del :: "nat \<Rightarrow> nat \<Rightarrow> pmm \<Rightarrow> pmm option" where
  "list_del ord p s =
     (if free_area s ord = Some p then
        Some (set_page p (pg_next_update (\<lambda>_. None)) (set_head ord (pg_next (page_array s p)) s))
      else do {
        prev \<leftarrow> list_prev (page_array s) (free_area s ord) p;
        Some (case prev of
            None \<Rightarrow> s
          | Some q \<Rightarrow>
              set_page p (pg_next_update (\<lambda>_. None))
                (set_page q (pg_next_update (\<lambda>_. pg_next (page_array s p))) s)) })"

section \<open>Marking ranges\<close>

primrec mark_reserved_loop :: "nat \<Rightarrow> nat \<Rightarrow> pmm \<Rightarrow> pmm" where
  "mark_reserved_loop pfn 0 s = s"
| "mark_reserved_loop pfn (Suc n) s =
     mark_reserved_loop (Suc pfn) n (set_page pfn (pg_flags_update (\<lambda>f. f OR PAGE_FLAG_RESERVED)) s)"

definition buddy_mark_reserved :: "nat \<Rightarrow> nat \<Rightarrow> pmm \<Rightarrow> pmm" where
  "buddy_mark_reserved start_pfn end_pfn s =
     (if start_pfn \<ge> BUDDY_MAX_PAGES then s
      else mark_reserved_loop start_pfn (min end_pfn BUDDY_MAX_PAGES - start_pfn) s)"

definition mark_available_page :: "nat \<Rightarrow> pmm \<Rightarrow> pmm" where
  "mark_available_page pfn s =
     (if has_flag (page_array s pfn) PAGE_FLAG_RESERVED then s
      else stat_total_pages_update (\<lambda>n. n + 1)
             (list_add 0 pfn
               (set_page pfn (\<lambda>_. \<lparr> pg_flags = PAGE_FLAG_FREE, pg_order = 0, pg_ref_count = 0,
                  pg_phys_addr = pfn_to_phys s pfn, pg_buddy = None, pg_next = None,
                  pg_slab_cache = None \<rparr>) s)))"

primrec mark_available_loop :: "nat \<Rightarrow> nat \<Rightarrow> pmm \<Rightarrow> pmm" where
  "mark_available_loop pfn 0 s = s"
| "mark_available_loop pfn (Suc n) s = mark_available_loop (Suc pfn) n (mark_available_page pfn s)"

definition buddy_mark_available :: "nat \<Rightarrow> nat \<Rightarrow> pmm \<Rightarrow> pmm" where
  "buddy_mark_available start_pfn end_pfn s =
     (if start_pfn \<ge> BUDDY_MAX_PAGES then s
      else mark_available_loop start_pfn (min end_pfn BUDDY_MAX_PAGES - start_pfn) s)"

section \<open>Merging and splitting\<close>

definition free_block_page :: "pmm \<Rightarrow> nat \<Rightarrow> nat \<Rightarrow> page \<Rightarrow> page" where
  "free_block_page s pfn ord p =
     p\<lparr> pg_flags := PAGE_FLAG_FREE, pg_order := ord, pg_phys_addr := pfn_to_phys s pfn \<rparr>"

partial_function (option) buddy_merge :: "nat \<Rightarrow> pmm \<Rightarrow> (pmm \<times> nat) option" where
  "buddy_merge p s =
     (let ord = pg_order (page_array s p)
      in if ord \<ge> MAX_ORDER then Some (s, p)
         else case get_buddy p ord of
                None \<Rightarrow> Some (s, p)
              | Some buddy \<Rightarrow>
                  if \<not> has_flag (page_array s buddy) PAGE_FLAG_FREE then Some (s, p)
                  else if pg_order (page_array s buddy) \<noteq> ord then Some (s, p)
                  else do {
                    s1 \<leftarrow> list_del ord p s;
                    s2 \<leftarrow> list_del ord buddy s1;
                    (let base_pfn = (if p < buddy then p else buddy);
                         s3 = list_add (ord + 1) base_pfn
                                (set_page base_pfn (free_block_page s2 base_pfn (ord + 1)) s2)
                     in buddy_merge base_pfn s3) })"

text \<open>The inner loop of \<open>buddy_coalesce_all\<close> returns whether it stopped because of a merge.\<close>

partial_function (option) coalesce_scan :: "nat option \<Rightarrow> pmm \<Rightarrow> (pmm \<times> bool) option" where
  "coalesce_scan p s =
     (case p of
        None \<Rightarrow> Some (s, False)
      | Some q \<Rightarrow>
          if \<not> has_flag (page_array s q) PAGE_FLAG_FREE
          then coalesce_scan (pg_next (page_array s q)) s
          else do {
            (s', result) \<leftarrow> buddy_merge q s;
            if result \<noteq> q then Some (s', True)
            else coalesce_scan (pg_next (page_array s' q)) s' })"

partial_function (option) coalesce_order :: "nat \<Rightarrow> pmm \<Rightarrow> pmm option" where
  "coalesce_order ord s = do {
     (s', merged) \<leftarrow> coalesce_scan (free_area s ord) s;
     if merged then coalesce_order ord s' else Some s' }"

primrec coalesce_orders :: "nat \<Rightarrow> nat \<Rightarrow> pmm \<Rightarrow> pmm option" where
  "coalesce_orders ord 0 s = Some s"
| "coalesce_orders ord (Suc n) s = do { s' \<leftarrow> coalesce_order ord s; coalesce_orders (Suc ord) n s' }"

definition buddy_coalesce_all :: "pmm \<Rightarrow> pmm option" where
  "buddy_coalesce_all s = coalesce_orders 0 MAX_ORDER s"

text \<open>\<open>buddy_split\<close> returns the new state and the left half, or NULL with the state unchanged.\<close>

definition buddy_split :: "nat \<Rightarrow> pmm \<Rightarrow> (pmm \<times> nat option) option" where
  "buddy_split ord s =
     (if ord = 0 \<or> ord > MAX_ORDER then Some (s, None)
      else case free_area s ord of
             None \<Rightarrow> Some (s, None)
           | Some p \<Rightarrow> do {
               s1 \<leftarrow> list_del ord p s;
               (let new_order = ord - 1; buddy_pfn = p + 2 ^ new_order
                in if buddy_pfn \<ge> BUDDY_MAX_PAGES then None
                   else let s2 = set_page p (free_block_page s1 p new_order) s1;
                            s3 = set_page buddy_pfn (free_block_page s2 buddy_pfn new_order) s2
                        in Some (list_add new_order buddy_pfn (list_add new_order p s3), Some p)) })"

section \<open>Allocation and release\<close>

function find_order :: "pmm \<Rightarrow> nat \<Rightarrow> nat" where
  "find_order s current_order =
     (if current_order \<le> MAX_ORDER \<and> free_area s current_order = None
      then find_order s (current_order + 1) else current_order)"
  by pat_completeness auto
termination by (relation "measure (\<lambda>(s, o'). Suc MAX_ORDER - o')") auto

declare find_order.simps [simp del]

text \<open>The loop that splits from \<open>order + n\<close> down to \<open>order\<close>.\<close>

primrec split_down :: "nat \<Rightarrow> nat \<Rightarrow> pmm \<Rightarrow> pmm option" where
  "split_down ord 0 s = Some s"
| "split_down ord (Suc n) s = do { (s', _) \<leftarrow> buddy_split (ord + Suc n) s; split_down ord n s' }"

definition sub_used :: "nat \<Rightarrow> pmm \<Rightarrow> pmm" where
  "sub_used n s = stat_used_pages_update (\<lambda>u. if u \<ge> n then u - n else 0) s"

definition alloc_pages :: "nat \<Rightarrow> pmm \<Rightarrow> (pmm \<times> nat option) option" where
  "alloc_pages ord s =
     (if ord > MAX_ORDER then Some (s, None)
      else let current_order = find_order s ord
           in if current_order > MAX_ORDER then Some (s, None)
              else do {
                s1 \<leftarrow> split_down ord (current_order - ord) s;
                case free_area s1 ord of
                  None \<Rightarrow> Some (s1, None)
                | Some p \<Rightarrow> do {
                    s2 \<leftarrow> list_del ord p s1;
                    (let s3 = set_page p (\<lambda>pg. pg\<lparr> pg_flags := pg_flags pg AND NOT PAGE_FLAG_FREE,
                                pg_order := ord, pg_ref_count := 1 \<rparr>) s2;
                         s4 = stat_used_pages_update (\<lambda>u. u + 2 ^ ord) s3;
                         pa = pg_phys_addr (page_array s4 p)
                     in if pa \<ge> KERNEL_PHYS_MAX then
                          Some (sub_used (2 ^ ord) (list_add ord p
                            (set_page p (\<lambda>pg. pg\<lparr> pg_flags := pg_flags pg OR PAGE_FLAG_FREE,
                                pg_order := ord, pg_ref_count := 0 \<rparr>) s4)), None)
                        else Some (ram_update (\<lambda>m. fst (memset m pa 0 (PAGE_SIZE * 2 ^ ord))) s4,
                               Some pa)) } })"

definition free_pages :: "nat \<Rightarrow> nat \<Rightarrow> pmm \<Rightarrow> pmm option" where
  "free_pages pa ord s =
     (if pa = 0 then Some s
      else if ord > MAX_ORDER then Some s
      else if pa < phys_mem_base s then Some s
      else case phys_to_pfn s pa of
             None \<Rightarrow> Some s
           | Some p \<Rightarrow>
               if p \<ge> total_phys_pages s then Some s
               else if has_flag (page_array s p) PAGE_FLAG_RESERVED then Some s
               else if has_flag (page_array s p) PAGE_FLAG_FREE then Some s
               else do {
                 (s', _) \<leftarrow> buddy_merge p
                   (sub_used (2 ^ ord) (list_add ord p
                     (set_page p (\<lambda>pg. pg\<lparr> pg_flags := pg_flags pg OR PAGE_FLAG_FREE,
                        pg_order := ord, pg_ref_count := 0 \<rparr>) s)));
                 Some s' })"

definition alloc_page :: "pmm \<Rightarrow> (pmm \<times> nat option) option" where
  "alloc_page s = alloc_pages 0 s"

definition free_page :: "nat \<Rightarrow> pmm \<Rightarrow> pmm option" where
  "free_page pa s = free_pages pa 0 s"

definition get_page_struct :: "pmm \<Rightarrow> nat \<Rightarrow> nat option" where
  "get_page_struct s pa =
     (case phys_to_pfn s pa of
        None \<Rightarrow> None
      | Some pfn \<Rightarrow> if pfn \<ge> total_phys_pages s then None else Some pfn)"

definition mem_get_stats :: "pmm \<Rightarrow> u64 \<times> u64 \<times> u64" where
  "mem_get_stats s =
     (let total = of_nat (stat_total_pages s * PAGE_SIZE); used = of_nat (stat_used_pages s * PAGE_SIZE)
      in (total, total - used, used))"

end
