(* ===== verification/BuddyInv.thy ===== *)
theory BuddyInv
  imports Buddy
begin

text \<open>
  Correctness of the page allocator of theory Buddy.

  A block \<open>(b, k)\<close> is the set of the \<open>2 ^ k\<close> page frames from \<open>b\<close>. The free blocks of a state are
  read off its linked lists; the blocks in the hands of callers are a ghost set. The invariant says
  that the lists are well formed, that all blocks are aligned and pairwise disjoint, and that a
  descriptor with the FREE flag heads a free block or lies strictly inside some block. (Merging
  leaves the flag set in the descriptors it absorbs; alignment is what makes this harmless.)
\<close>

section \<open>Dyadic blocks\<close>

type_synonym block = "nat \<times> nat"

definition blk :: "block \<Rightarrow> nat set" where
  "blk c = {fst c..<fst c + 2 ^ snd c}"

definition blk_ok :: "block \<Rightarrow> bool" where
  "blk_ok c \<longleftrightarrow> snd c \<le> MAX_ORDER \<and> 2 ^ snd c dvd fst c \<and> fst c < BUDDY_MAX_PAGES"

definition blocks_ok :: "block set \<Rightarrow> bool" where
  "blocks_ok B \<longleftrightarrow> (\<forall>c \<in> B. blk_ok c) \<and> (\<forall>c \<in> B. \<forall>d \<in> B. c \<noteq> d \<longrightarrow> blk c \<inter> blk d = {})"

section \<open>The invariant\<close>

abbreviation nxt :: "pmm \<Rightarrow> nat \<Rightarrow> nat option" where
  "nxt s \<equiv> \<lambda>p. pg_next (page_array s p)"

definition free_blocks :: "pmm \<Rightarrow> block set" where
  "free_blocks s = {(b, k). k \<le> MAX_ORDER \<and> (\<exists>xs. linked (nxt s) (free_area s k) xs \<and> b \<in> set xs)}"

definition lists_ok :: "pmm \<Rightarrow> bool" where
  "lists_ok s \<longleftrightarrow> (\<forall>k \<le> MAX_ORDER. \<exists>xs. linked (nxt s) (free_area s k) xs)"

definition free_page_ok :: "pmm \<Rightarrow> block \<Rightarrow> bool" where
  "free_page_ok s c \<longleftrightarrow> has_flag (page_array s (fst c)) PAGE_FLAG_FREE \<and>
     \<not> has_flag (page_array s (fst c)) PAGE_FLAG_RESERVED \<and>
     pg_order (page_array s (fst c)) = snd c \<and> pg_phys_addr (page_array s (fst c)) = pfn_to_phys s (fst c)"

definition used_page_ok :: "pmm \<Rightarrow> block \<Rightarrow> bool" where
  "used_page_ok s c \<longleftrightarrow> \<not> has_flag (page_array s (fst c)) PAGE_FLAG_FREE \<and>
     \<not> has_flag (page_array s (fst c)) PAGE_FLAG_RESERVED \<and>
     pg_order (page_array s (fst c)) = snd c \<and> pg_phys_addr (page_array s (fst c)) = pfn_to_phys s (fst c)"

definition no_stray_free :: "pmm \<Rightarrow> block set \<Rightarrow> block set \<Rightarrow> bool" where
  "no_stray_free s F A \<longleftrightarrow> (\<forall>q < BUDDY_MAX_PAGES. has_flag (page_array s q) PAGE_FLAG_FREE \<longrightarrow>
     (\<exists>c \<in> F \<union> A. q \<in> blk c \<and> (fst c = q \<longrightarrow> c \<in> F)))"

text \<open>\<open>bounds_ok\<close>: the pages of a block are managed pages below the identity-mapped limit.\<close>

definition bounds_ok :: "pmm \<Rightarrow> block set \<Rightarrow> bool" where
  "bounds_ok s B \<longleftrightarrow> phys_mem_base s = 0x100000 \<and> total_phys_pages s \<le> BUDDY_MAX_PAGES \<and>
     (\<forall>c \<in> B. blk c \<subseteq> {..<total_phys_pages s})"

definition buddy_inv :: "pmm \<Rightarrow> block set \<Rightarrow> bool" where
  "buddy_inv s A \<longleftrightarrow> lists_ok s \<and> blocks_ok (free_blocks s \<union> A) \<and> free_blocks s \<inter> A = {} \<and>
     (\<forall>c \<in> free_blocks s. free_page_ok s c) \<and> (\<forall>c \<in> A. used_page_ok s c) \<and>
     no_stray_free s (free_blocks s) A \<and> bounds_ok s (free_blocks s \<union> A)"

text \<open>No two free buddies of the same order: everything that can be merged has been.\<close>

definition coalesced :: "block set \<Rightarrow> bool" where
  "coalesced F \<longleftrightarrow> (\<forall>b k. (b, k) \<in> F \<longrightarrow> k < MAX_ORDER \<longrightarrow> (b XOR 2 ^ k, k) \<notin> F)"

definition coalesced_except :: "block \<Rightarrow> block set \<Rightarrow> bool" where
  "coalesced_except c F \<longleftrightarrow> (\<forall>b k. (b, k) \<in> F \<longrightarrow> k < MAX_ORDER \<longrightarrow> (b XOR 2 ^ k, k) \<in> F \<longrightarrow>
     (b, k) = c \<or> (b XOR 2 ^ k, k) = c)"

definition free_frames :: "pmm \<Rightarrow> nat set" where
  "free_frames s = \<Union> (blk ` free_blocks s)"

section \<open>Arithmetic of dyadic blocks\<close>

lemma pow2_mult_less: "(2 :: nat) ^ k dvd a \<Longrightarrow> 2 ^ k dvd c \<Longrightarrow> a < c + 2 ^ k \<Longrightarrow> a \<le> c"
proof -
  assume "2 ^ k dvd a" "2 ^ k dvd c" "a < c + 2 ^ k"
  then obtain i j where ij: "a = 2 ^ k * i" "c = 2 ^ k * j" "2 ^ k * i < 2 ^ k * (j + 1)"
    by (auto elim!: dvdE)
  then have "i < j + 1" by (simp only: mult_less_cancel1)
  then show ?thesis using ij by simp
qed

lemma pow2_mult_step: "(2 :: nat) ^ k dvd a \<Longrightarrow> 2 ^ k dvd c \<Longrightarrow> a < c \<Longrightarrow> a + 2 ^ k \<le> c"
proof -
  assume "2 ^ k dvd a" "2 ^ k dvd c" "a < c"
  then obtain i j where "a = 2 ^ k * i" "c = 2 ^ k * j" "i < j"
    by (auto elim!: dvdE)
  moreover from \<open>i < j\<close> have "2 ^ k * Suc i \<le> 2 ^ k * j" by (intro mult_le_mono2) simp
  ultimately show ?thesis by simp
qed

lemma dyadic_nested:
  assumes "2 ^ k dvd b" "2 ^ l dvd c" "k \<le> l" "blk (b, k) \<inter> blk (c, l) \<noteq> {}"
  shows "blk (b, k) \<subseteq> blk (c, l)"
proof -
  obtain x where x: "b \<le> x" "x < b + 2 ^ k" "c \<le> x" "x < c + 2 ^ l"
    using assms(4) unfolding blk_def by fastforce
  have kl: "(2 :: nat) ^ k dvd 2 ^ l" using assms(3) by (simp add: le_imp_power_dvd)
  then have "2 ^ k dvd c" "2 ^ k dvd c + 2 ^ l" using assms(2) by (auto intro: dvd_trans)
  then have "c \<le> b" "b + 2 ^ k \<le> c + 2 ^ l"
    using x assms(1) by (auto intro: pow2_mult_less pow2_mult_step)
  then show ?thesis by (auto simp: blk_def)
qed

lemma blk_nonempty [simp]: "fst c \<in> blk c" "blk c \<noteq> {}"
  by (auto simp: blk_def)

lemma finite_blk [simp]: "finite (blk c)"
  by (simp add: blk_def)

lemma card_blk [simp]: "card (blk c) = 2 ^ snd c"
  by (simp add: blk_def)

lemma blocks_ok_eq: "blocks_ok B \<Longrightarrow> c \<in> B \<Longrightarrow> d \<in> B \<Longrightarrow> blk c \<inter> blk d \<noteq> {} \<Longrightarrow> c = d"
  by (auto simp: blocks_ok_def)

lemma blocks_ok_fst: "blocks_ok B \<Longrightarrow> c \<in> B \<Longrightarrow> d \<in> B \<Longrightarrow> fst c = fst d \<Longrightarrow> c = d"
  by (rule blocks_ok_eq) (auto simp: blk_def)

lemma blocks_ok_mem:
  assumes "blocks_ok B" "(b, l) \<in> B"
  shows "l \<le> MAX_ORDER" "2 ^ l dvd b" "b < BUDDY_MAX_PAGES"
proof -
  have "blk_ok (b, l)" using assms by (simp add: blocks_ok_def)
  then show "l \<le> MAX_ORDER" "2 ^ l dvd b" "b < BUDDY_MAX_PAGES" by (simp_all add: blk_ok_def)
qed

lemma blocks_ok_subset: "blocks_ok B \<Longrightarrow> C \<subseteq> B \<Longrightarrow> blocks_ok C"
  unfolding blocks_ok_def by blast

lemma blocks_ok_insert:
  assumes "blocks_ok B" "blk_ok c" "\<And>d. d \<in> B \<Longrightarrow> blk c \<inter> blk d = {}"
  shows "blocks_ok (insert c B)"
  using assms unfolding blocks_ok_def by (metis Int_commute insertE)

lemma xor_pow2:
  assumes "2 ^ k dvd (p :: nat)"
  shows "p XOR 2 ^ k = (if 2 ^ Suc k dvd p then p + 2 ^ k else p - 2 ^ k)"
proof -
  obtain i where i: "p = 2 ^ k * i" using assms by (elim dvdE)
  have "p XOR 2 ^ k = push_bit k (i XOR 1)"
    by (simp only: push_bit_xor) (simp only: push_bit_eq_mult i mult.commute mult_1_right mult_1)
  also have "i XOR 1 = (if even i then i + 1 else i - 1)"
    by (simp add: xor_Suc_0_eq)
  finally show ?thesis
    by (auto simp: i push_bit_eq_mult algebra_simps elim!: oddE)
qed

lemma buddy_pfn:
  assumes "2 ^ k dvd (p :: nat)"
  defines "q \<equiv> p XOR 2 ^ k"
  shows "2 ^ k dvd q" "q \<noteq> p" "2 ^ Suc k dvd min p q"
    "blk (min p q, Suc k) = blk (p, k) \<union> blk (q, k)" "p < q \<Longrightarrow> q = p + 2 ^ k" "q < p \<Longrightarrow> p = q + 2 ^ k"
proof -
  have ge: "2 ^ k \<le> p" if "\<not> 2 ^ Suc k dvd p"
    using that assms(1) by (metis dvd_0_right dvd_imp_le gr0I)
  consider (lo) "2 ^ Suc k dvd p" "q = p + 2 ^ k" | (hi) "\<not> 2 ^ Suc k dvd p" "q = p - 2 ^ k"
    using xor_pow2 [OF assms(1)] by (auto simp: q_def split: if_splits)
  note cs = this
  show "2 ^ k dvd q" using cs assms(1) by cases (auto intro: dvd_diff_nat)
  show "q \<noteq> p" using cs ge by cases (auto, metis diff_less less_irrefl less_le_trans zero_less_numeral zero_less_power)
  show "2 ^ Suc k dvd min p q"
  proof (cases rule: cs)
    case hi
    obtain i where i: "p = 2 ^ k * i" using assms(1) by (elim dvdE)
    with hi have "odd i" by auto
    then have "p - 2 ^ k = 2 ^ Suc k * (i div 2)" using i by (auto elim!: oddE simp: algebra_simps)
    with hi show ?thesis by (metis diff_le_self dvd_triv_left min.absorb2)
  qed simp
  show "blk (min p q, Suc k) = blk (p, k) \<union> blk (q, k)"
    using cs ge by cases (auto simp: blk_def)
  show "p < q \<Longrightarrow> q = p + 2 ^ k" using cs by cases auto
  show "q < p \<Longrightarrow> p = q + 2 ^ k" using cs ge by cases auto
qed

section \<open>Flags\<close>

lemma has_flag_bit:
  "has_flag p PAGE_FLAG_FREE \<longleftrightarrow> bit (pg_flags p) 0"
  "has_flag p PAGE_FLAG_RESERVED \<longleftrightarrow> bit (pg_flags p) (Suc 0)"
  using and_exp_eq_0_iff_not_bit [of "pg_flags p" 0] and_exp_eq_0_iff_not_bit [of "pg_flags p" "Suc 0"]
  by (simp_all add: has_flag_def PAGE_FLAG_FREE_def PAGE_FLAG_RESERVED_def)

lemma flag_bits:
  "bit (f OR PAGE_FLAG_FREE) 0" "bit (f OR PAGE_FLAG_FREE) (Suc 0) = bit f (Suc 0)"
  "\<not> bit (f AND NOT PAGE_FLAG_FREE) 0" "bit (f AND NOT PAGE_FLAG_FREE) (Suc 0) = bit f (Suc 0)"
  "bit PAGE_FLAG_FREE 0" "\<not> bit PAGE_FLAG_FREE (Suc 0)"
  "bit (f OR PAGE_FLAG_RESERVED) 0 = bit f 0" "bit (f OR PAGE_FLAG_RESERVED) (Suc 0)"
  by (simp_all add: PAGE_FLAG_FREE_def PAGE_FLAG_RESERVED_def bit_simps)

section \<open>Free list operations\<close>

text \<open>The two states differ in the links and list heads only.\<close>

definition same_env :: "pmm \<Rightarrow> pmm \<Rightarrow> bool" where
  "same_env s s' \<longleftrightarrow> total_phys_pages s' = total_phys_pages s \<and> phys_mem_base s' = phys_mem_base s \<and>
     phys_mem_end s' = phys_mem_end s \<and> stat_total_pages s' = stat_total_pages s \<and>
     stat_used_pages s' = stat_used_pages s \<and> ram s' = ram s"

definition links_only :: "pmm \<Rightarrow> pmm \<Rightarrow> bool" where
  "links_only s s' \<longleftrightarrow> same_env s s' \<and>
     (\<forall>q. pg_flags (page_array s' q) = pg_flags (page_array s q) \<and>
          pg_order (page_array s' q) = pg_order (page_array s q) \<and>
          pg_ref_count (page_array s' q) = pg_ref_count (page_array s q) \<and>
          pg_phys_addr (page_array s' q) = pg_phys_addr (page_array s q))"

lemma list_prev_eq:
  "linked (\<lambda>q. pg_next (pa q)) h (us @ v # x # ws) \<Longrightarrow> list_prev pa h x = Some (Some v)"
proof (induction us arbitrary: h)
  case Nil
  then show ?case by (subst list_prev.simps) auto
next
  case (Cons u us)
  then have h: "h = Some u" and l: "linked (\<lambda>q. pg_next (pa q)) (pg_next (pa u)) (us @ v # x # ws)"
    by simp_all
  have "pg_next (pa u) \<noteq> Some x"
    using linked_distinct [OF l] linked_head [OF l] by (cases us) auto
  then have "list_prev pa h x = list_prev pa (pg_next (pa u)) x"
    using h by (subst list_prev.simps) simp
  with Cons.IH [OF l] show ?case by simp
qed

lemma linked_remove:
  "linked nx h (us @ v # x # ws) \<Longrightarrow> linked (nx(x := None, v := nx x)) h (us @ v # ws)"
proof (induction us arbitrary: h)
  case Nil
  have d: "distinct ([] @ v # x # ws)" using Nil by (rule linked_distinct)
  have "linked (nx(x := None, v := nx x)) (nx x) ws = linked nx (nx x) ws"
    using d by (intro linked_cong) auto
  with Nil show ?case by (simp add: fun_upd_def)
next
  case (Cons u us)
  have "distinct ((u # us) @ v # x # ws)" using Cons.prems by (rule linked_distinct)
  with Cons show ?case by auto
qed

lemma free_blocks_iff:
  "k \<le> MAX_ORDER \<Longrightarrow> linked (nxt s) (free_area s k) xs \<Longrightarrow> (b, k) \<in> free_blocks s \<longleftrightarrow> b \<in> set xs"
  unfolding free_blocks_def by (auto dest: linked_unique)

lemma free_blocks_le: "(b, k) \<in> free_blocks s \<Longrightarrow> k \<le> MAX_ORDER"
  by (simp add: free_blocks_def)

text \<open>How the lists of a state determine its free blocks, for a state with one list changed.\<close>

lemma free_blocks_one_list:
  assumes s: "lists_ok s" and k: "k \<le> MAX_ORDER"
    and new: "linked (nxt s') (free_area s' k) ys"
    and others: "\<And>j xs. j \<le> MAX_ORDER \<Longrightarrow> j \<noteq> k \<Longrightarrow> linked (nxt s) (free_area s j) xs \<Longrightarrow>
      linked (nxt s') (free_area s' j) xs"
  shows "lists_ok s'"
    "free_blocks s' = {c \<in> free_blocks s. snd c \<noteq> k} \<union> {(b, k) | b. b \<in> set ys}"
proof -
  show ok: "lists_ok s'"
    using s k new others unfolding lists_ok_def by metis
  have "(b, j) \<in> free_blocks s' \<longleftrightarrow> (b, j) \<in> {c \<in> free_blocks s. snd c \<noteq> k} \<union> {(b, k) | b. b \<in> set ys}"
    for b j
  proof (cases "j \<le> MAX_ORDER \<and> j \<noteq> k")
    case True
    then obtain xs where "linked (nxt s) (free_area s j) xs" using s by (auto simp: lists_ok_def)
    with True others show ?thesis by (simp add: free_blocks_iff)
  next
    case False
    then show ?thesis using new k by (auto simp: free_blocks_iff dest: free_blocks_le)
  qed
  then show "free_blocks s' = {c \<in> free_blocks s. snd c \<noteq> k} \<union> {(b, k) | b. b \<in> set ys}"
    by auto
qed

lemma nxt_set_page:
  "nxt (set_page p (pg_next_update (\<lambda>_. v)) s) = (nxt s)(p := v)"
  by (auto simp: set_page_def fun_eq_iff)

lemma nxt_set_head [simp]: "nxt (set_head k h s) = nxt s"
  by (simp add: set_head_def)

lemma free_area_set [simp]:
  "free_area (set_page p f s) = free_area s" "free_area (set_head k h s) = (free_area s)(k := h)"
  by (simp_all add: set_page_def set_head_def)

lemma links_only_set_next: "links_only s (set_page p (pg_next_update (\<lambda>_. v)) s)"
  by (simp add: links_only_def same_env_def set_page_def)

lemma links_only_set_head: "links_only s (set_head k h s)"
  by (simp add: links_only_def same_env_def set_head_def)

lemma links_only_trans: "links_only s t \<Longrightarrow> links_only t u \<Longrightarrow> links_only s u"
  by (simp add: links_only_def same_env_def)

lemma list_add_blocks:
  assumes ok: "lists_ok s" and k: "k \<le> MAX_ORDER" and fresh: "\<And>j. (p, j) \<notin> free_blocks s"
  shows "lists_ok (list_add k p s)" "free_blocks (list_add k p s) = insert (p, k) (free_blocks s)"
    "links_only s (list_add k p s)"
proof -
  obtain xs where xs: "linked (nxt s) (free_area s k) xs" using ok k by (auto simp: lists_ok_def)
  have notin: "p \<notin> set ys" if "j \<le> MAX_ORDER" "linked (nxt s) (free_area s j) ys" for j ys
    using that fresh [of j] by (simp add: free_blocks_iff)
  have new: "linked (nxt (list_add k p s)) (free_area (list_add k p s) k) (p # xs)"
    using xs notin [OF k xs] by (simp add: list_add_def nxt_set_page)
  have others: "linked (nxt (list_add k p s)) (free_area (list_add k p s) j) ys"
    if "j \<le> MAX_ORDER" "j \<noteq> k" "linked (nxt s) (free_area s j) ys" for j ys
    using that notin [of j ys] by (simp add: list_add_def nxt_set_page)
  show "lists_ok (list_add k p s)"
    using free_blocks_one_list(1) [OF ok k new] others by blast
  have "free_blocks (list_add k p s) = {c \<in> free_blocks s. snd c \<noteq> k} \<union> {(b, k) | b. b \<in> set (p # xs)}"
    using free_blocks_one_list(2) [OF ok k new] others by blast
  then show "free_blocks (list_add k p s) = insert (p, k) (free_blocks s)"
    using free_blocks_iff [OF k xs] by auto
  show "links_only s (list_add k p s)"
    unfolding list_add_def by (intro links_only_trans [OF links_only_set_next links_only_set_head])
qed

lemma list_del_blocks:
  assumes ok: "lists_ok s" and B: "blocks_ok (free_blocks s)" and p: "(p, k) \<in> free_blocks s"
  shows "\<exists>s'. list_del k p s = Some s' \<and> lists_ok s' \<and> free_blocks s' = free_blocks s - {(p, k)} \<and>
    links_only s s'"
proof -
  have k: "k \<le> MAX_ORDER" using p by (rule free_blocks_le)
  obtain xs where xs: "linked (nxt s) (free_area s k) xs" using ok k by (auto simp: lists_ok_def)
  have px: "p \<in> set xs" using p xs k by (simp add: free_blocks_iff)
  have dist: "distinct xs" using xs by (rule linked_distinct)
  have other: "q \<notin> set ys" if "q \<in> set xs" "j \<le> MAX_ORDER" "j \<noteq> k" "linked (nxt s) (free_area s j) ys" for q j ys
    using that xs k blocks_ok_fst [OF B, of "(q, k)" "(q, j)"] by (auto simp: free_blocks_iff)
  have fin: "\<exists>s'. list_del k p s = Some s' \<and> lists_ok s' \<and> free_blocks s' = free_blocks s - {(p, k)} \<and>
      links_only s s'"
    if del: "list_del k p s = Some s'" and new: "linked (nxt s') (free_area s' k) (remove1 p xs)"
      and oth: "\<And>j ys. j \<le> MAX_ORDER \<Longrightarrow> j \<noteq> k \<Longrightarrow> linked (nxt s) (free_area s j) ys \<Longrightarrow>
        linked (nxt s') (free_area s' j) ys"
      and lo: "links_only s s'" for s'
  proof -
    have "free_blocks s' = {c \<in> free_blocks s. snd c \<noteq> k} \<union> {(b, k) | b. b \<in> set (remove1 p xs)}"
      using free_blocks_one_list(2) [OF ok k new] oth by blast
    then have "free_blocks s' = free_blocks s - {(p, k)}"
      using dist free_blocks_iff [OF k xs] by auto
    moreover have "lists_ok s'" using free_blocks_one_list(1) [OF ok k new] oth by blast
    ultimately show ?thesis using del lo by blast
  qed
  show ?thesis
  proof (cases "free_area s k = Some p")
    case True
    then obtain ys where ys: "xs = p # ys" using xs px by (cases xs) auto
    let ?s = "set_page p (pg_next_update (\<lambda>_. None)) (set_head k (pg_next (page_array s p)) s)"
    show ?thesis
    proof (rule fin [of ?s])
      show "list_del k p s = Some ?s" using True by (simp add: list_del_def)
      show "linked (nxt ?s) (free_area ?s k) (remove1 p xs)"
        using xs ys dist by (simp add: nxt_set_page)
      show "linked (nxt ?s) (free_area ?s j) zs"
        if "j \<le> MAX_ORDER" "j \<noteq> k" "linked (nxt s) (free_area s j) zs" for j zs
        using that other [OF px that] by (simp add: nxt_set_page)
      show "links_only s ?s" by (intro links_only_trans [OF links_only_set_head links_only_set_next])
    qed
  next
    case False
    obtain us ws where uw: "xs = us @ p # ws" using px by (auto dest: split_list)
    with False xs have "us \<noteq> []" by (cases us) auto
    then obtain us' v where us: "us = us' @ [v]" by (metis append_butlast_last_id)
    have xs': "xs = us' @ v # p # ws" using uw us by simp
    let ?s = "set_page p (pg_next_update (\<lambda>_. None)) (set_page v (pg_next_update (\<lambda>_. pg_next (page_array s p))) s)"
    have vp: "v \<noteq> p" "v \<in> set xs" using dist xs' by auto
    show ?thesis
    proof (rule fin [of ?s])
      show "list_del k p s = Some ?s"
        using False list_prev_eq [of "page_array s" "free_area s k" us' v p ws] xs xs'
        by (simp add: list_del_def)
      have "remove1 p xs = us' @ v # ws" using dist xs' by (simp add: remove1_append)
      then show "linked (nxt ?s) (free_area ?s k) (remove1 p xs)"
        using linked_remove [of "nxt s" "free_area s k" us' v p ws] xs xs' vp
        by (simp add: nxt_set_page fun_upd_twist)
      show "linked (nxt ?s) (free_area ?s j) zs"
        if "j \<le> MAX_ORDER" "j \<noteq> k" "linked (nxt s) (free_area s j) zs" for j zs
        using that other [OF px that] other [OF vp(2) that] by (simp add: nxt_set_page)
      show "links_only s ?s" by (intro links_only_trans [OF links_only_set_next links_only_set_next])
    qed
  qed
qed

section \<open>Descriptor data\<close>

text \<open>A descriptor keeps its flags, order and address.\<close>

definition same_data :: "pmm \<Rightarrow> pmm \<Rightarrow> nat \<Rightarrow> bool" where
  "same_data s s' q \<longleftrightarrow> pg_flags (page_array s' q) = pg_flags (page_array s q) \<and>
     pg_order (page_array s' q) = pg_order (page_array s q) \<and>
     pg_phys_addr (page_array s' q) = pg_phys_addr (page_array s q)"

lemma same_data_trans: "same_data s t q \<Longrightarrow> same_data t u q \<Longrightarrow> same_data s u q"
  by (simp add: same_data_def)

lemma links_only_data: "links_only s s' \<Longrightarrow> same_data s s' q"
  by (simp add: links_only_def same_data_def)

lemma links_only_env: "links_only s s' \<Longrightarrow> same_env s s'"
  by (simp add: links_only_def)

lemma same_env_trans: "same_env s t \<Longrightarrow> same_env t u \<Longrightarrow> same_env s u"
  by (simp add: same_env_def)

lemma same_env_refl [simp]: "same_env s s"
  by (simp add: same_env_def)

lemma same_env_set_page [simp]: "same_env s (set_page p f s)"
  by (simp add: same_env_def set_page_def)

lemma set_page_other: "q \<noteq> p \<Longrightarrow> same_data s (set_page p f s) q"
  by (simp add: same_data_def set_page_def)

lemma set_page_blocks:
  assumes "\<And>pg. pg_next (f pg) = pg_next pg"
  shows "free_blocks (set_page p f s) = free_blocks s" "lists_ok (set_page p f s) = lists_ok s"
proof -
  have "nxt (set_page p f s) = nxt s" using assms by (auto simp: set_page_def fun_eq_iff)
  then show "free_blocks (set_page p f s) = free_blocks s" "lists_ok (set_page p f s) = lists_ok s"
    by (simp_all add: free_blocks_def lists_ok_def)
qed

lemma same_data_flag: "same_data s s' q \<Longrightarrow> has_flag (page_array s' q) f = has_flag (page_array s q) f"
  by (simp add: same_data_def has_flag_def)

lemma same_data_ok:
  assumes "same_data s s' (fst c)" "same_env s s'"
  shows "free_page_ok s' c = free_page_ok s c" "used_page_ok s' c = used_page_ok s c"
  using assms by (simp_all add: free_page_ok_def used_page_ok_def same_data_flag pfn_to_phys_def)
    (simp_all add: same_data_def same_env_def)

lemma free_block_page_next [simp]: "pg_next (free_block_page s b k pg) = pg_next pg"
  by (simp add: free_block_page_def)

lemma free_page_ok_new:
  "free_page_ok (set_page b (free_block_page s b k) s) (b, k)"
  by (simp add: free_page_ok_def set_page_def free_block_page_def has_flag_bit flag_bits pfn_to_phys_def)

section \<open>Merging\<close>

lemma buddy_inv_ok:
  assumes "buddy_inv s A" "c \<in> free_blocks s"
  shows "blk_ok c" "free_page_ok s c" "c \<notin> A"
  using assms by (auto simp: buddy_inv_def blocks_ok_def)

lemma buddy_is_free:
  assumes inv: "buddy_inv s A" and p: "(p, k) \<in> free_blocks s" and q: "q = p XOR 2 ^ k"
    and qb: "q < BUDDY_MAX_PAGES" "has_flag (page_array s q) PAGE_FLAG_FREE" "pg_order (page_array s q) = k"
  shows "(q, k) \<in> free_blocks s"
proof -
  have B: "blocks_ok (free_blocks s \<union> A)" using inv by (simp add: buddy_inv_def)
  have pk: "2 ^ k dvd p" using buddy_inv_ok(1) [OF inv p] by (simp add: blk_ok_def)
  note bd = buddy_pfn [OF pk, folded q]
  have "no_stray_free s (free_blocks s) A" using inv by (simp add: buddy_inv_def)
  then obtain c where c0: "c \<in> free_blocks s \<union> A" "q \<in> blk c" "fst c = q \<longrightarrow> c \<in> free_blocks s"
    using qb unfolding no_stray_free_def by blast
  then consider "c \<in> free_blocks s" "fst c = q" | "c \<in> free_blocks s \<union> A" "fst c < q" "q \<in> blk c"
    by (cases "fst c = q") (auto simp: blk_def)
  then show ?thesis
  proof cases
    case 1
    then have "snd c = k" using buddy_inv_ok(2) [OF inv, of c] qb(3) by (simp add: free_page_ok_def)
    with 1 show ?thesis by (metis prod.collapse)
  next
    case 2
    obtain b l where c: "c = (b, l)" by (cases c)
    have bl: "2 ^ l dvd b" using blocks_ok_mem [OF B] 2(1) c by simp
    have "\<not> l \<le> k"
    proof
      assume "l \<le> k"
      then have "2 ^ l dvd q" using bd(1) by (meson dvd_trans le_imp_power_dvd)
      then have "q \<le> b" using bl 2(3) c by (intro pow2_mult_less [of l]) (auto simp: blk_def)
      with 2(2) c show False by simp
    qed
    then have "Suc k \<le> l" by simp
    have qm: "q \<in> blk (min p q, Suc k)" unfolding bd(4) by (simp add: blk_def)
    have "blk (min p q, Suc k) \<subseteq> blk (b, l)"
      using qm 2(3) c \<open>Suc k \<le> l\<close> bl bd(3) by (intro dyadic_nested) auto
    moreover have pp: "p \<in> blk (p, k)" by (simp add: blk_def)
    ultimately have "p \<in> blk c" unfolding bd(4) c by blast
    with pp have "(p, k) = c" using p 2(1) by (intro blocks_ok_eq [OF B]) blast+
    then show ?thesis using c \<open>Suc k \<le> l\<close> by simp
  qed
qed

lemma blocks_ok_merge:
  assumes B: "blocks_ok B" and "(p, k) \<in> B" "(q, k) \<in> B" and q: "q = p XOR 2 ^ k" and k: "k < MAX_ORDER"
  shows "blocks_ok (insert (min p q, Suc k) (B - {(p, k), (q, k)}))"
proof -
  note pk = blocks_ok_mem(2,3) [OF assms(1,2)]
  note bd = buddy_pfn [OF pk(1), folded q]
  have new: "blk_ok (min p q, Suc k)" using k pk(2) bd(3) by (simp add: blk_ok_def)
  have dis: "blk (min p q, Suc k) \<inter> blk c = {}" if "c \<in> B - {(p, k), (q, k)}" for c
    using B assms(2,3) that unfolding bd(4) blocks_ok_def by blast
  show ?thesis
    using blocks_ok_subset [OF B] new dis by (intro blocks_ok_insert) auto
qed

text \<open>The state after the two removals and the insertion of the merged block.\<close>

definition put_block :: "nat \<Rightarrow> nat \<Rightarrow> pmm \<Rightarrow> pmm" where
  "put_block b k s = list_add k b (set_page b (free_block_page s b k) s)"

lemma put_block_props:
  assumes ok: "lists_ok s" and k: "k \<le> MAX_ORDER" and fresh: "\<And>j. (b, j) \<notin> free_blocks s"
  shows "lists_ok (put_block b k s)" "free_blocks (put_block b k s) = insert (b, k) (free_blocks s)"
    "same_env s (put_block b k s)" "free_page_ok (put_block b k s) (b, k)"
    "x \<noteq> b \<Longrightarrow> same_data s (put_block b k s) x"
proof -
  let ?t = "set_page b (free_block_page s b k) s"
  have t: "lists_ok ?t" "free_blocks ?t = free_blocks s"
    using ok by (simp_all add: set_page_blocks)
  note la = list_add_blocks [OF t(1) k, of b]
  show "lists_ok (put_block b k s)" "free_blocks (put_block b k s) = insert (b, k) (free_blocks s)"
    using la t(2) fresh by (simp_all add: put_block_def)
  have lo: "links_only ?t (put_block b k s)" using la(3) t(2) fresh by (simp add: put_block_def)
  show env: "same_env s (put_block b k s)"
    using same_env_trans [OF _ links_only_env [OF lo]] by simp
  show "free_page_ok (put_block b k s) (b, k)"
    using free_page_ok_new [of b s k] same_data_ok(1) [OF links_only_data [OF lo] links_only_env [OF lo], of "(b, k)"]
    by simp
  show "x \<noteq> b \<Longrightarrow> same_data s (put_block b k s) x"
    using same_data_trans [OF set_page_other links_only_data [OF lo]] by simp
qed

text \<open>Replacing free blocks by other free blocks that cover the same frames keeps the invariant.\<close>

lemma buddy_inv_replace:
  assumes inv: "buddy_inv s A" and old: "X \<subseteq> free_blocks s" and ok: "lists_ok s'" and env: "same_env s s'"
    and F': "free_blocks s' = (free_blocks s - X) \<union> Y" and B': "blocks_ok (((free_blocks s \<union> A) - X) \<union> Y)"
    and cover: "\<Union> (blk ` Y) = \<Union> (blk ` X)"
    and data: "\<And>x. x \<notin> fst ` Y \<Longrightarrow> same_data s s' x" and new: "\<And>c. c \<in> Y \<Longrightarrow> free_page_ok s' c"
  shows "buddy_inv s' A"
proof -
  let ?F = "free_blocks s"
  have B: "blocks_ok (?F \<union> A)" and FA: "?F \<inter> A = {}" and stray: "no_stray_free s ?F A"
    and bnd: "bounds_ok s (?F \<union> A)"
    using inv by (simp_all add: buddy_inv_def)
  have keep: "fst c \<notin> fst ` Y" if c: "c \<in> (?F \<union> A) - X" for c
  proof
    assume "fst c \<in> fst ` Y"
    then obtain d where "d \<in> Y" "fst c = fst d" by auto
    then have "fst c \<in> \<Union> (blk ` X)" using cover blk_nonempty(1) [of d] by (metis UN_I)
    then obtain e where "e \<in> X" "fst c \<in> blk e" by blast
    then have "blk c \<inter> blk e \<noteq> {}" using blk_nonempty(1) [of c] by blast
    then have "c = e" using \<open>e \<in> X\<close> old c by (intro blocks_ok_eq [OF B]) auto
    with \<open>e \<in> X\<close> c show False by simp
  qed
  have YA: "c \<notin> A" if "c \<in> Y" for c
  proof
    assume "c \<in> A"
    then have "c \<in> (?F \<union> A) - X" using FA old by blast
    then show False using keep that by blast
  qed
  have un: "free_blocks s' \<union> A = ((?F \<union> A) - X) \<union> Y" using F' FA old by auto
  have ok_all: "free_page_ok s' c = free_page_ok s c" "used_page_ok s' c = used_page_ok s c"
    if "c \<in> (?F \<union> A) - X" for c
    using same_data_ok [OF data [OF keep [OF that]] env] .
  show ?thesis unfolding buddy_inv_def
  proof (intro conjI)
    show "lists_ok s'" "blocks_ok (free_blocks s' \<union> A)" using ok B' un by auto
    show "free_blocks s' \<inter> A = {}" using F' FA YA by auto
    show "\<forall>c \<in> free_blocks s'. free_page_ok s' c"
      using F' new ok_all inv by (auto simp: buddy_inv_def)
    show "\<forall>c \<in> A. used_page_ok s' c"
    proof
      fix c assume c: "c \<in> A"
      then have "c \<in> (?F \<union> A) - X" using FA old by blast
      then show "used_page_ok s' c" using c ok_all(2) inv unfolding buddy_inv_def by blast
    qed
    show "no_stray_free s' (free_blocks s') A" unfolding no_stray_free_def
    proof (intro allI impI)
      fix x assume x: "x < BUDDY_MAX_PAGES" "has_flag (page_array s' x) PAGE_FLAG_FREE"
      show "\<exists>c \<in> free_blocks s' \<union> A. x \<in> blk c \<and> (fst c = x \<longrightarrow> c \<in> free_blocks s')"
      proof (cases "x \<in> \<Union> (blk ` Y)")
        case True
        then show ?thesis using F' by blast
      next
        case False
        then have "x \<notin> fst ` Y" using blk_nonempty(1) by blast
        then have "has_flag (page_array s x) PAGE_FLAG_FREE" using x(2) same_data_flag [OF data] by simp
        with x(1) stray obtain c where c: "c \<in> ?F \<union> A" "x \<in> blk c" "fst c = x \<longrightarrow> c \<in> ?F"
          unfolding no_stray_free_def by blast
        have "c \<notin> X" using False c(2) cover by blast
        with c F' show ?thesis by (intro bexI [of _ c]) auto
      qed
    qed
    have "blk c \<subseteq> {..<total_phys_pages s}" if "c \<in> Y" for c
      using that cover bnd old unfolding bounds_ok_def by blast
    then show "bounds_ok s' (free_blocks s' \<union> A)"
      using bnd env unfolding un bounds_ok_def same_env_def by auto
  qed
qed

text \<open>Merging never clears the FREE flag of a descriptor.\<close>

definition keeps_free :: "pmm \<Rightarrow> pmm \<Rightarrow> bool" where
  "keeps_free s s' \<longleftrightarrow> (\<forall>x. has_flag (page_array s x) PAGE_FLAG_FREE \<longrightarrow> has_flag (page_array s' x) PAGE_FLAG_FREE)"

lemma merge_step:
  assumes inv: "buddy_inv s A" and p: "(p, k) \<in> free_blocks s" and k: "k < MAX_ORDER"
    and q: "q = p XOR 2 ^ k" and qf: "(q, k) \<in> free_blocks s"
  shows "\<exists>s1 s2. list_del k p s = Some s1 \<and> list_del k q s1 = Some s2 \<and>
    buddy_inv (put_block (min p q) (Suc k) s2) A \<and> same_env s (put_block (min p q) (Suc k) s2) \<and>
    free_blocks (put_block (min p q) (Suc k) s2) =
      insert (min p q, Suc k) (free_blocks s - {(p, k), (q, k)}) \<and>
    keeps_free s (put_block (min p q) (Suc k) s2)"
proof -
  define b where "b = min p q"
  let ?F = "free_blocks s"
  have B: "blocks_ok (?F \<union> A)" and ok: "lists_ok s" using inv by (simp_all add: buddy_inv_def)
  have BF: "blocks_ok ?F" using B by (rule blocks_ok_subset) simp
  have "2 ^ k dvd p" using blocks_ok_mem [OF BF p] by simp
  note bd = buddy_pfn [OF this, folded q, folded b_def]
  obtain s1 where s1: "list_del k p s = Some s1" "lists_ok s1" "free_blocks s1 = ?F - {(p, k)}" "links_only s s1"
    using list_del_blocks [OF ok BF p] by blast
  have "blocks_ok (free_blocks s1)" "(q, k) \<in> free_blocks s1"
    using blocks_ok_subset [OF BF] s1(3) qf bd(2) by auto
  then obtain s2 where s2: "list_del k q s1 = Some s2" "lists_ok s2"
      "free_blocks s2 = ?F - {(p, k)} - {(q, k)}" "links_only s1 s2"
    using list_del_blocks [OF s1(2)] s1(3) by metis
  have lo: "links_only s s2" using s1(4) s2(4) by (rule links_only_trans)
  have bpq: "b = p \<or> b = q" by (simp add: b_def min_def)
  then have bF: "(b, k) \<in> ?F" using p qf by auto
  have fresh: "(b, j) \<notin> free_blocks s2" for j
    using blocks_ok_fst [OF BF _ bF, of "(b, j)"] bpq s2(3) by auto
  have "Suc k \<le> MAX_ORDER" using k by simp
  note pb = put_block_props [OF s2(2) this fresh]
  let ?s3 = "put_block b (Suc k) s2"
  have env: "same_env s ?s3" using links_only_env [OF lo] pb(3) by (rule same_env_trans)
  have "buddy_inv ?s3 A"
  proof (rule buddy_inv_replace [OF inv _ pb(1) env, of "{(p, k), (q, k)}" "{(b, Suc k)}"])
    show "blocks_ok ((?F \<union> A - {(p, k), (q, k)}) \<union> {(b, Suc k)})"
      using blocks_ok_merge [OF B _ _ q k] p qf by (simp add: b_def)
    show "same_data s ?s3 x" if "x \<notin> fst ` {(b, Suc k)}" for x
      using that links_only_data [OF lo] pb(5) by (auto intro: same_data_trans)
  qed (use p qf pb(2,4) s2(3) bd(4) in auto)
  moreover have "keeps_free s ?s3" unfolding keeps_free_def
  proof (intro allI impI)
    fix x assume "has_flag (page_array s x) PAGE_FLAG_FREE"
    then show "has_flag (page_array ?s3 x) PAGE_FLAG_FREE"
      using pb(4) same_data_flag [OF same_data_trans [OF links_only_data [OF lo] pb(5)]]
      by (cases "x = b") (auto simp: free_page_ok_def)
  qed
  ultimately show ?thesis using s1(1) s2(1) env pb(2) s2(3) unfolding b_def by auto
qed

lemma finite_free_blocks: "buddy_inv s A \<Longrightarrow> finite (free_blocks s)"
proof -
  assume "buddy_inv s A"
  then have "free_blocks s \<subseteq> {..<BUDDY_MAX_PAGES} \<times> {..MAX_ORDER}"
    by (auto dest: buddy_inv_ok simp: blk_ok_def)
  then show ?thesis by (rule finite_subset) simp
qed

lemma xor_cancel: "(b :: nat) XOR m = c \<Longrightarrow> b = c XOR m"
  by (auto simp: xor.assoc)

lemma coalesced_exceptD:
  "coalesced_except (p, k) F \<Longrightarrow> (p XOR 2 ^ k, k) \<notin> F \<or> k \<ge> MAX_ORDER \<Longrightarrow> coalesced F"
  unfolding coalesced_def coalesced_except_def by (metis Pair_inject leD xor_cancel)

lemma coalesced_except_merge:
  "coalesced_except (p, k) F \<Longrightarrow> coalesced_except c (insert c (F - {(p, k), (q, k)}))"
  unfolding coalesced_except_def by blast

text \<open>What one call of \<open>buddy_merge\<close> on a free block guarantees.\<close>

definition merge_result :: "pmm \<Rightarrow> block set \<Rightarrow> nat \<Rightarrow> pmm \<Rightarrow> nat \<Rightarrow> bool" where
  "merge_result s A p s' r \<longleftrightarrow> buddy_inv s' A \<and> same_env s s' \<and> free_frames s' = free_frames s \<and>
     (\<exists>j. (r, j) \<in> free_blocks s') \<and> keeps_free s s' \<and>
     (s' = s \<and> r = p \<or> card (free_blocks s') < card (free_blocks s))"

lemma buddy_merge_ok:
  assumes "buddy_inv s A" "(p, k) \<in> free_blocks s"
  shows "\<exists>s' r. buddy_merge p s = Some (s', r) \<and> merge_result s A p s' r \<and>
    (coalesced_except (p, k) (free_blocks s) \<longrightarrow> coalesced (free_blocks s'))"
  using assms
proof (induction "MAX_ORDER - k" arbitrary: s p k rule: less_induct)
  case less
  note inv = less.prems(1) and p = less.prems(2)
  define q where "q = p XOR 2 ^ k"
  have ok: "free_page_ok s (p, k)" using inv p by (rule buddy_inv_ok)
  then have ord: "pg_order (page_array s p) = k" by (simp add: free_page_ok_def)
  show ?case
  proof (cases "k < MAX_ORDER \<and> (q, k) \<in> free_blocks s")
    case False
    have "buddy_merge p s = Some (s, p)"
      using False buddy_is_free [OF inv p q_def]
      by (subst buddy_merge.simps)
        (auto simp: ord get_buddy_def q_def [symmetric] Let_def split: if_splits)
    moreover have "merge_result s A p s p" using inv p by (auto simp: merge_result_def keeps_free_def)
    moreover have "coalesced (free_blocks s)" if "coalesced_except (p, k) (free_blocks s)"
      using False coalesced_exceptD [OF that] unfolding q_def by fastforce
    ultimately show ?thesis by blast
  next
    case True
    then have k: "k < MAX_ORDER" and qf: "(q, k) \<in> free_blocks s" by simp_all
    have qok: "free_page_ok s (q, k)" "q < BUDDY_MAX_PAGES"
      using buddy_inv_ok [OF inv qf] by (simp_all add: blk_ok_def)
    obtain s1 s2 where d: "list_del k p s = Some s1" "list_del k q s1 = Some s2"
      and inv3: "buddy_inv (put_block (min p q) (Suc k) s2) A"
      and env3: "same_env s (put_block (min p q) (Suc k) s2)"
      and F3: "free_blocks (put_block (min p q) (Suc k) s2) =
        insert (min p q, Suc k) (free_blocks s - {(p, k), (q, k)})"
      and kf: "keeps_free s (put_block (min p q) (Suc k) s2)"
      using merge_step [OF inv p k q_def qf] by blast
    let ?s3 = "put_block (min p q) (Suc k) s2"
    have step: "buddy_merge p s = buddy_merge (min p q) ?s3"
      using qok k d
      by (subst buddy_merge.simps)
        (simp add: ord get_buddy_def q_def [symmetric] Let_def free_page_ok_def put_block_def min_def)
    have "(min p q, Suc k) \<in> free_blocks ?s3" "MAX_ORDER - Suc k < MAX_ORDER - k"
      using k unfolding F3 by simp_all
    then obtain s' r where r: "buddy_merge (min p q) ?s3 = Some (s', r)"
        "merge_result ?s3 A (min p q) s' r"
        "coalesced_except (min p q, Suc k) (free_blocks ?s3) \<longrightarrow> coalesced (free_blocks s')"
      using less.hyps [OF _ inv3] by blast
    have "2 ^ k dvd p" using buddy_inv_ok(1) [OF inv p] by (simp add: blk_ok_def)
    note bd = buddy_pfn [OF this, folded q_def]
    have "blk (min p q, Suc k) = blk (p, k) \<union> blk (q, k)" by (rule bd(4))
    then have fr: "free_frames ?s3 = free_frames s"
      unfolding free_frames_def F3 using p qf by auto
    have "card (free_blocks ?s3) < card (free_blocks s)"
    proof -
      have fin: "finite (free_blocks s)" using inv by (rule finite_free_blocks)
      have two: "card {(p, k), (q, k)} = 2" using bd(2) by simp
      have "card (free_blocks s - {(p, k), (q, k)}) = card (free_blocks s) - 2"
        using p qf two by (subst card_Diff_subset) auto
      moreover have "2 \<le> card (free_blocks s)"
        using card_mono [OF fin, of "{(p, k), (q, k)}"] two p qf by simp
      ultimately show ?thesis
        unfolding F3 using fin by (auto simp: card_insert_if)
    qed
    then have "merge_result s A p s' r"
      using r(2) fr same_env_trans [OF env3] kf unfolding merge_result_def keeps_free_def by auto
    moreover have "coalesced_except (p, k) (free_blocks s) \<longrightarrow> coalesced (free_blocks s')"
      using r(3) coalesced_except_merge unfolding F3 by blast
    ultimately show ?thesis using step r(1) by auto
  qed
qed

end
