(* ===== verification/BuddyAlloc.thy ===== *)
theory BuddyAlloc
  imports BuddyInv
begin

text \<open>
  The public operations of the page allocator against the invariant of theory BuddyInv: splitting,
  \<open>alloc_pages\<close>, \<open>free_pages\<close> and the boot-time \<open>buddy_coalesce_all\<close>.
\<close>

text \<open>The static data before initialisation, and a small machine with one free frame.\<close>

definition boot_state :: pmm where
  "boot_state = \<lparr> page_array = (\<lambda>_. page_zero), total_phys_pages = 0, phys_mem_base = 0x100000, phys_mem_end = 0,
     free_area = (\<lambda>_. None), stat_total_pages = 0, stat_used_pages = 0, ram = (\<lambda>_. 0) \<rparr>"

definition one_frame :: pmm where
  "one_frame = mark_available_page 512 (boot_state\<lparr> total_phys_pages := 1024 \<rparr>)"

section \<open>Splitting\<close>

lemma blocks_ok_meet: "blocks_ok B \<Longrightarrow> c \<in> B \<Longrightarrow> d \<in> B \<Longrightarrow> x \<in> blk c \<Longrightarrow> x \<in> blk d \<Longrightarrow> c = d"
  by (rule blocks_ok_eq) auto

lemma blk_ok_le: "blk_ok (b, k) \<Longrightarrow> b + 2 ^ k \<le> BUDDY_MAX_PAGES"
proof -
  assume ok: "blk_ok (b, k)"
  then have "(2 :: nat) ^ k dvd 2 ^ 16"
    by (intro le_imp_power_dvd) (simp add: blk_ok_def MAX_ORDER_def)
  with ok show ?thesis
    by (intro pow2_mult_step) (simp_all add: blk_ok_def BUDDY_MAX_PAGES_def)
qed

lemma split_halves:
  assumes "2 ^ Suc j dvd (p :: nat)"
  defines "r \<equiv> p + 2 ^ j"
  shows "p XOR 2 ^ j = r" "2 ^ j dvd p" "2 ^ j dvd r" "blk (p, Suc j) = blk (p, j) \<union> blk (r, j)"
    "blk (p, j) \<inter> blk (r, j) = {}"
proof -
  show p: "2 ^ j dvd p" using assms(1) by (metis dvd_mult_right power_Suc)
  then show "p XOR 2 ^ j = r" using xor_pow2 [of j p] assms(1) by (simp add: r_def)
  show "2 ^ j dvd r" using p by (simp add: r_def)
  show "blk (p, Suc j) = blk (p, j) \<union> blk (r, j)" "blk (p, j) \<inter> blk (r, j) = {}"
    by (auto simp: blk_def r_def)
qed

lemma blocks_ok_split:
  assumes B: "blocks_ok B" and p: "(p, Suc j) \<in> B"
  shows "blocks_ok (insert (p + 2 ^ j, j) (insert (p, j) (B - {(p, Suc j)})))"
proof -
  note pk = blocks_ok_mem [OF B p]
  note h = split_halves [OF pk(2)]
  have le: "p + 2 ^ Suc j \<le> BUDDY_MAX_PAGES" using pk by (intro blk_ok_le) (simp add: blk_ok_def)
  then have ok: "blk_ok (p, j)" "blk_ok (p + 2 ^ j, j)"
    using pk h by (simp_all add: blk_ok_def less_le_trans [OF _ le])
  have dis: "blk (p, Suc j) \<inter> blk d = {}" if "d \<in> B - {(p, Suc j)}" for d
    using B p that unfolding blocks_ok_def by blast
  have one: "blocks_ok (insert (p, j) (B - {(p, Suc j)}))"
    using blocks_ok_subset [OF B] ok(1) dis unfolding h(4) by (intro blocks_ok_insert) blast+
  have "blk (p + 2 ^ j, j) \<inter> blk d = {}" if "d \<in> insert (p, j) (B - {(p, Suc j)})" for d
    using that dis h(5) unfolding h(4) by blast
  then show ?thesis by (rule blocks_ok_insert [OF one ok(2)])
qed

lemma put_block_twice:
  "p \<noteq> r \<Longrightarrow> put_block r k (put_block p k s) =
   list_add k r (list_add k p
     (set_page r (free_block_page (set_page p (free_block_page s p k) s) r k)
       (set_page p (free_block_page s p k) s)))"
  by (simp add: put_block_def list_add_def set_page_def set_head_def free_block_page_def pfn_to_phys_def
      fun_upd_twist)

lemma free_area_put_block: "free_area (put_block b k s) k = Some b"
  by (simp add: put_block_def list_add_def)

lemma coalesced_except_split:
  assumes "coalesced_except (p, Suc j) F" "2 ^ Suc j dvd p"
  shows "coalesced_except (p + 2 ^ j, j) (insert (p + 2 ^ j, j) (insert (p, j) (F - {(p, Suc j)})))"
  using assms split_halves(1) [OF assms(2)] unfolding coalesced_except_def
  by (metis Diff_iff insertE insert_iff prod.inject xor_cancel)

lemma head_free_block:
  "buddy_inv s A \<Longrightarrow> k \<le> MAX_ORDER \<Longrightarrow> free_area s k = Some p \<Longrightarrow> (p, k) \<in> free_blocks s"
proof -
  assume a: "buddy_inv s A" "k \<le> MAX_ORDER" "free_area s k = Some p"
  then obtain xs where xs: "linked (nxt s) (free_area s k) xs"
    by (auto simp: buddy_inv_def lists_ok_def)
  with a show ?thesis using free_blocks_iff [OF a(2) xs] by (cases xs) auto
qed

lemma buddy_split_ok:
  assumes inv: "buddy_inv s A" and k: "Suc j \<le> MAX_ORDER" and head: "free_area s (Suc j) = Some p"
  shows "\<exists>s'. buddy_split (Suc j) s = Some (s', Some p) \<and> buddy_inv s' A \<and> same_env s s' \<and>
    free_area s' j = Some (p + 2 ^ j) \<and> (p, Suc j) \<in> free_blocks s \<and>
    free_blocks s' = insert (p + 2 ^ j, j) (insert (p, j) (free_blocks s - {(p, Suc j)}))"
proof -
  let ?F = "free_blocks s"
  define r where "r = p + 2 ^ j"
  have B: "blocks_ok (?F \<union> A)" and ok: "lists_ok s" using inv by (simp_all add: buddy_inv_def)
  have BF: "blocks_ok ?F" using B by (rule blocks_ok_subset) simp
  have p: "(p, Suc j) \<in> ?F" using inv k head by (rule head_free_block)
  note h = split_halves [OF blocks_ok_mem(2) [OF BF p], folded r_def]
  have rlt: "r < BUDDY_MAX_PAGES"
    using blk_ok_le [OF buddy_inv_ok(1) [OF inv p]] zero_less_power [of "2 :: nat" j]
    unfolding r_def power_Suc by linarith
  obtain s1 where s1: "list_del (Suc j) p s = Some s1" "lists_ok s1" "free_blocks s1 = ?F - {(p, Suc j)}"
      "links_only s s1"
    using list_del_blocks [OF ok BF p] by blast
  have pr: "p \<noteq> r" by (simp add: r_def)
  have "r \<in> blk (p, Suc j)" unfolding h(4) by (auto simp: blk_def)
  then have rfresh: "(r, i) \<notin> ?F" for i
    using blocks_ok_meet [OF BF _ p, of "(r, i)" r] pr by (auto simp: blk_def)
  have j: "j \<le> MAX_ORDER" using k by simp
  have fresh1: "(p, i) \<notin> free_blocks s1" for i
    using blocks_ok_fst [OF BF _ p, of "(p, i)"] s1(3) by auto
  note p1 = put_block_props [OF s1(2) j fresh1]
  have fresh2: "(r, i) \<notin> free_blocks (put_block p j s1)" for i
    using p1(2) s1(3) rfresh pr by auto
  note p2 = put_block_props [OF p1(1) j fresh2]
  let ?s = "put_block r j (put_block p j s1)"
  have split: "buddy_split (Suc j) s = Some (?s, Some p)"
    unfolding put_block_twice [OF pr]
    using k head s1(1) rlt by (simp add: buddy_split_def Let_def r_def)
  have env: "same_env s ?s"
    using links_only_env [OF s1(4)] p1(3) p2(3) by (metis same_env_trans)
  have pok: "free_page_ok ?s (p, j)"
    using p1(4) same_data_ok(1) [OF _ p2(3), of "(p, j)"] p2(5) [OF pr] by simp
  have "buddy_inv ?s A"
  proof (rule buddy_inv_replace [OF inv _ p2(1) env, of "{(p, Suc j)}" "{(r, j), (p, j)}"])
    show "blocks_ok ((?F \<union> A - {(p, Suc j)}) \<union> {(r, j), (p, j)})"
      using blocks_ok_split [OF B, of p j] p by (simp add: r_def)
    show "same_data s ?s x" if "x \<notin> fst ` {(r, j), (p, j)}" for x
      using that same_data_trans [OF same_data_trans [OF links_only_data [OF s1(4)] p1(5)] p2(5)] by simp
  qed (use p p1(2) p2(2,4) pok s1(3) h(4) in auto)
  with split env p p1(2) p2(2) s1(3) show ?thesis
    unfolding r_def using free_area_put_block [of "p + 2 ^ j" j "put_block p j s1"] by blast
qed

lemma empty_no_block: "k \<le> MAX_ORDER \<Longrightarrow> free_area s k = None \<Longrightarrow> (b, k) \<notin> free_blocks s"
  by (simp add: free_blocks_def)

lemma split_down_ok:
  assumes "buddy_inv s A" "ord + n \<le> MAX_ORDER" "free_area s (ord + n) = Some p"
  shows "\<exists>s' b. split_down ord n s = Some s' \<and> buddy_inv s' A \<and> same_env s s' \<and>
    free_area s' ord = Some b \<and> free_frames s' = free_frames s \<and>
    (coalesced_except (p, ord + n) (free_blocks s) \<longrightarrow> coalesced_except (b, ord) (free_blocks s'))"
  using assms
proof (induction n arbitrary: s p)
  case 0
  then show ?case by auto
next
  case (Suc n)
  from Suc.prems obtain s1 where s1: "buddy_split (Suc (ord + n)) s = Some (s1, Some p)" "buddy_inv s1 A"
      "same_env s s1" "free_area s1 (ord + n) = Some (p + 2 ^ (ord + n))"
      "(p, Suc (ord + n)) \<in> free_blocks s"
      "free_blocks s1 = insert (p + 2 ^ (ord + n), ord + n) (insert (p, ord + n) (free_blocks s - {(p, Suc (ord + n))}))"
    using buddy_split_ok [of s A "ord + n" p] by auto
  have al: "2 ^ Suc (ord + n) dvd p" using buddy_inv_ok(1) [OF Suc.prems(1) s1(5)] by (simp add: blk_ok_def)
  have ce: "coalesced_except (p, Suc (ord + n)) (free_blocks s) \<longrightarrow>
      coalesced_except (p + 2 ^ (ord + n), ord + n) (free_blocks s1)"
    unfolding s1(6) using coalesced_except_split [OF _ al] by blast
  have fr: "free_frames s1 = free_frames s"
    unfolding free_frames_def s1(6) using s1(5) split_halves(4) [OF al] by auto
  obtain s' b where "split_down ord n s1 = Some s'" "buddy_inv s' A" "same_env s1 s'"
      "free_area s' ord = Some b" "free_frames s' = free_frames s1"
      "coalesced_except (p + 2 ^ (ord + n), ord + n) (free_blocks s1) \<longrightarrow> coalesced_except (b, ord) (free_blocks s')"
    using Suc.IH [OF s1(2) _ s1(4)] Suc.prems(2) by auto
  with s1 ce fr same_env_trans [OF s1(3)] show ?case by auto
qed

lemma find_order_props:
  "ord \<le> find_order s ord" "find_order s ord \<le> MAX_ORDER \<Longrightarrow> free_area s (find_order s ord) \<noteq> None"
  "ord \<le> j \<Longrightarrow> j < find_order s ord \<Longrightarrow> j \<le> MAX_ORDER \<Longrightarrow> free_area s j = None"
proof (induction s ord rule: find_order.induct)
  case (1 s ord)
  let ?c = "ord \<le> MAX_ORDER \<and> free_area s ord = None"
  have step: "find_order s ord = (if ?c then find_order s (ord + 1) else ord)" by (rule find_order.simps)
  { case 1 then show ?case using "1.IH"(1) step by (cases ?c) auto }
  { case 2 then show ?case using "1.IH"(2) step by (cases ?c) auto }
  { case 3 then show ?case using "1.IH"(3) step by (cases ?c; cases "ord = j") auto }
qed

section \<open>Handing out and taking back a block\<close>

lemma base_data_ok:
  assumes "same_data s s' (fst c)" "phys_mem_base s' = phys_mem_base s"
  shows "free_page_ok s' c = free_page_ok s c" "used_page_ok s' c = used_page_ok s c"
  using assms by (simp_all add: free_page_ok_def used_page_ok_def same_data_flag pfn_to_phys_def)
    (simp_all add: same_data_def)

lemma take_block:
  assumes inv: "buddy_inv s A" and p: "(p, k) \<in> free_blocks s" and ok: "lists_ok s'"
    and F': "free_blocks s' = free_blocks s - {(p, k)}"
    and env: "phys_mem_base s' = phys_mem_base s" "total_phys_pages s' = total_phys_pages s"
    and data: "\<And>x. x \<noteq> p \<Longrightarrow> same_data s s' x" and used: "used_page_ok s' (p, k)"
  shows "buddy_inv s' (insert (p, k) A)"
proof -
  let ?F = "free_blocks s"
  have B: "blocks_ok (?F \<union> A)" and FA: "?F \<inter> A = {}" and stray: "no_stray_free s ?F A"
    using inv by (simp_all add: buddy_inv_def)
  have un: "free_blocks s' \<union> insert (p, k) A = ?F \<union> A" using F' p by auto
  have keep: "fst c \<noteq> p" if "c \<in> ?F \<union> A" "c \<noteq> (p, k)" for c
    using blocks_ok_fst [OF B, of c "(p, k)"] p that by auto
  have same: "free_page_ok s' c = free_page_ok s c" "used_page_ok s' c = used_page_ok s c"
    if "c \<in> ?F \<union> A" "c \<noteq> (p, k)" for c
    using base_data_ok [OF data [OF keep [OF that]] env(1)] .
  have "no_stray_free s' (free_blocks s') (insert (p, k) A)" unfolding no_stray_free_def un
  proof (intro allI impI)
    fix x assume x: "x < BUDDY_MAX_PAGES" "has_flag (page_array s' x) PAGE_FLAG_FREE"
    then have "x \<noteq> p" using used by (auto simp: used_page_ok_def)
    then have "has_flag (page_array s x) PAGE_FLAG_FREE" using x(2) same_data_flag [OF data] by simp
    then show "\<exists>c \<in> ?F \<union> A. x \<in> blk c \<and> (fst c = x \<longrightarrow> c \<in> free_blocks s')"
      using x(1) stray \<open>x \<noteq> p\<close> unfolding no_stray_free_def F' by fastforce
  qed
  moreover have "\<forall>c \<in> free_blocks s'. free_page_ok s' c" "\<forall>c \<in> insert (p, k) A. used_page_ok s' c"
    using same used inv FA p F' unfolding buddy_inv_def by (metis Diff_iff UnI1 singletonI, metis UnI2 insert_iff)
  ultimately show ?thesis
    using inv ok env F' FA unfolding buddy_inv_def bounds_ok_def un by auto
qed

lemma give_block:
  assumes inv: "buddy_inv s A" and p: "(p, k) \<in> A" and ok: "lists_ok s'"
    and F': "free_blocks s' = insert (p, k) (free_blocks s)"
    and env: "phys_mem_base s' = phys_mem_base s" "total_phys_pages s' = total_phys_pages s"
    and data: "\<And>x. x \<noteq> p \<Longrightarrow> same_data s s' x" and free: "free_page_ok s' (p, k)"
  shows "buddy_inv s' (A - {(p, k)})"
proof -
  let ?F = "free_blocks s"
  have B: "blocks_ok (?F \<union> A)" and FA: "?F \<inter> A = {}" and stray: "no_stray_free s ?F A"
    using inv by (simp_all add: buddy_inv_def)
  have un: "free_blocks s' \<union> (A - {(p, k)}) = ?F \<union> A" using F' p by auto
  have keep: "fst c \<noteq> p" if "c \<in> ?F \<union> A" "c \<noteq> (p, k)" for c
    using blocks_ok_fst [OF B, of c "(p, k)"] p that by auto
  have same: "free_page_ok s' c = free_page_ok s c" "used_page_ok s' c = used_page_ok s c"
    if "c \<in> ?F \<union> A" "c \<noteq> (p, k)" for c
    using base_data_ok [OF data [OF keep [OF that]] env(1)] .
  have "no_stray_free s' (free_blocks s') (A - {(p, k)})" unfolding no_stray_free_def un
  proof (intro allI impI)
    fix x assume x: "x < BUDDY_MAX_PAGES" "has_flag (page_array s' x) PAGE_FLAG_FREE"
    show "\<exists>c \<in> ?F \<union> A. x \<in> blk c \<and> (fst c = x \<longrightarrow> c \<in> free_blocks s')"
    proof (cases "x = p")
      case True
      then show ?thesis using p F' by (intro bexI [of _ "(p, k)"]) (auto simp: blk_def)
    next
      case False
      then have "has_flag (page_array s x) PAGE_FLAG_FREE" using x(2) same_data_flag [OF data] by simp
      then show ?thesis using x(1) stray unfolding no_stray_free_def F' by blast
    qed
  qed
  moreover have "\<forall>c \<in> free_blocks s'. free_page_ok s' c" "\<forall>c \<in> A - {(p, k)}. used_page_ok s' c"
    using same free inv FA p F' unfolding buddy_inv_def by (metis UnI1 insert_iff, metis DiffE UnI2 singletonI)
  ultimately show ?thesis
    using inv ok env F' FA unfolding buddy_inv_def bounds_ok_def un by auto
qed

abbreviation resv :: "pmm \<Rightarrow> nat \<Rightarrow> bool" where
  "resv s x \<equiv> has_flag (page_array s x) PAGE_FLAG_RESERVED"

text \<open>A state before any frame has been released: no free lists, no FREE flags, \<open>R\<close> reserved.\<close>

definition blank :: "pmm \<Rightarrow> nat set \<Rightarrow> bool" where
  "blank s R \<longleftrightarrow> free_area s = (\<lambda>_. None) \<and> (\<forall>x. \<not> has_flag (page_array s x) PAGE_FLAG_FREE) \<and>
     (\<forall>x. resv s x \<longleftrightarrow> x \<in> R) \<and> phys_mem_base s = 0x100000 \<and> total_phys_pages s \<le> BUDDY_MAX_PAGES"

lemma blank_inv: "blank s R \<Longrightarrow> buddy_inv s {} \<and> free_frames s = {}"
proof -
  assume b: "blank s R"
  then have "free_blocks s = {}" by (simp add: free_blocks_def blank_def)
  with b show ?thesis
    by (auto simp: buddy_inv_def blank_def lists_ok_def blocks_ok_def no_stray_free_def bounds_ok_def free_frames_def)
qed

section \<open>Releasing a single frame\<close>

lemma set_page_fresh:
  assumes ok: "lists_ok s" and fresh: "\<And>j. (p, j) \<notin> free_blocks s"
  shows "lists_ok (set_page p f s)" "free_blocks (set_page p f s) = free_blocks s"
proof -
  have same: "linked (nxt (set_page p f s)) (free_area s k) xs = linked (nxt s) (free_area s k) xs"
    if k: "k \<le> MAX_ORDER" for k xs
  proof -
    obtain ys where ys: "linked (nxt s) (free_area s k) ys" using ok k by (auto simp: lists_ok_def)
    then have "p \<notin> set ys" using fresh [of k] k by (simp add: free_blocks_iff)
    then have "linked (nxt (set_page p f s)) (free_area s k) ys = linked (nxt s) (free_area s k) ys"
      by (intro linked_cong) (auto simp: set_page_def)
    with ys show ?thesis by (metis linked_unique)
  qed
  show "lists_ok (set_page p f s)" using ok same by (auto simp: lists_ok_def)
  show "free_blocks (set_page p f s) = free_blocks s"
    using same unfolding free_blocks_def by auto
qed

definition avail_page :: "pmm \<Rightarrow> nat \<Rightarrow> page" where
  "avail_page s pfn = \<lparr> pg_flags = PAGE_FLAG_FREE, pg_order = 0, pg_ref_count = 0,
     pg_phys_addr = pfn_to_phys s pfn, pg_buddy = None, pg_next = None, pg_slab_cache = None \<rparr>"

lemma blk_0 [simp]: "blk (b, 0) = {b}"
  by (auto simp: blk_def)

lemma stat_total_blocks [simp]:
  "free_blocks (stat_total_pages_update f s) = free_blocks s" "lists_ok (stat_total_pages_update f s) = lists_ok s"
  by (simp_all add: free_blocks_def lists_ok_def)

text \<open>One more free frame, as a block of order 0.\<close>

lemma mark_available_page_ok:
  assumes inv: "buddy_inv s A" and p: "p < total_phys_pages s" "p \<notin> \<Union> (blk ` (free_blocks s \<union> A))"
    and r: "\<not> resv s p"
  defines "s' \<equiv> mark_available_page p s"
  shows "buddy_inv s' A" "free_blocks s' = insert (p, 0) (free_blocks s)" "resv s' x = resv s x"
    "total_phys_pages s' = total_phys_pages s" "phys_mem_base s' = phys_mem_base s" "phys_mem_end s' = phys_mem_end s"
proof -
  let ?t = "set_page p (\<lambda>_. avail_page s p) s" and ?F = "free_blocks s"
  have B: "blocks_ok (?F \<union> A)" and FA: "?F \<inter> A = {}" and ok: "lists_ok s" and stray: "no_stray_free s ?F A"
    and bnd: "bounds_ok s (?F \<union> A)" using inv by (simp_all add: buddy_inv_def)
  have pc: "p \<notin> blk c" if "c \<in> ?F \<union> A" for c using p(2) that by blast
  have fresh: "(p, j) \<notin> ?F \<union> A" for j using pc [of "(p, j)"] by (auto simp: blk_def)
  have t: "lists_ok ?t" "free_blocks ?t = ?F" using set_page_fresh [OF ok, of p] fresh by auto
  note la = list_add_blocks [OF t(1), of 0 p]
  have s': "s' = stat_total_pages_update (\<lambda>n. n + 1) (list_add 0 p ?t)"
    using r by (simp add: s'_def mark_available_page_def avail_page_def)
  have lo: "links_only ?t (list_add 0 p ?t)" using la(3) t(2) fresh by auto
  show F': "free_blocks s' = insert (p, 0) ?F"
    using la(2) t(2) fresh by (simp add: s')
  have env: "total_phys_pages s' = total_phys_pages s" "phys_mem_base s' = phys_mem_base s" "phys_mem_end s' = phys_mem_end s"
    using lo by (simp_all add: s' links_only_def same_env_def set_page_def)
  then show "total_phys_pages s' = total_phys_pages s" "phys_mem_base s' = phys_mem_base s" "phys_mem_end s' = phys_mem_end s" .
  have data: "same_data s s' x" if "x \<noteq> p" for x
    using that links_only_data [OF lo, of x] by (simp add: same_data_def s' set_page_def)
  have new: "free_page_ok s' (p, 0)"
    using links_only_data [OF lo, of p] env(2)
    by (simp add: free_page_ok_def same_data_def s' set_page_def avail_page_def has_flag_bit flag_bits pfn_to_phys_def)
  show "resv s' x = resv s x"
    using new r same_data_flag [OF data, of x] by (cases "x = p") (auto simp: free_page_ok_def)
  have keep: "fst c \<noteq> p" if "c \<in> ?F \<union> A" for c using pc [OF that] by auto
  have same: "free_page_ok s' c = free_page_ok s c" "used_page_ok s' c = used_page_ok s c" if "c \<in> ?F \<union> A" for c
    using base_data_ok [OF data [OF keep [OF that]] env(2)] .
  have "no_stray_free s' (insert (p, 0) ?F) A" unfolding no_stray_free_def
  proof (intro allI impI)
    fix x assume x: "x < BUDDY_MAX_PAGES" "has_flag (page_array s' x) PAGE_FLAG_FREE"
    show "\<exists>c \<in> insert (p, 0) ?F \<union> A. x \<in> blk c \<and> (fst c = x \<longrightarrow> c \<in> insert (p, 0) ?F)"
    proof (cases "x = p")
      case False
      then have "has_flag (page_array s x) PAGE_FLAG_FREE" using x(2) same_data_flag [OF data] by simp
      then show ?thesis using x(1) stray unfolding no_stray_free_def by blast
    qed simp
  qed
  moreover have "blocks_ok (insert (p, 0) ?F \<union> A)"
  proof -
    have "blk_ok (p, 0)" using p(1) bnd by (simp add: blk_ok_def bounds_ok_def)
    then have "blocks_ok (insert (p, 0) (?F \<union> A))" using B pc by (intro blocks_ok_insert) auto
    then show ?thesis by simp
  qed
  moreover have "lists_ok s'" using la(1) t(2) fresh by (simp add: s')
  moreover have "\<forall>c \<in> insert (p, 0) ?F. free_page_ok s' c" "\<forall>c \<in> A. used_page_ok s' c"
    using new same inv by (auto simp: buddy_inv_def)
  ultimately show "buddy_inv s' A"
    using env FA fresh bnd p(1) unfolding buddy_inv_def F' bounds_ok_def by auto
qed

lemma free_frames_take:
  assumes "buddy_inv s A" "c \<in> free_blocks s" "free_blocks s' = free_blocks s - {c}"
  shows "free_frames s' = free_frames s - blk c" "blk c \<subseteq> free_frames s"
proof -
  have B: "blocks_ok (free_blocks s)"
    using assms(1) by (auto simp: buddy_inv_def intro: blocks_ok_subset)
  show "free_frames s' = free_frames s - blk c"
    using blocks_ok_meet [OF B assms(2)] unfolding free_frames_def assms(3) by fastforce
  show "blk c \<subseteq> free_frames s" using assms(2) by (auto simp: free_frames_def)
qed

lemma used_disjoint_free: "buddy_inv s A \<Longrightarrow> c \<in> A \<Longrightarrow> blk c \<inter> free_frames s = {}"
proof -
  assume a: "buddy_inv s A" "c \<in> A"
  have B: "blocks_ok (free_blocks s \<union> A)" and FA: "free_blocks s \<inter> A = {}"
    using a(1) by (simp_all add: buddy_inv_def)
  show ?thesis using blocks_ok_meet [OF B, of c] a(2) FA by (fastforce simp: free_frames_def)
qed

lemma pfn_to_phys_bound: "b < BUDDY_MAX_PAGES \<Longrightarrow> phys_mem_base s = 0x100000 \<Longrightarrow> pfn_to_phys s b < KERNEL_PHYS_MAX"
  by (simp add: pfn_to_phys_def BUDDY_MAX_PAGES_def KERNEL_PHYS_MAX_def PAGE_SIZE_def)

lemma phys_to_pfn_inv [simp]: "phys_to_pfn s (pfn_to_phys s b) = Some b"
  by (simp add: phys_to_pfn_def pfn_to_phys_def PAGE_SIZE_def)

definition mark_used :: "nat \<Rightarrow> page \<Rightarrow> page" where
  "mark_used ord pg = pg\<lparr> pg_flags := pg_flags pg AND NOT PAGE_FLAG_FREE, pg_order := ord, pg_ref_count := 1 \<rparr>"

definition mark_free :: "nat \<Rightarrow> page \<Rightarrow> page" where
  "mark_free ord pg = pg\<lparr> pg_flags := pg_flags pg OR PAGE_FLAG_FREE, pg_order := ord, pg_ref_count := 0 \<rparr>"

lemma mark_next [simp]: "pg_next (mark_used k pg) = pg_next pg" "pg_next (mark_free k pg) = pg_next pg"
  by (simp_all add: mark_used_def mark_free_def)

lemma mark_used_ok: "free_page_ok s (p, k) \<Longrightarrow> used_page_ok (set_page p (mark_used k) s) (p, k)"
  by (simp add: free_page_ok_def used_page_ok_def set_page_def mark_used_def has_flag_bit flag_bits pfn_to_phys_def)

lemma mark_free_ok: "used_page_ok s (p, k) \<Longrightarrow> free_page_ok (set_page p (mark_free k) s) (p, k)"
  by (simp add: free_page_ok_def used_page_ok_def set_page_def mark_free_def has_flag_bit flag_bits pfn_to_phys_def)

text \<open>States that differ only in the usage counter and in memory have the same blocks.\<close>

lemma stat_ram_blocks [simp]:
  "free_blocks (stat_used_pages_update f s) = free_blocks s" "lists_ok (stat_used_pages_update f s) = lists_ok s"
  "free_blocks (ram_update g s) = free_blocks s" "lists_ok (ram_update g s) = lists_ok s"
  by (simp_all add: free_blocks_def lists_ok_def)

lemma alloc_pages_head:
  assumes inv: "buddy_inv s A" and ord: "ord \<le> MAX_ORDER" and found: "find_order s ord \<le> MAX_ORDER"
  shows "\<exists>s1 b s2. split_down ord (find_order s ord - ord) s = Some s1 \<and> buddy_inv s1 A \<and> same_env s s1 \<and>
    free_area s1 ord = Some b \<and> (b, ord) \<in> free_blocks s1 \<and> free_frames s1 = free_frames s \<and>
    (coalesced (free_blocks s) \<longrightarrow> coalesced (free_blocks s1 - {(b, ord)})) \<and>
    list_del ord b s1 = Some s2 \<and> lists_ok s2 \<and> free_blocks s2 = free_blocks s1 - {(b, ord)} \<and> links_only s1 s2"
proof -
  note fo = find_order_props(1) [of ord s] find_order_props(2) [of s ord]
  obtain p where p: "free_area s (ord + (find_order s ord - ord)) = Some p" using fo found by auto
  have "ord + (find_order s ord - ord) \<le> MAX_ORDER" using fo(1) found by simp
  from split_down_ok [OF inv this p] obtain s1 b where s1: "split_down ord (find_order s ord - ord) s = Some s1"
      "buddy_inv s1 A" "same_env s s1" "free_area s1 ord = Some b" "free_frames s1 = free_frames s"
      "coalesced_except (p, ord + (find_order s ord - ord)) (free_blocks s) \<longrightarrow>
        coalesced_except (b, ord) (free_blocks s1)"
    by blast
  have b: "(b, ord) \<in> free_blocks s1" using s1(2) ord s1(4) by (rule head_free_block)
  have "coalesced (free_blocks s1 - {(b, ord)})" if "coalesced (free_blocks s)"
  proof -
    have "coalesced_except (b, ord) (free_blocks s1)"
      using s1(6) that unfolding coalesced_def coalesced_except_def by blast
    then show ?thesis unfolding coalesced_def coalesced_except_def by blast
  qed
  moreover have "\<exists>s2. list_del ord b s1 = Some s2 \<and> lists_ok s2 \<and> free_blocks s2 = free_blocks s1 - {(b, ord)} \<and>
      links_only s1 s2"
    using s1(2) b by (intro list_del_blocks) (auto simp: buddy_inv_def intro: blocks_ok_subset)
  ultimately show ?thesis using s1 b by metis
qed

text \<open>What \<open>alloc_pages\<close> promises when it succeeds with the block at frame \<open>b\<close>.\<close>

definition alloc_success :: "pmm \<Rightarrow> block set \<Rightarrow> nat \<Rightarrow> pmm \<Rightarrow> nat \<Rightarrow> bool" where
  "alloc_success s A ord s' b \<longleftrightarrow>
     buddy_inv s' (insert (b, ord) A) \<and> (\<forall>c \<in> A. blk c \<inter> blk (b, ord) = {}) \<and>
     blk (b, ord) \<subseteq> free_frames s \<and> free_frames s' = free_frames s - blk (b, ord) \<and>
     stat_used_pages s' = stat_used_pages s + 2 ^ ord \<and>
     ram s' = (\<lambda>x. if pfn_to_phys s b \<le> x \<and> x < pfn_to_phys s b + PAGE_SIZE * 2 ^ ord then 0 else ram s x) \<and>
     (coalesced (free_blocks s) \<longrightarrow> coalesced (free_blocks s'))"

lemma alloc_pages_success:
  assumes inv: "buddy_inv s A" and ord: "ord \<le> MAX_ORDER" and found: "find_order s ord \<le> MAX_ORDER"
  shows "\<exists>b s'. alloc_pages ord s = Some (s', Some (pfn_to_phys s b)) \<and> alloc_success s A ord s' b"
proof -
  obtain s1 b s2 where s1: "split_down ord (find_order s ord - ord) s = Some s1" "buddy_inv s1 A"
      "same_env s s1" "free_area s1 ord = Some b" "(b, ord) \<in> free_blocks s1" "free_frames s1 = free_frames s"
      "coalesced (free_blocks s) \<longrightarrow> coalesced (free_blocks s1 - {(b, ord)})"
    and s2: "list_del ord b s1 = Some s2" "lists_ok s2" "free_blocks s2 = free_blocks s1 - {(b, ord)}"
      "links_only s1 s2"
    using alloc_pages_head [OF assms] by metis
  define pa where "pa = pfn_to_phys s b"
  define s4 where "s4 = stat_used_pages_update (\<lambda>u. u + 2 ^ ord) (set_page b (mark_used ord) s2)"
  define s' where "s' = ram_update (\<lambda>m. fst (memset m pa 0 (PAGE_SIZE * 2 ^ ord))) s4"
  have base: "phys_mem_base s1 = phys_mem_base s" "phys_mem_base s = 0x100000"
    using s1(2,3) by (simp_all add: same_env_def buddy_inv_def bounds_ok_def)
  have bok: "free_page_ok s1 (b, ord)" "b < BUDDY_MAX_PAGES"
    using buddy_inv_ok [OF s1(2,5)] by (simp_all add: blk_ok_def)
  have pa1: "pfn_to_phys s1 b = pa" by (simp add: pa_def pfn_to_phys_def base(1))
  have bok2: "free_page_ok s2 (b, ord)"
    using bok(1) same_data_ok(1) [OF links_only_data links_only_env, OF s2(4) s2(4)] by simp
  then have "pg_phys_addr (page_array s4 b) = pa"
    using s2(4) pa1
    by (simp add: s4_def set_page_def mark_used_def free_page_ok_def pfn_to_phys_def links_only_def same_env_def)
  moreover have "pa < KERNEL_PHYS_MAX" using pfn_to_phys_bound [OF bok(2) base(2)] by (simp add: pa_def)
  ultimately have alloc: "alloc_pages ord s = Some (s', Some pa)"
    using ord found s1(1,4) s2(1)
    by (simp add: alloc_pages_def Let_def s4_def [unfolded mark_used_def] s'_def mark_used_def [abs_def])
  have F': "free_blocks s' = free_blocks s1 - {(b, ord)}" "lists_ok s'"
    using s2(2,3) by (simp_all add: s'_def s4_def set_page_blocks)
  have inv': "buddy_inv s' (insert (b, ord) A)"
  proof (rule take_block [OF s1(2,5) F'(2,1)])
    show "phys_mem_base s' = phys_mem_base s1" "total_phys_pages s' = total_phys_pages s1"
      using s2(4) by (simp_all add: s'_def s4_def set_page_def links_only_def same_env_def)
    show "same_data s1 s' x" if "x \<noteq> b" for x
      using that links_only_data [OF s2(4), of x] by (simp add: same_data_def s'_def s4_def set_page_def)
    show "used_page_ok s' (b, ord)"
      using mark_used_ok [OF bok2] by (simp add: used_page_ok_def s'_def s4_def pfn_to_phys_def)
  qed
  have fr: "free_frames s' = free_frames s - blk (b, ord)" "blk (b, ord) \<subseteq> free_frames s"
    using free_frames_take [OF s1(2,5) F'(1)] s1(6) by simp_all
  have "blk c \<inter> blk (b, ord) = {}" if "c \<in> A" for c
    using used_disjoint_free [OF s1(2) that] fr(2) s1(6) by auto
  moreover have "stat_used_pages s' = stat_used_pages s + 2 ^ ord" "ram s' = fst (memset (ram s) pa 0 (PAGE_SIZE * 2 ^ ord))"
    using s1(3) s2(4) by (simp_all add: s'_def s4_def set_page_def links_only_def same_env_def)
  ultimately have "alloc_success s A ord s' b"
    using inv' fr s1(7) F'(1) by (simp add: alloc_success_def memset_eq pa_def cong: if_cong)
  then show ?thesis using alloc by (auto simp: pa_def)
qed

lemma alloc_pages_total:
  assumes "buddy_inv s A" "ord \<le> MAX_ORDER"
  shows "(\<exists>b s'. alloc_pages ord s = Some (s', Some (pfn_to_phys s b)) \<and> alloc_success s A ord s' b \<and>
      blk_ok (b, ord)) \<or>
    (alloc_pages ord s = Some (s, None) \<and> (\<forall>c \<in> free_blocks s. snd c < ord))"
proof (cases "find_order s ord \<le> MAX_ORDER")
  case True
  from alloc_pages_success [OF assms True] obtain b s' where
    "alloc_pages ord s = Some (s', Some (pfn_to_phys s b))" "alloc_success s A ord s' b" by blast
  moreover have "blk_ok (b, ord)"
    using \<open>alloc_success s A ord s' b\<close> by (auto simp: alloc_success_def buddy_inv_def blocks_ok_def)
  ultimately show ?thesis by blast
next
  case False
  then have "alloc_pages ord s = Some (s, None)" using assms(2) by (simp add: alloc_pages_def)
  moreover have "snd c < ord" if "c \<in> free_blocks s" for c
  proof (rule ccontr)
    assume "\<not> snd c < ord"
    moreover have "snd c \<le> MAX_ORDER" using that by (cases c) (simp add: free_blocks_le)
    ultimately have "free_area s (snd c) = None" using False find_order_props(3) [of ord "snd c" s] by simp
    then show False using that \<open>snd c \<le> MAX_ORDER\<close> empty_no_block [of "snd c" s "fst c"] by simp
  qed
  ultimately show ?thesis by blast
qed

text \<open>C1: \<open>alloc_pages\<close> always returns. It fails only when no free block of sufficient order
  exists, and then changes nothing. When it succeeds, the block was free, is aligned and within the
  managed frames, overlaps no block still in use, is cleared, is no longer free, and the allocator's
  invariant holds with the block in use; full coalescing is kept.\<close>

theorem alloc_pages_correct:
  assumes "buddy_inv s A" "ord \<le> MAX_ORDER"
  shows "(\<exists>b s'. alloc_pages ord s = Some (s', Some (pfn_to_phys s b)) \<and> alloc_success s A ord s' b \<and>
      blk_ok (b, ord)) \<or>
    (alloc_pages ord s = Some (s, None) \<and> (\<forall>c \<in> free_blocks s. snd c < ord))"
  by (rule alloc_pages_total [OF assms])

lemma free_pages_ok:
  assumes inv: "buddy_inv s A" and b: "(b, ord) \<in> A"
  shows "\<exists>s'. free_pages (pfn_to_phys s b) ord s = Some s' \<and> buddy_inv s' (A - {(b, ord)}) \<and>
    free_frames s' = free_frames s \<union> blk (b, ord) \<and> ram s' = ram s \<and>
    stat_used_pages s' = stat_used_pages s - 2 ^ ord \<and>
    has_flag (page_array s' b) PAGE_FLAG_FREE \<and> phys_mem_base s' = phys_mem_base s \<and>
    (coalesced (free_blocks s) \<longrightarrow> coalesced (free_blocks s'))"
proof -
  let ?F = "free_blocks s"
  have B: "blocks_ok (?F \<union> A)" and FA: "?F \<inter> A = {}" and ok: "lists_ok s" and bnd: "bounds_ok s (?F \<union> A)"
    and used: "used_page_ok s (b, ord)"
    using inv b by (auto simp: buddy_inv_def)
  have ord: "ord \<le> MAX_ORDER" using blocks_ok_mem [OF B] b by blast
  have "b \<in> blk (b, ord)" by (simp add: blk_def)
  then have tot: "b < total_phys_pages s" using bnd b unfolding bounds_ok_def by blast
  define s1 where "s1 = set_page b (mark_free ord) s"
  define s2 where "s2 = sub_used (2 ^ ord) (list_add ord b s1)"
  have s1F: "free_blocks s1 = ?F" "lists_ok s1" using ok by (simp_all add: s1_def set_page_blocks)
  have fresh: "(b, j) \<notin> free_blocks s1" for j
    using blocks_ok_fst [OF B, of "(b, j)" "(b, ord)"] b FA s1F by auto
  note la = list_add_blocks [OF s1F(2) ord fresh]
  have s2F: "free_blocks s2 = insert (b, ord) ?F" "lists_ok s2"
    using la s1F by (simp_all add: s2_def sub_used_def)
  have env: "phys_mem_base s2 = phys_mem_base s" "total_phys_pages s2 = total_phys_pages s" "ram s2 = ram s"
    "stat_used_pages s2 = stat_used_pages s - 2 ^ ord"
    using la(3) by (auto simp: s2_def sub_used_def s1_def set_page_def links_only_def same_env_def)
  have inv2: "buddy_inv s2 (A - {(b, ord)})"
  proof (rule give_block [OF inv b s2F(2,1) env(1,2)])
    show "same_data s s2 x" if "x \<noteq> b" for x
      using that links_only_data [OF la(3), of x] by (simp add: same_data_def s2_def sub_used_def s1_def set_page_def)
    show "free_page_ok s2 (b, ord)"
      using mark_free_ok [OF used] same_data_ok(1) [where c = "(b, ord)", OF links_only_data links_only_env, OF la(3) la(3)]
      by (simp add: free_page_ok_def s2_def sub_used_def s1_def [symmetric] pfn_to_phys_def)
  qed
  have "(b, ord) \<in> free_blocks s2" using s2F(1) by simp
  from buddy_merge_ok [OF inv2 this] obtain s' r where r: "buddy_merge b s2 = Some (s', r)"
      "merge_result s2 (A - {(b, ord)}) b s' r"
      "coalesced_except (b, ord) (free_blocks s2) \<longrightarrow> coalesced (free_blocks s')"
    by blast
  have "pfn_to_phys s b \<noteq> 0" "\<not> pfn_to_phys s b < phys_mem_base s"
    using bnd by (simp_all add: bounds_ok_def pfn_to_phys_def)
  then have "free_pages (pfn_to_phys s b) ord s = Some s'"
    using ord tot used r(1)
    by (simp add: free_pages_def used_page_ok_def s2_def s1_def mark_free_def [abs_def])
  moreover have "free_frames s2 = free_frames s \<union> blk (b, ord)"
    using s2F(1) by (auto simp: free_frames_def)
  moreover have "coalesced_except (b, ord) (free_blocks s2)" if "coalesced ?F"
    using that unfolding s2F(1) coalesced_def coalesced_except_def by blast
  moreover have "has_flag (page_array s2 b) PAGE_FLAG_FREE"
    using buddy_inv_ok(2) [OF inv2 \<open>(b, ord) \<in> free_blocks s2\<close>] by (simp add: free_page_ok_def)
  ultimately show ?thesis
    using r env by (auto simp: merge_result_def same_env_def keeps_free_def)
qed

lemma free_pages_rejects:
  assumes "phys_to_pfn s pa = Some p" "has_flag (page_array s p) PAGE_FLAG_FREE"
  shows "free_pages pa ord s = Some s"
  using assms by (simp add: free_pages_def)

text \<open>C2: returning a block in use to the allocator with the order it was allocated with always
  returns; the block's frames become free again and no other frame changes status, the invariant
  holds without the block, and an allocator without mergeable buddies still has none: the merge has
  gone as far as it can.\<close>

theorem free_pages_correct:
  assumes "buddy_inv s A" "(b, ord) \<in> A"
  shows "\<exists>s'. free_pages (pfn_to_phys s b) ord s = Some s' \<and> buddy_inv s' (A - {(b, ord)}) \<and>
    free_frames s' = free_frames s \<union> blk (b, ord) \<and> ram s' = ram s \<and>
    stat_used_pages s' = stat_used_pages s - 2 ^ ord \<and>
    (coalesced (free_blocks s) \<longrightarrow> coalesced (free_blocks s'))"
  using free_pages_ok [OF assms] by blast

text \<open>A double free is detected whatever happened in the merge: once a block has been released,
  releasing the same address again, with any order, leaves the allocator exactly as it was.\<close>

theorem double_free_rejected:
  assumes "buddy_inv s A" "(b, ord) \<in> A"
  shows "\<exists>s'. free_pages (pfn_to_phys s b) ord s = Some s' \<and>
    (\<forall>k. free_pages (pfn_to_phys s b) k s' = Some s')"
proof -
  obtain s' where s': "free_pages (pfn_to_phys s b) ord s = Some s'"
      "has_flag (page_array s' b) PAGE_FLAG_FREE" "phys_mem_base s' = phys_mem_base s"
    using free_pages_ok [OF assms] by blast
  have "phys_to_pfn s' (pfn_to_phys s b) = Some b"
    using phys_to_pfn_inv [of s' b] s'(3) by (simp add: pfn_to_phys_def)
  then show ?thesis using s' free_pages_rejects by blast
qed

section \<open>Instances\<close>

lemma one_frame_inv:
  "buddy_inv one_frame {}" "free_blocks one_frame = {(512, 0)}" "phys_mem_base one_frame = 0x100000"
proof -
  let ?s = "boot_state\<lparr> total_phys_pages := 1024 \<rparr>"
  have b: "blank ?s {}"
    by (simp add: blank_def boot_state_def page_zero_def has_flag_def BUDDY_MAX_PAGES_def)
  then have i: "buddy_inv ?s {}" and f: "free_frames ?s = {}" using blank_inv by blast+
  have F: "free_blocks ?s = {}" using b by (simp add: free_blocks_def blank_def)
  have "\<not> resv ?s 512" using b by (simp add: blank_def)
  then show "buddy_inv one_frame {}" "free_blocks one_frame = {(512, 0)}" "phys_mem_base one_frame = 0x100000"
    using mark_available_page_ok [OF i, of 512] F by (simp_all add: one_frame_def boot_state_def)
qed

theorem alloc_pages_correct_witness:
  "(\<exists>b s'. alloc_pages 0 one_frame = Some (s', Some (pfn_to_phys one_frame b)) \<and>
      alloc_success one_frame {} 0 s' b \<and> blk_ok (b, 0))"
  using alloc_pages_correct [OF one_frame_inv(1), of 0] one_frame_inv(2) by (auto simp: MAX_ORDER_def)

text \<open>The state after allocating that frame, for the release theorems.\<close>

definition one_used :: pmm where
  "one_used = fst (the (alloc_pages 0 one_frame))"

lemma one_used_success:
  "alloc_pages 0 one_frame = Some (one_used, Some (pfn_to_phys one_frame 512))" "alloc_success one_frame {} 0 one_used 512"
proof -
  have "find_order one_frame 0 \<le> MAX_ORDER"
  proof (rule ccontr)
    assume "\<not> find_order one_frame 0 \<le> MAX_ORDER"
    then have "free_area one_frame 0 = None" using find_order_props(3) [of 0 0 one_frame] by simp
    then show False using empty_no_block [of 0 one_frame 512] one_frame_inv(2) by simp
  qed
  from alloc_pages_success [OF one_frame_inv(1) _ this] obtain b s' where
    s': "alloc_pages 0 one_frame = Some (s', Some (pfn_to_phys one_frame b))" "alloc_success one_frame {} 0 s' b"
    by (auto simp: MAX_ORDER_def)
  then have "b \<in> free_frames one_frame" by (auto simp: alloc_success_def)
  then have "b = 512" using one_frame_inv(2) by (simp add: free_frames_def)
  with s' show "alloc_pages 0 one_frame = Some (one_used, Some (pfn_to_phys one_frame 512))" "alloc_success one_frame {} 0 one_used 512"
    by (simp_all add: one_used_def)
qed

lemma one_used_inv: "buddy_inv one_used {(512, 0)}"
  using one_used_success(2) by (simp add: alloc_success_def)

theorem free_pages_correct_witness:
  "\<exists>s'. free_pages (pfn_to_phys one_used 512) 0 one_used = Some s' \<and> buddy_inv s' {} \<and> 512 \<in> free_frames s'"
  using free_pages_correct [OF one_used_inv, of 512 0] by auto

theorem double_free_rejected_witness:
  "\<exists>s'. free_pages (pfn_to_phys one_used 512) 0 one_used = Some s' \<and>
    (\<forall>k. free_pages (pfn_to_phys one_used 512) k s' = Some s')"
  by (rule double_free_rejected [OF one_used_inv]) simp

end
