(* ===== verification/BuddyInit.thy ===== *)
theory BuddyInit
  imports BuddyAlloc
begin

text \<open>
  Boot-time initialisation of the page allocator, \<open>phys_mem_init\<close> and \<open>phys_mem_init_uefi\<close> of
  \<open>kernel/mem.c\<close>: reading the boot loader's memory map out of physical memory, reserving the kernel
  and heap ranges, filling the free lists and coalescing them.

  The Multiboot structures are read with the offsets the C declarations give them under the x86-64
  ABI. In particular \<open>struct mb1_mmap_entry\<close> is not packed, so its fields \<open>base_addr\<close>, \<open>length\<close> and
  \<open>type\<close> are at the offsets 8, 16 and 24. A scan of a malformed map that never ends gives
  \<^const>\<open>None\<close>. Pointers are natural numbers; sizes and totals keep their C widths.
\<close>

section \<open>Memory maps\<close>

definition MIB256 :: u64 where "MIB256 = 256 * 1024 * 1024"

text \<open>The update of the running total by one available region.\<close>

definition grow_total :: "u64 \<Rightarrow> u64 \<Rightarrow> u64 \<Rightarrow> u64" where
  "grow_total base_addr len tot =
     (let end_addr = base_addr + len
      in if end_addr > tot \<and> base_addr < MIB256 then (if end_addr > MIB256 then MIB256 else end_addr)
         else tot)"

partial_function (option) mb2_entries :: "mem \<Rightarrow> nat \<Rightarrow> nat \<Rightarrow> nat \<Rightarrow> u64 \<Rightarrow> u64 option" where
  "mb2_entries m entry_size tag_end entries total_ram =
     (if entries + entry_size \<le> tag_end then
        mb2_entries m entry_size tag_end (entries + entry_size)
          (if load32 m (entries + 16) = 1
           then grow_total (load64 m entries) (load64 m (entries + 8)) total_ram else total_ram)
      else Some total_ram)"

partial_function (option) mb2_tags :: "mem \<Rightarrow> nat \<Rightarrow> nat \<Rightarrow> u64 \<Rightarrow> u64 option" where
  "mb2_tags m tag limit total_ram =
     (let typ = load32 m tag; sz = load32 m (tag + 4)
      in if typ \<noteq> 0 \<and> tag < limit then do {
           (let basic = (ucast (load32 m (tag + 12) + 1024) * 1024 :: u64);
                total1 = (if typ = 4 then (if basic > MIB256 then MIB256 else basic) else total_ram);
                tag_end = (tag + unat sz) mod 2 ^ 32
            in do {
              total2 \<leftarrow> (if typ = 6 then mb2_entries m (unat (load32 m (tag + 8))) tag_end (tag + 16) total1
                         else Some total1);
              mb2_tags m (tag + unat (((if sz < 8 then 8 else sz) + 7) AND NOT 7)) limit total2 }) }
         else Some total_ram)"

partial_function (option) mb1_entries :: "mem \<Rightarrow> nat \<Rightarrow> nat \<Rightarrow> u64 \<Rightarrow> u64 option" where
  "mb1_entries m entries limit tot =
     (if entries < limit then
        let sz = load32 m entries
        in if sz < 20 then Some tot
           else let tot' = (if load32 m (entries + 24) = 1
                              then grow_total (load64 m (entries + 8)) (load64 m (entries + 16)) tot
                              else tot)
                in if sz > 0xFFFFFFFF - 4 then Some tot'
                   else mb1_entries m (entries + unat sz + 4) limit tot'
      else Some tot)"

definition mb1_total :: "mem \<Rightarrow> nat \<Rightarrow> u32 \<Rightarrow> u64 option" where
  "mb1_total m info flags =
     (let basic = ((ucast (load32 m (info + 4)) + ucast (load32 m (info + 8))) * 1024 :: u64);
          total1 = (if flags AND 1 \<noteq> 0 then (if basic > MIB256 then MIB256 else basic) else 0)
      in if flags AND 64 \<noteq> 0 then do {
           (let mmap_length = load32 m (info + 44); mmap_addr = load32 m (info + 48);
                entries = unat mmap_addr
            in do { e820_total \<leftarrow> mb1_entries m entries (entries + unat mmap_length) 0;
                    Some (if e820_total > 0 then e820_total else total1) }) }
         else Some total1)"

definition mb_total_ram :: "mem \<Rightarrow> nat \<Rightarrow> u64 option" where
  "mb_total_ram m mb_info =
     (if mb_info = 0 then Some 0
      else let first_word = load32 m mb_info; second_word = load32 m (mb_info + 4)
           in if second_word = 0 \<and> first_word > 0 \<and> first_word < 0x100000
              then mb2_tags m (mb_info + 8) (mb_info + unat first_word) 0
              else mb1_total m mb_info first_word)"

section \<open>Initialisation\<close>

definition reset_pages :: "pmm \<Rightarrow> pmm" where
  "reset_pages s = s\<lparr> page_array := (\<lambda>_. page_zero), free_area := (\<lambda>_. None) \<rparr>"

definition set_total_ram :: "nat \<Rightarrow> pmm \<Rightarrow> pmm" where
  "set_total_ram total_ram s = s\<lparr> phys_mem_end := total_ram, total_phys_pages := total_ram div PAGE_SIZE \<rparr>"

definition kernel_reserved_pages :: nat where "kernel_reserved_pages = 2 * 1024 * 1024 div PAGE_SIZE"

definition reserve_kernel :: "pmm \<Rightarrow> pmm" where
  "reserve_kernel s =
     (let heap_start_pfn = 8 * 1024 * 1024 div PAGE_SIZE; heap_end_pfn = 32 * 1024 * 1024 div PAGE_SIZE
      in buddy_mark_reserved heap_start_pfn
           (if heap_end_pfn > total_phys_pages s then total_phys_pages s else heap_end_pfn)
           (buddy_mark_reserved 0 kernel_reserved_pages s))"

definition phys_mem_init :: "nat \<Rightarrow> pmm \<Rightarrow> pmm option" where
  "phys_mem_init mb_info s = do {
     tot \<leftarrow> mb_total_ram (ram s) mb_info;
     (let total_ram = (if tot = 0 then 64 * 1024 * 1024 else tot);
          s1 = reserve_kernel (set_total_ram (unat total_ram) (reset_pages s))
      in buddy_coalesce_all (buddy_mark_available kernel_reserved_pages (total_phys_pages s1) s1)) }"

definition boot_ram :: "u64 \<Rightarrow> nat" where
  "boot_ram t = (if t = 0 then 64 * 1024 * 1024 else unat t)"

record uefi_mmap_entry =
  phys_start :: u64
  num_pages :: u64
  attributes :: u64
  mm_type :: u32

definition entry_end :: "uefi_mmap_entry \<Rightarrow> u64" where
  "entry_end e = phys_start e + num_pages e * 4096"

primrec highest_available :: "uefi_mmap_entry list \<Rightarrow> u64 \<Rightarrow> u64" where
  "highest_available [] h = h"
| "highest_available (e # es) h = highest_available es (if entry_end e > h then entry_end e else h)"

text \<open>The frame range of an entry after clamping, or nothing when the loop body skips it.\<close>

definition entry_range :: "pmm \<Rightarrow> uefi_mmap_entry \<Rightarrow> (nat \<times> nat) option" where
  "entry_range s e =
     (let total_ram = phys_mem_end s; start = unat (phys_start e); stop = unat (entry_end e)
      in if start \<ge> total_ram then None
         else let stop' = (if stop > total_ram then total_ram else stop);
                  pfn = (\<lambda>pa. case phys_to_pfn s pa of None \<Rightarrow> 2 ^ 64 - 1 | Some p \<Rightarrow> p)
              in if pfn start \<ge> BUDDY_MAX_PAGES then None
                 else Some (pfn start, if pfn stop' > BUDDY_MAX_PAGES then BUDDY_MAX_PAGES else pfn stop'))"

definition uefi_reserve :: "uefi_mmap_entry \<Rightarrow> pmm \<Rightarrow> pmm" where
  "uefi_reserve e s = (case entry_range s e of
     None \<Rightarrow> s
   | Some (a, b) \<Rightarrow> if mm_type e = 7 then s else buddy_mark_reserved a b s)"

definition uefi_release :: "uefi_mmap_entry \<Rightarrow> pmm \<Rightarrow> pmm" where
  "uefi_release e s = (case entry_range s e of
     None \<Rightarrow> s
   | Some (a, b) \<Rightarrow> if mm_type e = 7 then buddy_mark_available a b s else s)"

definition phys_mem_init_uefi :: "uefi_mmap_entry list \<Rightarrow> pmm \<Rightarrow> pmm option" where
  "phys_mem_init_uefi es s =
     (let h = highest_available es 0; total_ram = (if h > MIB256 then MIB256 else h);
          s1 = set_total_ram (unat total_ram) (reset_pages s);
          s2 = reserve_kernel (fold uefi_reserve es s1)
      in buddy_coalesce_all (fold uefi_release es s2))"

section \<open>The scans\<close>

lemma grow_total_bound: "tot \<le> MIB256 \<Longrightarrow> grow_total b l tot \<le> MIB256"
  by (auto simp: grow_total_def Let_def)

lemma mb2_entries_bound: "mb2_entries m n e a t = Some r \<Longrightarrow> t \<le> MIB256 \<longrightarrow> r \<le> MIB256"
  by (erule mb2_entries.raw_induct [rotated])
    (fastforce simp: grow_total_bound split: if_splits)

lemma mb2_tags_bound: "mb2_tags m a l t = Some r \<Longrightarrow> t \<le> MIB256 \<longrightarrow> r \<le> MIB256"
  by (erule mb2_tags.raw_induct [rotated])
    (fastforce simp: Let_def split: if_splits bind_splits dest: mb2_entries_bound)

lemma mb1_entries_bound: "mb1_entries m a l t = Some r \<Longrightarrow> t \<le> MIB256 \<longrightarrow> r \<le> MIB256"
  by (erule mb1_entries.raw_induct [rotated])
    (fastforce simp: Let_def grow_total_bound split: if_splits)

lemma mb_total_ram_bound: "mb_total_ram m mb = Some r \<Longrightarrow> r \<le> MIB256"
  by (auto simp: mb_total_ram_def mb1_total_def Let_def split: if_splits bind_splits
      dest!: mb2_tags_bound mb1_entries_bound)

section \<open>Filling the free lists\<close>

lemma mark_available_page_resv: "resv s p \<Longrightarrow> mark_available_page p s = s"
  by (simp add: mark_available_page_def)

lemma mark_available_loop_ok:
  assumes "buddy_inv s {}" "p + n \<le> total_phys_pages s" "free_frames s \<inter> {p..<p + n} = {}"
  defines "s' \<equiv> mark_available_loop p n s"
  shows "buddy_inv s' {} \<and> free_frames s' = free_frames s \<union> {x. p \<le> x \<and> x < p + n \<and> \<not> resv s x} \<and>
    (\<forall>x. resv s' x = resv s x) \<and> total_phys_pages s' = total_phys_pages s \<and> phys_mem_base s' = phys_mem_base s \<and>
    phys_mem_end s' = phys_mem_end s"
  using assms(1-3) unfolding s'_def
proof (induction n arbitrary: p s)
  case 0
  then show ?case by auto
next
  case (Suc n)
  let ?t = "mark_available_page p s"
  have t: "buddy_inv ?t {} \<and> free_frames ?t = free_frames s \<union> {x. x = p \<and> \<not> resv s x} \<and>
      (\<forall>x. resv ?t x = resv s x) \<and> total_phys_pages ?t = total_phys_pages s \<and> phys_mem_base ?t = phys_mem_base s \<and>
      phys_mem_end ?t = phys_mem_end s"
  proof (cases "resv s p")
    case True
    then show ?thesis using Suc.prems(1) by (auto simp: mark_available_page_resv)
  next
    case False
    have p: "p < total_phys_pages s" "p \<notin> \<Union> (blk ` (free_blocks s \<union> {}))"
      using Suc.prems(2,3) by (auto simp: free_frames_def)
    note ma = mark_available_page_ok [OF Suc.prems(1) p False]
    have "free_frames ?t = free_frames s \<union> {x. x = p \<and> \<not> resv s x}"
      using False by (auto simp: free_frames_def ma(2))
    with ma show ?thesis by blast
  qed
  have "mark_available_loop p (Suc n) s = mark_available_loop (Suc p) n ?t" by simp
  moreover have "buddy_inv ?t {}" "Suc p + n \<le> total_phys_pages ?t" "free_frames ?t \<inter> {Suc p..<Suc p + n} = {}"
    using t Suc.prems by auto
  note Suc.IH [OF this]
  ultimately show ?case using t by (auto simp: le_Suc_eq not_less_eq_eq)
qed

section \<open>Coalescing\<close>

definition coalesce_result :: "pmm \<Rightarrow> pmm \<Rightarrow> bool" where
  "coalesce_result s s' \<longleftrightarrow> buddy_inv s' {} \<and> same_env s s' \<and> free_frames s' = free_frames s \<and>
     card (free_blocks s') \<le> card (free_blocks s)"

lemma coalesce_result_trans: "coalesce_result s t \<Longrightarrow> coalesce_result t u \<Longrightarrow> coalesce_result s u"
  by (auto simp: coalesce_result_def same_env_def)

lemma linked_suffix:
  "linked nx p xs \<Longrightarrow> q \<in> set xs \<Longrightarrow> \<exists>ys. linked nx (nx q) ys \<and> set ys \<subseteq> set xs"
proof (induction xs arbitrary: p)
  case (Cons x xs)
  show ?case
  proof (cases "q = x")
    case False
    then have "\<exists>ys. linked nx (nx q) ys \<and> set ys \<subseteq> set xs" using Cons by auto
    then show ?thesis by auto
  qed (use Cons in auto)
qed simp

lemma coalesce_scan_ok:
  assumes "buddy_inv s {}" "linked (nxt s) p xs" "\<forall>q \<in> set xs. \<exists>j. (q, j) \<in> free_blocks s"
  shows "\<exists>s' m. coalesce_scan p s = Some (s', m) \<and> coalesce_result s s' \<and>
    (m \<longrightarrow> card (free_blocks s') < card (free_blocks s))"
  using assms
proof (induction "card (free_blocks s)" arbitrary: s p xs rule: less_induct)
  case less
  note outer = less.hyps
  show ?case using less.prems
  proof (induction xs arbitrary: p)
    case Nil
    then show ?case by (subst coalesce_scan.simps) (auto simp: coalesce_result_def)
  next
    case (Cons q xs)
    then obtain j where p: "p = Some q" and q: "(q, j) \<in> free_blocks s" and l: "linked (nxt s) (nxt s q) xs" by auto
    have fl: "has_flag (page_array s q) PAGE_FLAG_FREE"
      using buddy_inv_ok(2) [OF Cons.prems(1) q] by (simp add: free_page_ok_def)
    obtain s1 r where m: "buddy_merge q s = Some (s1, r)" "merge_result s {} q s1 r"
      using buddy_merge_ok [OF Cons.prems(1) q] by blast
    have step: "coalesce_scan p s = (if r \<noteq> q then Some (s1, True) else coalesce_scan (nxt s1 q) s1)"
      using fl m(1) p by (subst coalesce_scan.simps) simp
    have res: "coalesce_result s s1" using m(2) by (auto simp: merge_result_def coalesce_result_def)
    consider "r \<noteq> q" | "r = q" "s1 = s" | "r = q" "card (free_blocks s1) < card (free_blocks s)"
      using m(2) by (auto simp: merge_result_def)
    then show ?case
    proof cases
      case 1
      then show ?thesis using step res m(2) by (auto simp: merge_result_def)
    next
      case 2
      then show ?thesis using step Cons.IH [OF Cons.prems(1) l] Cons.prems(3) by auto
    next
      case 3
      from m(2) 3 obtain k where k: "(q, k) \<in> free_blocks s1" "buddy_inv s1 {}" by (auto simp: merge_result_def)
      then obtain ys where ys: "k \<le> MAX_ORDER" "linked (nxt s1) (free_area s1 k) ys" "q \<in> set ys"
        by (auto simp: free_blocks_def)
      obtain zs where zs: "linked (nxt s1) (nxt s1 q) zs" "set zs \<subseteq> set ys" using linked_suffix [OF ys(2,3)] by blast
      have "\<forall>x \<in> set zs. \<exists>j. (x, j) \<in> free_blocks s1" using zs(2) free_blocks_iff [OF ys(1,2)] by blast
      from outer [OF 3(2) k(2) zs(1) this] show ?thesis
        using step 3 res coalesce_result_trans by (auto intro: less_trans)
    qed
  qed
qed

lemma coalesce_order_ok:
  "buddy_inv s {} \<Longrightarrow> k \<le> MAX_ORDER \<Longrightarrow> \<exists>s'. coalesce_order k s = Some s' \<and> coalesce_result s s'"
proof (induction "card (free_blocks s)" arbitrary: s rule: less_induct)
  case less
  obtain xs where xs: "linked (nxt s) (free_area s k) xs"
    using less.prems by (auto simp: buddy_inv_def lists_ok_def)
  have "\<forall>q \<in> set xs. \<exists>j. (q, j) \<in> free_blocks s" using free_blocks_iff [OF less.prems(2) xs] by blast
  from coalesce_scan_ok [OF less.prems(1) xs this] obtain s1 m where
    s1: "coalesce_scan (free_area s k) s = Some (s1, m)" "coalesce_result s s1"
      "m \<longrightarrow> card (free_blocks s1) < card (free_blocks s)" by blast
  show ?case
  proof (cases m)
    case True
    then show ?thesis
      using s1 less.hyps [of s1] less.prems(2) coalesce_result_trans
      by (subst coalesce_order.simps) (fastforce simp: coalesce_result_def)
  next
    case False
    then show ?thesis using s1 by (subst coalesce_order.simps) simp
  qed
qed

lemma coalesce_orders_ok:
  "buddy_inv s {} \<Longrightarrow> k + n \<le> Suc MAX_ORDER \<Longrightarrow> \<exists>s'. coalesce_orders k n s = Some s' \<and> coalesce_result s s'"
proof (induction n arbitrary: k s)
  case (Suc n)
  then obtain s1 where "coalesce_order k s = Some s1" "coalesce_result s s1" using coalesce_order_ok [of s k] by auto
  moreover then obtain s2 where "coalesce_orders (Suc k) n s1 = Some s2" "coalesce_result s1 s2"
    using Suc.IH [of s1 "Suc k"] Suc.prems by (auto simp: coalesce_result_def)
  ultimately show ?case using coalesce_result_trans by auto
qed (simp add: coalesce_result_def)

section \<open>Initialisation establishes the invariant\<close>

lemma mark_reserved_loop_eq:
  "mark_reserved_loop p n s = s\<lparr> page_array := (\<lambda>x. if p \<le> x \<and> x < p + n
     then (page_array s x)\<lparr> pg_flags := pg_flags (page_array s x) OR PAGE_FLAG_RESERVED \<rparr> else page_array s x) \<rparr>"
proof (induction n arbitrary: p s)
  case 0
  have "(\<lambda>x. if p \<le> x \<and> x < p + 0
     then (page_array s x)\<lparr> pg_flags := pg_flags (page_array s x) OR PAGE_FLAG_RESERVED \<rparr> else page_array s x) = page_array s"
    by (auto simp: fun_eq_iff)
  then show ?case by (simp only: mark_reserved_loop.simps) simp
next
  case (Suc n)
  show ?case unfolding mark_reserved_loop.simps Suc
    by (intro pmm.equality) (auto simp: set_page_def fun_eq_iff Suc_le_eq)
qed

lemma blank_reserve:
  assumes "blank s R"
  shows "blank (buddy_mark_reserved a b s) (R \<union> {a..<min b BUDDY_MAX_PAGES})"
    "total_phys_pages (buddy_mark_reserved a b s) = total_phys_pages s"
    "phys_mem_end (buddy_mark_reserved a b s) = phys_mem_end s"
    "phys_mem_base (buddy_mark_reserved a b s) = phys_mem_base s"
  using assms
  by (auto simp: blank_def buddy_mark_reserved_def mark_reserved_loop_eq has_flag_bit flag_bits)

lemma blank_reset:
  "phys_mem_base s = 0x100000 \<Longrightarrow> t \<le> MIB256 \<Longrightarrow> blank (set_total_ram (unat t) (reset_pages s)) {}"
proof -
  assume b: "phys_mem_base s = 0x100000" and t: "t \<le> MIB256"
  have "unat t \<le> unat MIB256" using t by (simp add: word_le_nat_alt)
  then have "unat t div PAGE_SIZE \<le> BUDDY_MAX_PAGES"
    by (simp add: MIB256_def PAGE_SIZE_def BUDDY_MAX_PAGES_def)
  with b show ?thesis
    by (simp add: blank_def set_total_ram_def reset_pages_def page_zero_def has_flag_def)
qed

definition kernel_frames :: "nat \<Rightarrow> nat set" where
  "kernel_frames n = {0..<512} \<union> {2048..<min 8192 n}"

lemma blank_reserve_kernel:
  assumes "blank s R"
  shows "blank (reserve_kernel s) (R \<union> kernel_frames (total_phys_pages s))"
    "total_phys_pages (reserve_kernel s) = total_phys_pages s" "phys_mem_end (reserve_kernel s) = phys_mem_end s"
    "phys_mem_base (reserve_kernel s) = phys_mem_base s"
proof -
  let ?n = "total_phys_pages s"
  let ?h = "if 32 * 1024 * 1024 div PAGE_SIZE > ?n then ?n else 32 * 1024 * 1024 div PAGE_SIZE"
  have n: "?n \<le> BUDDY_MAX_PAGES" using assms by (simp add: blank_def)
  note b1 = blank_reserve [OF assms, of 0 kernel_reserved_pages]
  note b2 = blank_reserve [OF b1(1), of "8 * 1024 * 1024 div PAGE_SIZE" ?h]
  have eq: "reserve_kernel s = buddy_mark_reserved (8 * 1024 * 1024 div PAGE_SIZE) ?h
      (buddy_mark_reserved 0 kernel_reserved_pages s)"
    by (simp add: reserve_kernel_def Let_def)
  have "R \<union> {0..<min kernel_reserved_pages BUDDY_MAX_PAGES} \<union> {8 * 1024 * 1024 div PAGE_SIZE..<min ?h BUDDY_MAX_PAGES} =
      R \<union> kernel_frames ?n"
    using n by (auto simp: kernel_frames_def kernel_reserved_pages_def PAGE_SIZE_def BUDDY_MAX_PAGES_def)
  then show "blank (reserve_kernel s) (R \<union> kernel_frames ?n)" unfolding eq using b2(1) by simp
  show "total_phys_pages (reserve_kernel s) = ?n" "phys_mem_end (reserve_kernel s) = phys_mem_end s"
    "phys_mem_base (reserve_kernel s) = phys_mem_base s"
    unfolding eq using b1(2-) b2(2-) by simp_all
qed

lemma buddy_mark_available_ok:
  assumes "buddy_inv s {}" "b \<le> total_phys_pages s" "free_frames s \<inter> {a..<b} = {}"
  defines "s' \<equiv> buddy_mark_available a b s"
  shows "buddy_inv s' {} \<and> free_frames s' = free_frames s \<union> {x. a \<le> x \<and> x < b \<and> \<not> resv s x} \<and>
    (\<forall>x. resv s' x = resv s x) \<and> total_phys_pages s' = total_phys_pages s \<and> phys_mem_base s' = phys_mem_base s \<and>
    phys_mem_end s' = phys_mem_end s"
proof -
  have "total_phys_pages s \<le> BUDDY_MAX_PAGES" using assms(1) by (simp add: buddy_inv_def bounds_ok_def)
  then have b: "min b BUDDY_MAX_PAGES = b" using assms(2) by simp
  show ?thesis
  proof (cases "a < BUDDY_MAX_PAGES \<and> a < b")
    case True
    then show ?thesis
      using mark_available_loop_ok [OF assms(1), of a "b - a"] assms(2,3) b
      by (simp add: s'_def buddy_mark_available_def)
  next
    case False
    then have "s' = s" "b \<le> a" using b by (auto simp: s'_def buddy_mark_available_def)
    then show ?thesis using assms(1) by auto
  qed
qed

lemma phys_mem_init_ok:
  assumes parse: "mb_total_ram (ram s) mb = Some t" and base: "phys_mem_base s = 0x100000"
  defines "n \<equiv> boot_ram t div PAGE_SIZE"
  shows "\<exists>s'. phys_mem_init mb s = Some s' \<and> buddy_inv s' {} \<and> total_phys_pages s' = n \<and>
    free_frames s' = {512..<n} - {2048..<8192} \<and> phys_mem_end s' = boot_ram t \<and> phys_mem_base s' = 0x100000"
proof -
  define tr :: u64 where "tr = (if t = 0 then 64 * 1024 * 1024 else t)"
  have tr: "tr \<le> MIB256" "unat tr = boot_ram t"
    using mb_total_ram_bound [OF parse] by (auto simp: tr_def MIB256_def boot_ram_def)
  let ?s0 = "set_total_ram (unat tr) (reset_pages s)"
  have n0: "total_phys_pages ?s0 = n" "phys_mem_end ?s0 = boot_ram t"
    using tr(2) by (simp_all add: set_total_ram_def n_def)
  note bk = blank_reserve_kernel [OF blank_reset [OF base tr(1)], unfolded n0]
  let ?s1 = "reserve_kernel ?s0"
  have i1: "buddy_inv ?s1 {}" "free_frames ?s1 = {}" using blank_inv [OF bk(1)] by simp_all
  let ?s2 = "buddy_mark_available kernel_reserved_pages (total_phys_pages ?s1) ?s1"
  have i2: "buddy_inv ?s2 {}"
    "free_frames ?s2 = {x. kernel_reserved_pages \<le> x \<and> x < n \<and> \<not> resv ?s1 x}" "total_phys_pages ?s2 = n"
    "phys_mem_end ?s2 = boot_ram t" "phys_mem_base ?s2 = phys_mem_base ?s1"
    using buddy_mark_available_ok [OF i1(1), of "total_phys_pages ?s1" kernel_reserved_pages] i1(2) bk(2,3) by auto
  have "free_frames ?s2 = {512..<n} - {2048..<8192}"
    unfolding i2(2) using bk(1) by (auto simp: blank_def kernel_frames_def kernel_reserved_pages_def PAGE_SIZE_def)
  moreover obtain s' where "buddy_coalesce_all ?s2 = Some s'" "coalesce_result ?s2 s'"
    using coalesce_orders_ok [OF i2(1), of 0 MAX_ORDER] by (auto simp: buddy_coalesce_all_def)
  moreover have "phys_mem_init mb s = buddy_coalesce_all ?s2"
    using parse by (simp add: phys_mem_init_def tr_def Let_def)
  ultimately show ?thesis
    using i2(3-) bk(1) by (auto simp: coalesce_result_def same_env_def blank_def)
qed


text \<open>Frame numbers start at 1 MiB but the number of managed frames is the whole memory size
  divided by the page size, so on any machine with at least 33 MiB the allocator is handed free
  frames that lie beyond the end of physical memory.\<close>

theorem phys_mem_init_beyond_ram:
  assumes "mb_total_ram (ram s) mb = Some t" "phys_mem_base s = 0x100000" "33 * 1024 * 1024 \<le> boot_ram t"
  shows "\<exists>s' x. phys_mem_init mb s = Some s' \<and> x \<in> free_frames s' \<and> phys_mem_end s' \<le> pfn_to_phys s' x"
proof -
  obtain s' where s': "phys_mem_init mb s = Some s'" "phys_mem_base s' = 0x100000" "phys_mem_end s' = boot_ram t"
      "free_frames s' = {512..<boot_ram t div PAGE_SIZE} - {2048..<8192}"
    using phys_mem_init_ok [OF assms(1,2)] by blast
  define x where "x = boot_ram t div PAGE_SIZE - 1"
  have "33 * 256 \<le> boot_ram t div PAGE_SIZE"
    using div_le_mono [OF assms(3), of PAGE_SIZE] by (simp add: PAGE_SIZE_def)
  then have "x \<in> free_frames s'" unfolding s'(4) x_def by auto
  moreover have "phys_mem_end s' \<le> pfn_to_phys s' x"
    using s'(2,3) \<open>33 * 256 \<le> boot_ram t div PAGE_SIZE\<close> by (simp add: pfn_to_phys_def x_def PAGE_SIZE_def)
  ultimately show ?thesis using s'(1) by blast
qed

lemma boot_state_null: "mb_total_ram (ram boot_state) 0 = Some 0" "phys_mem_base boot_state = 0x100000"
  by (simp_all add: mb_total_ram_def boot_state_def)


theorem phys_mem_init_beyond_ram_witness:
  "\<exists>s' x. phys_mem_init 0 boot_state = Some s' \<and> x \<in> free_frames s' \<and> phys_mem_end s' \<le> pfn_to_phys s' x"
  using phys_mem_init_beyond_ram [OF boot_state_null] by (simp add: boot_ram_def)

text \<open>A Multiboot memory map in the standard layout, \<open>n\<close> packed entries of 24 bytes whose size
  field is 20, is never seen: because \<open>struct mb1_mmap_entry\<close> is not packed, the type of each entry is
  read from the size field of the next one, so whatever the map says the scan reports no memory
  (unless the word after the map happens to be 1).\<close>

theorem mb1_packed_map_ignored:
  assumes "\<forall>i < n. load32 m (a + 24 * i) = 20" "load32 m (a + 24 * n) \<noteq> 1"
  shows "mb1_entries m a (a + 24 * n) 0 = Some 0"
  using assms
proof (induction n arbitrary: a)
  case 0
  then show ?case by (subst mb1_entries.simps) simp
next
  case (Suc n)
  have sz: "load32 m a = 20" using Suc.prems(1) by (metis add.right_neutral mult_0_right zero_less_Suc)
  have "load32 m (a + 24 * Suc 0) \<noteq> 1"
  proof (cases n)
    case 0
    then show ?thesis using Suc.prems(2) by simp
  next
    case (Suc k)
    then have "load32 m (a + 24 * Suc 0) = 20" using Suc.prems(1) by (metis Suc_less_eq zero_less_Suc)
    then show ?thesis by simp
  qed
  then have "mb1_entries m a (a + 24 * Suc n) 0 = mb1_entries m (a + 24) (a + 24 + 24 * n) 0"
    using sz by (subst mb1_entries.simps) (simp add: Let_def add.assoc)
  moreover have "\<forall>i < n. load32 m (a + 24 + 24 * i) = 20"
  proof (intro allI impI)
    fix i assume "i < n"
    then have "load32 m (a + 24 * Suc i) = 20" using Suc.prems(1) by blast
    then show "load32 m (a + 24 + 24 * i) = 20" by (simp add: algebra_simps)
  qed
  ultimately show ?case using Suc.IH [of "a + 24"] Suc.prems(2) by (simp add: algebra_simps)
qed

theorem mb1_packed_map_ignored_witness:
  "mb1_entries (\<lambda>x. if x = 0x1000 then 20 else if x = 0x1006 then 0x10 else if x = 0x100E then 0xF0
       else if x = 0x100F then 3 else if x = 0x1014 then 1 else 0)
     0x1000 (0x1000 + 24 * 1) 0 = Some 0"
  by (rule mb1_packed_map_ignored) (simp_all add: load32_def upt_rec)

end
