(* ===== verification/BuddyFrame.thy ===== *)
theory BuddyFrame
  imports BuddyInit
begin

text \<open>
  What the page allocator leaves alone: the owner of a page descriptor never changes, and apart from
  descriptors that end up marked free and the one of an allocated block, neither do the flags. The clients of
  the allocator rely on this for the pages they hold.
\<close>

section \<open>Descriptors\<close>

abbreviation pflags :: "pmm \<Rightarrow> nat \<Rightarrow> u32" where
  "pflags s q \<equiv> pg_flags (page_array s q)"

abbreviation slab_page :: "pmm \<Rightarrow> nat \<Rightarrow> bool" where
  "slab_page s q \<equiv> has_flag (page_array s q) PAGE_FLAG_SLAB"

definition keeps :: "pmm \<Rightarrow> pmm \<Rightarrow> bool" where
  "keeps s s' \<longleftrightarrow> phys_mem_base s' = phys_mem_base s \<and> total_phys_pages s' = total_phys_pages s \<and>
     (\<forall>q. pg_slab_cache (page_array s' q) = pg_slab_cache (page_array s q) \<and>
       (pflags s' q = pflags s q \<and> pg_ref_count (page_array s' q) = pg_ref_count (page_array s q) \<or> has_flag (page_array s' q) PAGE_FLAG_FREE) \<and>
       (slab_page s' q \<longrightarrow> slab_page s q))"

lemma slab_free_bits: "f AND PAGE_FLAG_SLAB \<noteq> 0 \<longleftrightarrow> bit f 3" "f AND PAGE_FLAG_FREE \<noteq> 0 \<longleftrightarrow> bit f 0"
proof -
  have "f AND 2 ^ 3 = 0 \<longleftrightarrow> \<not> bit f 3" "f AND 2 ^ 0 = 0 \<longleftrightarrow> \<not> bit f 0" for f :: u32
    by (rule and_exp_eq_0_iff_not_bit)+
  then show "f AND PAGE_FLAG_SLAB \<noteq> 0 \<longleftrightarrow> bit f 3" "f AND PAGE_FLAG_FREE \<noteq> 0 \<longleftrightarrow> bit f 0"
    by (simp_all add: PAGE_FLAG_SLAB_def PAGE_FLAG_FREE_def)
qed

lemmas flag_is_bit = has_flag_def slab_free_bits

lemma free_bits: "bit PAGE_FLAG_FREE n \<longleftrightarrow> n = 0" "bit PAGE_FLAG_SLAB n \<longleftrightarrow> n = 3"
  using bit_exp_iff [of 0 n, where ?'a = u32] bit_exp_iff [of 3 n, where ?'a = u32]
  by (auto simp: PAGE_FLAG_FREE_def PAGE_FLAG_SLAB_def bit_1_iff)

lemma keeps_refl [simp]: "keeps s s"
  by (simp add: keeps_def)

lemma keeps_trans: "keeps s t \<Longrightarrow> keeps t u \<Longrightarrow> keeps s u"
  unfolding keeps_def by (metis flag_is_bit(1))

lemma keeps_next: "keeps s t \<Longrightarrow> keeps s (set_page p (pg_next_update f) t)"
  by (auto simp: keeps_def set_page_def has_flag_def)

lemma keeps_head: "keeps s t \<Longrightarrow> keeps s (set_head k h t)"
  by (simp add: keeps_def set_head_def)

lemma keeps_free_block: "keeps s t \<Longrightarrow> keeps s (set_page p (free_block_page u p' k) t)"
  by (auto simp: keeps_def set_page_def free_block_page_def flag_is_bit free_bits)

lemma keeps_list_add: "keeps s t \<Longrightarrow> keeps s (list_add k p t)"
  unfolding list_add_def by (intro keeps_head keeps_next)

lemma keeps_list_del: "keeps s t \<Longrightarrow> list_del k p t = Some t' \<Longrightarrow> keeps s t'"
  by (auto simp: list_del_def intro: keeps_next keeps_head split: if_splits bind_splits option.splits)

lemma keeps_other [simp]: "keeps s (stat_used_pages_update f t) = keeps s t" "keeps s (ram_update g t) = keeps s t" "keeps s (sub_used n t) = keeps s t"
  by (simp_all add: keeps_def sub_used_def)

lemma keeps_split:
  assumes "buddy_split k s = Some (s', r)"
  shows "keeps s s'"
proof (cases "k = 0 \<or> k > MAX_ORDER \<or> free_area s k = None")
  case True
  then have "s' = s" using assms by (cases "k = 0"; cases "k > MAX_ORDER") (simp_all add: buddy_split_def)
  then show ?thesis by simp
next
  case False
  then obtain p where p: "free_area s k = Some p" by auto
  let ?q = "p + 2 ^ (k - 1)"
  show ?thesis
  proof (cases "list_del k p s")
    case None
    then show ?thesis using assms p False by (simp add: buddy_split_def)
  next
    case (Some s1)
    let ?s2 = "set_page p (free_block_page s1 p (k - 1)) s1"
    have "s' = list_add (k - 1) ?q (list_add (k - 1) p (set_page ?q (free_block_page ?s2 ?q (k - 1)) ?s2))"
      using assms p False Some by (cases "?q \<ge> BUDDY_MAX_PAGES") (simp_all add: buddy_split_def Let_def)
    moreover have "keeps s s1" by (rule keeps_list_del [OF keeps_refl Some])
    ultimately show ?thesis by (simp only:) (intro keeps_list_add keeps_free_block)
  qed
qed

lemma keeps_split_down: "split_down k n s = Some s' \<Longrightarrow> keeps s s'"
proof (induction n arbitrary: s)
  case (Suc n)
  then show ?case by (auto split: bind_splits intro: keeps_trans dest: keeps_split)
qed simp

lemma keeps_merge:
  assumes "buddy_merge p s = Some y"
  shows "keeps s (fst y)"
  using assms
proof (induction p s y rule: buddy_merge.raw_induct [rotated, consumes 1, case_names step])
  case (step f p s y)
  let ?o = "pg_order (page_array s p)"
  show ?case
  proof (cases "?o \<ge> MAX_ORDER \<or> get_buddy p ?o = None \<or> \<not> has_flag (page_array s (the (get_buddy p ?o))) PAGE_FLAG_FREE \<or>
      pg_order (page_array s (the (get_buddy p ?o))) \<noteq> ?o")
    case True
    then show ?thesis using step(2) by (auto simp: Let_def split: if_splits option.splits)
  next
    case False
    then obtain b where b: "get_buddy p ?o = Some b" by auto
    then obtain s1 s2 where s2: "list_del ?o p s = Some s1" "list_del ?o b s1 = Some s2"
      "f (if p < b then p else b) (list_add (?o + 1) (if p < b then p else b)
        (set_page (if p < b then p else b) (free_block_page s2 (if p < b then p else b) (?o + 1)) s2)) = Some y"
      using step(2) False by (auto simp: Let_def split: bind_splits)
    have "keeps s (list_add (?o + 1) q (set_page q (free_block_page s2 q (?o + 1)) s2))" for q
      by (intro keeps_list_add keeps_free_block keeps_list_del [OF keeps_list_del [OF keeps_refl s2(1)] s2(2)])
    then show ?thesis using step(1) [OF s2(3)] by (rule keeps_trans)
  qed
qed

section \<open>Allocation and release\<close>

lemma alloc_keeps:
  assumes "alloc_pages ord s = Some (s', Some pa)" "buddy_inv s A" "alloc_success s A ord s' b" "pa = pfn_to_phys s b"
  shows "phys_mem_base s' = phys_mem_base s \<and> total_phys_pages s' = total_phys_pages s \<and>
    (\<forall>q. pg_slab_cache (page_array s' q) = pg_slab_cache (page_array s q) \<and> (slab_page s' q \<longrightarrow> slab_page s q)) \<and>
    (\<forall>c \<in> A. pflags s' (fst c) = pflags s (fst c) \<and> pg_ref_count (page_array s' (fst c)) = pg_ref_count (page_array s (fst c)))"
proof -
  obtain s1 p s2 where o: "ord \<le> MAX_ORDER" "find_order s ord \<le> MAX_ORDER" "free_area s1 ord = Some p"
      and s1: "split_down ord (find_order s ord - ord) s = Some s1" "list_del ord p s1 = Some s2"
      and s': "s' = ram_update (\<lambda>m. fst (memset m pa 0 (PAGE_SIZE * 2 ^ ord))) (stat_used_pages_update (\<lambda>u. u + 2 ^ ord) (set_page p (mark_used ord) s2))"
    using assms(1) by (auto simp: alloc_pages_def Let_def mark_used_def [abs_def] set_page_def split: if_splits bind_splits option.splits)
  obtain b' where b': "buddy_inv s1 A" "(b', ord) \<in> free_blocks s1" "free_area s1 ord = Some b'"
    using alloc_pages_head [OF assms(2) o(1,2)] s1(1) by auto
  have k: "keeps s s2" by (rule keeps_list_del [OF keeps_split_down [OF s1(1)] s1(2)])
  have sl: "slab_page s' q \<longrightarrow> slab_page s q" for q
    using k by (auto simp: keeps_def s' set_page_def mark_used_def flag_is_bit bit_and_iff bit_not_iff free_bits)
  have "pflags s' (fst c) = pflags s (fst c) \<and> pg_ref_count (page_array s' (fst c)) = pg_ref_count (page_array s (fst c))" if c: "c \<in> A" for c
  proof -
    have u: "\<not> has_flag (page_array s' (fst c)) PAGE_FLAG_FREE" "\<not> has_flag (page_array s (fst c)) PAGE_FLAG_FREE"
      using assms(2,3) c by (auto simp: alloc_success_def buddy_inv_def used_page_ok_def)
    show ?thesis
    proof (cases "fst c = p")
      case True
      have "p \<in> free_frames s1" using b'(2,3) o(3) by (force simp: free_frames_def blk_def)
      moreover have "p \<in> blk c" using True by (auto simp: blk_def)
      ultimately show ?thesis using used_disjoint_free [OF b'(1) c] by blast
    next
      case False
      then show ?thesis using u(1) k by (auto simp: keeps_def s' set_page_def)
    qed
  qed
  then show ?thesis using k sl by (auto simp: keeps_def s' set_page_def mark_used_def)
qed

lemma alloc_ref_one:
  assumes "alloc_pages ord s = Some (s', Some (pfn_to_phys s b))" "buddy_inv s A"
  shows "pg_ref_count (page_array s' b) = 1"
proof -
  obtain s1 p s2 where o: "ord \<le> MAX_ORDER" "find_order s ord \<le> MAX_ORDER" "free_area s1 ord = Some p"
      and s1: "split_down ord (find_order s ord - ord) s = Some s1" "list_del ord p s1 = Some s2"
      and s': "page_array s' p = mark_used ord (page_array s2 p)" "pg_phys_addr (page_array s2 p) = pfn_to_phys s b"
    using assms(1) by (auto simp: alloc_pages_def Let_def mark_used_def [abs_def] set_page_def split: if_splits bind_splits option.splits)
  obtain b' where b': "buddy_inv s1 A" "(b', ord) \<in> free_blocks s1" "free_area s1 ord = Some b'"
    using alloc_pages_head [OF assms(2) o(1,2)] s1(1) by auto
  have "free_page_ok s1 (p, ord)" using b' o(3) by (auto simp: buddy_inv_def)
  then have "pg_phys_addr (page_array s1 p) = pfn_to_phys s1 p" by (simp add: free_page_ok_def)
  moreover have "pg_phys_addr (page_array s2 p) = pg_phys_addr (page_array s1 p)"
    using s1(2) by (auto simp: list_del_def set_page_def set_head_def split: if_splits bind_splits option.splits)
  moreover have "phys_mem_base s1 = phys_mem_base s" using keeps_split_down [OF s1(1)] by (simp add: keeps_def)
  ultimately have "p = b" using s'(2) by (simp add: pfn_to_phys_def PAGE_SIZE_def)
  then show ?thesis using s'(1) by (simp add: mark_used_def)
qed

lemma free_keeps:
  assumes "free_pages pa ord s = Some s'" "buddy_inv s A" "buddy_inv s' (A - {c})"
  shows "keeps s s' \<and> (\<forall>d \<in> A - {c}. pflags s' (fst d) = pflags s (fst d))"
proof -
  have "keeps s s'"
  proof (cases "s' = s")
    case False
    then obtain p r where m: "buddy_merge p (sub_used (2 ^ ord) (list_add ord p (set_page p (mark_free ord) s))) = Some (s', r)"
      using assms(1) by (auto simp: free_pages_def mark_free_def [abs_def] split: if_splits option.splits bind_splits)
    have "keeps s (set_page p (mark_free ord) s)"
      by (auto simp: keeps_def set_page_def mark_free_def flag_is_bit bit_or_iff free_bits)
    then have "keeps s (sub_used (2 ^ ord) (list_add ord p (set_page p (mark_free ord) s)))"
      by (simp add: keeps_list_add)
    then show ?thesis using keeps_merge [OF m] keeps_trans by (metis fst_conv)
  qed simp
  moreover have "\<not> has_flag (page_array s' (fst d)) PAGE_FLAG_FREE" if "d \<in> A - {c}" for d
    using assms(3) that by (auto simp: buddy_inv_def used_page_ok_def)
  ultimately show ?thesis unfolding keeps_def by blast
qed

text \<open>Memory and the owner of a page are no business of the page allocator.\<close>

lemma buddy_inv_ram [simp]: "buddy_inv (ram_update f s) A = buddy_inv s A"
proof -
  have "free_page_ok (ram_update f s) = free_page_ok s" "used_page_ok (ram_update f s) = used_page_ok s"
    by (simp_all add: fun_eq_iff free_page_ok_def used_page_ok_def pfn_to_phys_def)
  then show ?thesis by (simp add: buddy_inv_def no_stray_free_def bounds_ok_def)
qed

lemma buddy_inv_owner:
  assumes "buddy_inv s A"
  shows "buddy_inv (set_page p (\<lambda>g. g\<lparr> pg_flags := pg_flags g OR PAGE_FLAG_SLAB, pg_slab_cache := v \<rparr>) s) A" (is "buddy_inv ?s A")
proof -
  have f: "has_flag (page_array ?s q) PAGE_FLAG_FREE = has_flag (page_array s q) PAGE_FLAG_FREE"
    "has_flag (page_array ?s q) PAGE_FLAG_RESERVED = has_flag (page_array s q) PAGE_FLAG_RESERVED" for q
    by (simp_all add: set_page_def has_flag_bit bit_or_iff free_bits)
  moreover have "pg_order (page_array ?s q) = pg_order (page_array s q)" "pg_phys_addr (page_array ?s q) = pg_phys_addr (page_array s q)" for q
    by (simp_all add: set_page_def)
  moreover have "phys_mem_base ?s = phys_mem_base s" "total_phys_pages ?s = total_phys_pages s" by (simp_all add: set_page_def)
  moreover have "free_blocks ?s = free_blocks s" "lists_ok ?s = lists_ok s" by (simp_all add: set_page_blocks)
  ultimately show ?thesis using assms
    by (simp add: buddy_inv_def no_stray_free_def bounds_ok_def free_page_ok_def used_page_ok_def pfn_to_phys_def)
qed

end
