(* ===== verification/Slab.thy ===== *)
theory Slab
  imports BuddyFrame
begin

text \<open>
  The object allocator of \<open>kernel/mem.c\<close>: \<open>slab_grow\<close>, \<open>slab_init\<close>, \<open>kmalloc\<close>, \<open>kfree\<close> and
  \<open>slab_get_stats\<close>, on top of the page allocator.

  The record \<open>heap\<close> joins the page allocator's data, the array \<open>slab_caches\<close> and the counters of
  \<open>kernel/perf.c\<close> that the two operations bump. A \<open>struct slab_cache *\<close> is the index of the cache.
  Free objects are linked through their own first eight bytes, so the free lists are read from and
  written to physical memory with \<^const>\<open>load64\<close> and \<^const>\<open>store64\<close>. The operations are modelled
  for one caller at a time: nothing happens between an unlock and the next lock.
\<close>

section \<open>Data\<close>

definition SLAB_NUM_CACHES :: nat where "SLAB_NUM_CACHES = 12 - 5 + 1"
definition SIZE_MAX :: nat where "SIZE_MAX = 2 ^ 64 - 1"

definition PERF_MALLOC_COUNT :: nat where "PERF_MALLOC_COUNT = 5"
definition PERF_FREE_COUNT :: nat where "PERF_FREE_COUNT = 6"
definition PERF_MAX :: nat where "PERF_MAX = 9"

text \<open>The lists \<open>partial\<close> and \<open>full\<close> of the struct are set to NULL by \<open>slab_init\<close> and never used.\<close>

record slab_cache =
  sc_obj_size :: nat
  sc_objs_per_page :: nat
  sc_partial :: "nat option"
  sc_full :: "nat option"
  sc_free_list :: nat
  sc_growing :: bool

record heap =
  pm :: pmm
  slab_caches :: "nat \<Rightarrow> slab_cache"
  perf_counters :: "nat \<Rightarrow> u64"

definition set_cache :: "nat \<Rightarrow> (slab_cache \<Rightarrow> slab_cache) \<Rightarrow> heap \<Rightarrow> heap" where
  "set_cache i f st = st\<lparr> slab_caches := (slab_caches st)(i := f (slab_caches st i)) \<rparr>"

definition set_ram :: "(mem \<Rightarrow> mem) \<Rightarrow> heap \<Rightarrow> heap" where
  "set_ram f st = st\<lparr> pm := ram_update f (pm st) \<rparr>"

definition perf_inc :: "nat \<Rightarrow> heap \<Rightarrow> heap" where
  "perf_inc event st =
     (if event \<ge> PERF_MAX then st
      else st\<lparr> perf_counters := (perf_counters st)(event := perf_counters st event + 1) \<rparr>)"

section \<open>Caches\<close>

definition slab_size_to_index :: "nat \<Rightarrow> nat" where
  "slab_size_to_index sz =
     (if sz \<le> 32 then 0 else if sz \<le> 64 then 1 else if sz \<le> 128 then 2 else if sz \<le> 256 then 3
      else if sz \<le> 512 then 4 else if sz \<le> 1024 then 5 else if sz \<le> 2048 then 6 else 7)"

definition slab_index_to_size :: "nat \<Rightarrow> nat" where
  "slab_index_to_size idx = push_bit idx 32"

text \<open>The loop that cuts a page into objects and pushes each of them on the free list.\<close>

partial_function (option) slab_carve :: "nat \<Rightarrow> nat \<Rightarrow> nat \<Rightarrow> nat \<Rightarrow> heap \<Rightarrow> heap option" where
  "slab_carve base cache obj_size i st =
     (if i + obj_size \<le> PAGE_SIZE then
        slab_carve base cache obj_size (i + obj_size)
          (set_cache cache (sc_free_list_update (\<lambda>_. base + i))
            (set_ram (\<lambda>m. store64 m (base + i) (of_nat (sc_free_list (slab_caches st cache)))) st))
      else Some st)"

definition slab_grow :: "nat \<Rightarrow> heap \<Rightarrow> (heap \<times> int) option" where
  "slab_grow cache st = do {
     (s, page) \<leftarrow> alloc_page (pm st);
     (let st0 = st\<lparr> pm := s \<rparr>
      in case page of
           None \<Rightarrow> Some (st0, - 1)
         | Some base \<Rightarrow>
             let obj_size = sc_obj_size (slab_caches st0 cache);
                 obj_size1 = (if obj_size < 8 then 8 else obj_size);
                 obj_size2 = (obj_size1 + 8 - 1) div 8 * 8
             in do {
               st1 \<leftarrow> slab_carve base cache obj_size2 0 st0;
               Some (case get_page_struct (pm st1) base of
                   None \<Rightarrow> st1
                 | Some pg \<Rightarrow>
                     st1\<lparr> pm := set_page pg (\<lambda>p. p\<lparr> pg_flags := pg_flags p OR PAGE_FLAG_SLAB,
                       pg_slab_cache := Some cache \<rparr>) (pm st1) \<rparr>, 0) }) }"

primrec slab_init_loop :: "nat \<Rightarrow> nat \<Rightarrow> heap \<Rightarrow> heap" where
  "slab_init_loop i 0 st = st"
| "slab_init_loop i (Suc n) st =
     slab_init_loop (Suc i) n
       (set_cache i (\<lambda>c. c\<lparr> sc_obj_size := slab_index_to_size i,
          sc_objs_per_page := PAGE_SIZE div slab_index_to_size i,
          sc_partial := None, sc_full := None, sc_free_list := 0 \<rparr>) st)"

definition slab_init :: "heap \<Rightarrow> heap" where
  "slab_init st = slab_init_loop 0 SLAB_NUM_CACHES st"

section \<open>Allocation and release\<close>

text \<open>The code from the label \<open>slab_pop\<close> on.\<close>

definition slab_pop :: "nat \<Rightarrow> heap \<Rightarrow> heap \<times> nat" where
  "slab_pop cache st =
     (let obj = sc_free_list (slab_caches st cache);
          st1 = set_cache cache (sc_free_list_update (\<lambda>_. unat (load64 (ram (pm st)) obj))) st
      in (set_ram (\<lambda>m. fst (memset m obj 0 (sc_obj_size (slab_caches st1 cache)))) st1, obj))"

text \<open>
  With an empty free list, a set \<open>growing\<close> flag belongs to another caller that never proceeds here:
  both rereads of the cache find it unchanged and the allocation fails.
\<close>

definition kmalloc_slab :: "nat \<Rightarrow> heap \<Rightarrow> (heap \<times> nat) option" where
  "kmalloc_slab cache st =
     (if sc_free_list (slab_caches st cache) = 0 then
        if sc_growing (slab_caches st cache) then Some (st, 0)
        else do {
          (st1, ret) \<leftarrow> slab_grow cache (set_cache cache (sc_growing_update (\<lambda>_. True)) st);
          (let st2 = set_cache cache (sc_growing_update (\<lambda>_. False)) st1
           in if ret \<noteq> 0 then Some (st2, 0)
              else if sc_free_list (slab_caches st2 cache) = 0 then Some (st2, 0)
              else Some (slab_pop cache st2)) }
      else Some (slab_pop cache st))"

function kmalloc_order :: "nat \<Rightarrow> nat \<Rightarrow> nat" where
  "kmalloc_order pages_needed ord =
     (if 2 ^ ord < pages_needed \<and> ord \<le> MAX_ORDER then kmalloc_order pages_needed (ord + 1) else ord)"
  by pat_completeness auto
termination by (relation "measure (\<lambda>(n, o'). Suc MAX_ORDER - o')") auto

declare kmalloc_order.simps [simp del]

definition kmalloc :: "nat \<Rightarrow> heap \<Rightarrow> (heap \<times> nat) option" where
  "kmalloc sz st0 =
     (if sz = 0 then Some (st0, 0)
      else let st = perf_inc PERF_MALLOC_COUNT st0
           in if sz \<le> PAGE_SIZE then kmalloc_slab (slab_size_to_index sz) st
              else if sz > SIZE_MAX - PAGE_SIZE then Some (st, 0)
              else let ord = kmalloc_order ((sz + PAGE_SIZE - 1) div PAGE_SIZE) 0
                   in if ord > MAX_ORDER then Some (st, 0)
                      else do {
                        (s, page) \<leftarrow> alloc_pages ord (pm st);
                        Some (st\<lparr> pm := s \<rparr>, case page of None \<Rightarrow> 0 | Some pa \<Rightarrow> pa) })"

definition kfree :: "nat \<Rightarrow> heap \<Rightarrow> heap option" where
  "kfree pa st0 =
     (if pa = 0 then Some st0
      else let st = perf_inc PERF_FREE_COUNT st0; pg = get_page_struct (pm st) pa
           in case pg of
                None \<Rightarrow> do { s \<leftarrow> free_pages pa 0 (pm st); Some (st\<lparr> pm := s \<rparr>) }
              | Some q \<Rightarrow>
                  if has_flag (page_array (pm st) q) PAGE_FLAG_SLAB then
                    case pg_slab_cache (page_array (pm st) q) of
                      None \<Rightarrow> do { s \<leftarrow> free_page pa (pm st); Some (st\<lparr> pm := s \<rparr>) }
                    | Some cache \<Rightarrow>
                        let st1 = set_ram (\<lambda>m. fst (memset m pa 0 (sc_obj_size (slab_caches st cache)))) st;
                            st2 = set_ram (\<lambda>m. store64 m pa (of_nat (sc_free_list (slab_caches st1 cache)))) st1
                        in Some (set_cache cache (sc_free_list_update (\<lambda>_. pa)) st2)
                  else do {
                    s \<leftarrow> free_pages pa (pg_order (page_array (pm st) q)) (pm st);
                    Some (st\<lparr> pm := s \<rparr>) })"

section \<open>Statistics\<close>

partial_function (option) free_list_bytes :: "mem \<Rightarrow> nat \<Rightarrow> nat \<Rightarrow> nat \<Rightarrow> nat option" where
  "free_list_bytes m obj_size obj total_free =
     (if obj = 0 then Some total_free
      else free_list_bytes m obj_size (unat (load64 m obj)) (total_free + obj_size))"

primrec slab_stats_loop :: "nat \<Rightarrow> nat \<Rightarrow> heap \<Rightarrow> nat \<Rightarrow> nat option" where
  "slab_stats_loop i 0 st total_free = Some total_free"
| "slab_stats_loop i (Suc n) st total_free = do {
     t \<leftarrow> free_list_bytes (ram (pm st)) (sc_obj_size (slab_caches st i)) (sc_free_list (slab_caches st i)) total_free;
     slab_stats_loop (Suc i) n st t }"

definition slab_get_stats :: "heap \<Rightarrow> (nat \<times> nat) option" where
  "slab_get_stats st = do { t \<leftarrow> slab_stats_loop 0 SLAB_NUM_CACHES st 0; Some (0, t) }"

end
