(* ===== verification/SlabInv.thy ===== *)
theory SlabInv
  imports Slab
begin

text \<open>
  The invariant of the object allocator. Ghost data describes how memory is cut up: the blocks \<open>A\<close> in
  use at the page allocator, the map \<open>P\<close> from slab pages to their caches and the free list \<open>L i\<close> of
  each cache. The objects handed out are the slots of the slab pages that are on no free list and the
  blocks that are no slab page. The first part shows that all slots and blocks are disjoint regions,
  the second that the lists in memory survive writes to regions outside them.
\<close>

section \<open>Layout\<close>

definition frame_addr :: "nat \<Rightarrow> nat" where
  "frame_addr q = 0x100000 + q * PAGE_SIZE"

definition slots :: "(nat \<Rightarrow> nat option) \<Rightarrow> nat \<Rightarrow> nat set" where
  "slots P i = {frame_addr q + j * slab_index_to_size i | q j. P q = Some i \<and> j < PAGE_SIZE div slab_index_to_size i}"

definition large :: "block set \<Rightarrow> (nat \<Rightarrow> nat option) \<Rightarrow> (nat \<times> nat) set" where
  "large A P = {(frame_addr b, PAGE_SIZE * 2 ^ k) | b k. (b, k) \<in> A \<and> P b = None}"

definition cells :: "block set \<Rightarrow> (nat \<Rightarrow> nat option) \<Rightarrow> (nat \<times> nat) set" where
  "cells A P = {(a, slab_index_to_size i) | a i. a \<in> slots P i} \<union> large A P"

definition objects :: "block set \<Rightarrow> (nat \<Rightarrow> nat option) \<Rightarrow> (nat \<Rightarrow> nat list) \<Rightarrow> (nat \<times> nat) set" where
  "objects A P L = {(a, slab_index_to_size i) | a i. a \<in> slots P i - set (L i)} \<union> large A P"

definition layout :: "block set \<Rightarrow> (nat \<Rightarrow> nat option) \<Rightarrow> bool" where
  "layout A P \<longleftrightarrow> blocks_ok A \<and> (\<forall>q i. P q = Some i \<longrightarrow> i < SLAB_NUM_CACHES \<and> (q, 0) \<in> A)"

lemma index_to_size: "slab_index_to_size i = 32 * 2 ^ i"
  by (simp add: slab_index_to_size_def push_bit_eq_mult)

lemma index_cases: "i < SLAB_NUM_CACHES \<Longrightarrow> i \<in> {0, 1, 2, 3, 4, 5, 6, 7}"
  by (auto simp: SLAB_NUM_CACHES_def)

lemma slot_size:
  assumes "i < SLAB_NUM_CACHES"
  shows "slab_index_to_size i dvd PAGE_SIZE" "32 \<le> slab_index_to_size i" "slab_index_to_size i \<le> PAGE_SIZE"
    "slab_index_to_size i mod 8 = 0"
proof -
  have "slab_index_to_size i \<in> {32, 64, 128, 256, 512, 1024, 2048, 4096}"
    using index_cases [OF assms] by (auto simp: index_to_size)
  then show "slab_index_to_size i dvd PAGE_SIZE" "32 \<le> slab_index_to_size i" "slab_index_to_size i \<le> PAGE_SIZE"
    "slab_index_to_size i mod 8 = 0" by (auto simp: PAGE_SIZE_def)
qed

lemma slot_index:
  assumes "sz \<le> PAGE_SIZE"
  shows "slab_size_to_index sz < SLAB_NUM_CACHES" "sz \<le> slab_index_to_size (slab_size_to_index sz)"
  using assms by (auto simp: slab_size_to_index_def SLAB_NUM_CACHES_def index_to_size PAGE_SIZE_def)

lemma slot_in_page:
  assumes "(j :: nat) < n div s"
  shows "j * s + s \<le> n"
proof -
  have "(j + 1) * s \<le> n div s * s" using assms by (intro mult_right_mono) auto
  also have "\<dots> \<le> n" by simp
  finally show ?thesis by simp
qed

lemma multiples_disjoint:
  assumes "(j :: nat) \<noteq> j'"
  shows "disjoint_regions (a + j * s) s (a + j' * s) s"
proof -
  have "x * s + s \<le> y * s" if "x < y" for x y
    using mult_right_mono [of "x + 1" y s] that by simp
  then show ?thesis using assms unfolding disjoint_regions_def by (metis add.assoc linorder_neqE_nat nat_add_left_cancel_le)
qed

text \<open>Every cell lies in the frames of one block.\<close>

lemma cell_in_block:
  assumes "layout A P" "(a, n) \<in> cells A P"
  obtains c where "c \<in> A" "frame_addr (fst c) \<le> a" "a + n \<le> frame_addr (fst c + 2 ^ snd c)" "0 < n"
    "(P (fst c) = None \<and> a = frame_addr (fst c) \<and> n = PAGE_SIZE * 2 ^ snd c) \<or>
     (\<exists>i j. P (fst c) = Some i \<and> a = frame_addr (fst c) + j * n \<and> n = slab_index_to_size i)"
proof (cases "(a, n) \<in> large A P")
  case True
  then obtain b k where bk: "(b, k) \<in> A" "P b = None" "a = frame_addr b" "n = PAGE_SIZE * 2 ^ k"
    by (auto simp: large_def)
  show thesis by (rule that [of "(b, k)"]) (use bk in \<open>auto simp: frame_addr_def PAGE_SIZE_def algebra_simps\<close>)
next
  case False
  then obtain i q j where ij: "P q = Some i" "a = frame_addr q + j * n" "n = slab_index_to_size i" "j < PAGE_SIZE div n"
    using assms(2) by (auto simp: cells_def slots_def)
  then have q: "i < SLAB_NUM_CACHES" "(q, 0) \<in> A" using assms(1) by (auto simp: layout_def)
  show thesis
    by (rule that [of "(q, 0)"])
      (use ij q slot_in_page [OF ij(4)] slot_size(2) [OF q(1)] in \<open>auto simp: frame_addr_def algebra_simps\<close>)
qed

lemma blk_disjoint_regions:
  assumes "blk c \<inter> blk d = {}"
  shows "frame_addr (fst c + 2 ^ snd c) \<le> frame_addr (fst d) \<or> frame_addr (fst d + 2 ^ snd d) \<le> frame_addr (fst c)"
proof -
  have "fst c + 2 ^ snd c \<le> fst d \<or> fst d + 2 ^ snd d \<le> fst c"
  proof (rule ccontr)
    assume "\<not> ?thesis"
    then have "max (fst c) (fst d) \<in> blk c \<inter> blk d" by (auto simp: blk_def max_def)
    then show False using assms by simp
  qed
  then show ?thesis by (elim disjE) (simp_all add: frame_addr_def PAGE_SIZE_def)
qed

lemma cells_disjoint:
  assumes lay: "layout A P" and x: "(a, n) \<in> cells A P" "(b, k) \<in> cells A P" "(a, n) \<noteq> (b, k)"
  shows "disjoint_regions a n b k"
proof -
  obtain c where c: "c \<in> A" "frame_addr (fst c) \<le> a" "a + n \<le> frame_addr (fst c + 2 ^ snd c)"
    "(P (fst c) = None \<and> a = frame_addr (fst c) \<and> n = PAGE_SIZE * 2 ^ snd c) \<or>
     (\<exists>i j. P (fst c) = Some i \<and> a = frame_addr (fst c) + j * n \<and> n = slab_index_to_size i)"
    using cell_in_block [OF lay x(1)] by metis
  obtain d where d: "d \<in> A" "frame_addr (fst d) \<le> b" "b + k \<le> frame_addr (fst d + 2 ^ snd d)"
    "(P (fst d) = None \<and> b = frame_addr (fst d) \<and> k = PAGE_SIZE * 2 ^ snd d) \<or>
     (\<exists>i j. P (fst d) = Some i \<and> b = frame_addr (fst d) + j * k \<and> k = slab_index_to_size i)"
    using cell_in_block [OF lay x(2)] by metis
  show ?thesis
  proof (cases "c = d")
    case True
    then obtain j j' where j: "a = frame_addr (fst c) + j * n" "b = frame_addr (fst c) + j' * n" "k = n"
      using c(4) d(4) x(3) by auto
    then have "j \<noteq> j'" using x(3) by auto
    then show ?thesis using multiples_disjoint j by simp
  next
    case False
    then have "blk c \<inter> blk d = {}" using lay c(1) d(1) by (auto simp: layout_def blocks_ok_def)
    then show ?thesis using blk_disjoint_regions [of c d] c(2,3) d(2,3) unfolding disjoint_regions_def by linarith
  qed
qed

lemma cell_eq: "layout A P \<Longrightarrow> (a, n) \<in> cells A P \<Longrightarrow> (a, k) \<in> cells A P \<Longrightarrow> n = k"
  using cells_disjoint [of A P a n a k] cell_in_block [of A P a n] cell_in_block [of A P a k]
  unfolding disjoint_regions_def by (metis add_le_same_cancel1 leD prod.inject)

lemma objects_cells: "objects A P L \<subseteq> cells A P"
  by (auto simp: objects_def cells_def)

section \<open>Lists in memory\<close>

definition ptr_opt :: "nat \<Rightarrow> nat option" where
  "ptr_opt v = (if v = 0 then None else Some v)"

definition nxo :: "mem \<Rightarrow> nat \<Rightarrow> nat option" where
  "nxo m a = ptr_opt (unat (load64 m a))"

text \<open>The two memories agree outside a region.\<close>

definition same_outside :: "nat \<Rightarrow> nat \<Rightarrow> mem \<Rightarrow> mem \<Rightarrow> bool" where
  "same_outside a n m m' \<longleftrightarrow> (\<forall>x. x < a \<or> a + n \<le> x \<longrightarrow> m' x = m x)"

lemma same_outside_refl [simp]: "same_outside a n m m"
  by (simp add: same_outside_def)

lemma same_outside_trans: "same_outside a n m m1 \<Longrightarrow> same_outside a n m1 m2 \<Longrightarrow> same_outside a n m m2"
  by (simp add: same_outside_def)

lemma same_outside_sub: "same_outside b k m m' \<Longrightarrow> a \<le> b \<Longrightarrow> b + k \<le> a + n \<Longrightarrow> same_outside a n m m'"
  unfolding same_outside_def by (meson le_trans less_le_trans)

lemma same_outside_store: "8 \<le> n \<Longrightarrow> same_outside a n m (store64 m a v)"
  by (simp add: same_outside_def store64_def)

lemma same_outside_memset: "same_outside a n m (fst (memset m a c n))"
  by (simp add: same_outside_def memset_eq)

lemma load64_cong: "(\<And>x. a \<le> x \<Longrightarrow> x < a + 8 \<Longrightarrow> m x = m' x) \<Longrightarrow> load64 m a = load64 m' a"
  unfolding load64_def by (intro arg_cong [where f = of_nat] arg_cong [where f = bytes_val] map_cong) auto

lemma nxo_outside: "same_outside a n m m' \<Longrightarrow> disjoint_regions b 8 a n \<Longrightarrow> nxo m' b = nxo m b"
  unfolding nxo_def same_outside_def disjoint_regions_def
  by (intro arg_cong [where f = ptr_opt] arg_cong [where f = unat] load64_cong) auto

lemma bytes_val_digits: "bytes_val (map (\<lambda>i. of_nat (v div 256 ^ i)) [k..<k + n]) = v div 256 ^ k mod 256 ^ n"
proof (induction n arbitrary: k)
  case (Suc n)
  let ?w = "v div 256 ^ k"
  have "v div 256 ^ Suc k = ?w div 256" by (metis div_mult2_eq power_Suc2)
  moreover have "[k..<k + Suc n] = k # [Suc k..<Suc k + n]" by (simp add: upt_conv_Cons)
  moreover have "unat (of_nat ?w :: u8) = ?w mod 256" by (simp add: unat_of_nat)
  moreover have "?w mod 256 + 256 * (?w div 256 mod 256 ^ n) = ?w mod 256 ^ Suc n"
    by (simp add: mod_mult2_eq)
  ultimately show ?case using Suc.IH [of "Suc k"] by simp
qed simp

lemma load64_store64: "load64 (store64 m a v) a = v"
proof -
  have "map (store64 m a v) [a..<a + 8] = map (\<lambda>i. of_nat (unat v div 256 ^ i)) [0..<0 + 8]"
    by (rule nth_equalityI) (auto simp: store64_def)
  then have "load64 (store64 m a v) a = of_nat (unat v mod 256 ^ 8)"
    unfolding load64_def using bytes_val_digits [of "unat v" 0 8] by simp
  moreover have "unat v < 256 ^ 8" using unsigned_less [of v] by simp
  ultimately show ?thesis by simp
qed

lemma nxo_store: "v < 2 ^ 64 \<Longrightarrow> nxo (store64 m a (of_nat v)) a = ptr_opt v"
  by (simp add: nxo_def load64_store64 unat_of_nat take_bit_nat_eq_self_iff flip: take_bit_eq_mod)

lemma linked_outside:
  "linked (nxo m) p xs \<Longrightarrow> same_outside a n m m' \<Longrightarrow> (\<And>x. x \<in> set xs \<Longrightarrow> disjoint_regions x 8 a n) \<Longrightarrow>
   linked (nxo m') p xs"
  using linked_cong [of xs "nxo m'" "nxo m" p] nxo_outside by metis

section \<open>The invariant\<close>

definition cache_ok :: "heap \<Rightarrow> (nat \<Rightarrow> nat option) \<Rightarrow> nat \<Rightarrow> nat list \<Rightarrow> bool" where
  "cache_ok st P i xs \<longleftrightarrow> sc_obj_size (slab_caches st i) = slab_index_to_size i \<and> \<not> sc_growing (slab_caches st i) \<and>
     linked (nxo (ram (pm st))) (ptr_opt (sc_free_list (slab_caches st i))) xs \<and> set xs \<subseteq> slots P i"

definition slab_inv :: "heap \<Rightarrow> block set \<Rightarrow> (nat \<Rightarrow> nat option) \<Rightarrow> (nat \<Rightarrow> nat list) \<Rightarrow> bool" where
  "slab_inv st A P L \<longleftrightarrow> buddy_inv (pm st) A \<and>
     (\<forall>q i. P q = Some i \<longrightarrow> i < SLAB_NUM_CACHES \<and> (q, 0) \<in> A \<and> pg_slab_cache (page_array (pm st) q) = Some i) \<and>
     (\<forall>q. slab_page (pm st) q \<longleftrightarrow> P q \<noteq> None) \<and> (\<forall>i < SLAB_NUM_CACHES. cache_ok st P i (L i))"

lemma slab_layout: "slab_inv st A P L \<Longrightarrow> layout A P"
  unfolding slab_inv_def layout_def buddy_inv_def by (auto intro: blocks_ok_subset)

lemma slab_pfn: "slab_inv st A P L \<Longrightarrow> pfn_to_phys (pm st) q = frame_addr q"
  by (simp add: slab_inv_def buddy_inv_def bounds_ok_def pfn_to_phys_def frame_addr_def)

lemma slot_cell: "a \<in> slots P i \<Longrightarrow> (a, slab_index_to_size i) \<in> cells A P"
  by (auto simp: cells_def)

text \<open>A free slot is disjoint from every other cell, and so is the link stored in it.\<close>

lemma slot_apart:
  assumes lay: "layout A P" and x: "x \<in> slots P j" and c: "(a, n) \<in> cells A P" and ne: "x \<noteq> a"
  shows "disjoint_regions x 8 a n"
proof -
  have "j < SLAB_NUM_CACHES" using lay x by (auto simp: layout_def slots_def)
  then have "8 \<le> slab_index_to_size j" using slot_size(2) by fastforce
  moreover have "disjoint_regions x (slab_index_to_size j) a n"
    using cells_disjoint [OF lay slot_cell [OF x] c] ne by simp
  ultimately show ?thesis unfolding disjoint_regions_def by linarith
qed

lemma cell_start:
  assumes "slab_inv st A P L" "(a, n) \<in> cells A P"
  shows "0 < a" "a < 2 ^ 64"
proof -
  obtain c where c: "c \<in> A" "frame_addr (fst c) \<le> a" "a + n \<le> frame_addr (fst c + 2 ^ snd c)" "0 < n"
    using cell_in_block [OF slab_layout [OF assms(1)] assms(2)] by metis
  have "blk_ok c" using slab_layout [OF assms(1)] c(1) by (auto simp: layout_def blocks_ok_def)
  then have "fst c + 2 ^ snd c \<le> 65536" using blk_ok_le [of "fst c" "snd c"] by (simp add: BUDDY_MAX_PAGES_def)
  then have "frame_addr (fst c + 2 ^ snd c) \<le> frame_addr 65536" by (simp add: frame_addr_def)
  then have "a < frame_addr 65536" using c(3,4) by linarith
  also have "\<dots> < 2 ^ 64" by (simp add: frame_addr_def PAGE_SIZE_def)
  finally show "a < 2 ^ 64" .
  show "0 < a" using c(2) by (simp add: frame_addr_def)
qed

end
