(* ===== verification/SlabOps.thy ===== *)
theory SlabOps
  imports SlabInv
begin

text \<open>
  Each step of the object allocator on a state that satisfies the invariant: taking an object off a
  free list, putting one back, cutting a fresh page into objects, and the page-sized allocations.
\<close>

section \<open>Taking and returning a slot\<close>

lemma cache_ok_frame:
  assumes ok: "cache_ok st P j xs" and lay: "layout A P" and c: "(a, n) \<in> cells A P" "a \<notin> set xs"
    and m: "same_outside a n (ram (pm st)) (ram (pm st'))" and sc: "slab_caches st' j = slab_caches st j"
  shows "cache_ok st' P j xs"
proof -
  have "disjoint_regions x 8 a n" if "x \<in> set xs" for x
    using slot_apart [OF lay _ c(1)] ok that c(2) unfolding cache_ok_def by blast
  then have "linked (nxo (ram (pm st'))) (ptr_opt (sc_free_list (slab_caches st j))) xs"
    using linked_outside [OF _ m] ok unfolding cache_ok_def by blast
  then show ?thesis using ok sc unfolding cache_ok_def by simp
qed

text \<open>One list belongs to one cache: a slot of cache \<open>i\<close> is on no other list.\<close>

lemma slot_one_cache:
  assumes "layout A P" "a \<in> slots P i" "a \<in> slots P j"
  shows "i = j"
  using cell_eq [OF assms(1) slot_cell [OF assms(2)] slot_cell [OF assms(3)]] by (simp add: index_to_size)

text \<open>A step that writes to the slot \<open>a\<close> of cache \<open>i\<close> and changes the list of this cache only.\<close>

lemma slab_inv_slot_step:
  assumes inv: "slab_inv st A P L" and a: "a \<in> slots P i" and i: "i < SLAB_NUM_CACHES"
    and pm': "pm st' = ram_update f (pm st)" and m: "same_outside a (slab_index_to_size i) (ram (pm st)) (ram (pm st'))"
    and sc: "\<And>j. j \<noteq> i \<Longrightarrow> slab_caches st' j = slab_caches st j" and ok: "cache_ok st' P i ys"
  shows "slab_inv st' A P (L(i := ys))"
proof -
  have "cache_ok st' P j (L j)" if "j < SLAB_NUM_CACHES" "j \<noteq> i" for j
  proof (rule cache_ok_frame [OF _ slab_layout [OF inv] slot_cell [OF a] _ m sc [OF that(2)]])
    show c: "cache_ok st P j (L j)" using inv that by (simp add: slab_inv_def)
    show "a \<notin> set (L j)"
      using c slot_one_cache [OF slab_layout [OF inv] a, of j] that(2) unfolding cache_ok_def by blast
  qed
  then show ?thesis using inv ok unfolding slab_inv_def pm' by (simp add: has_flag_def)
qed

lemma slab_pop_ok:
  assumes inv: "slab_inv st A P L" and i: "i < SLAB_NUM_CACHES" and L: "L i = a # xs"
  shows "\<exists>st'. slab_pop i st = (st', a) \<and> slab_inv st' A P (L(i := xs)) \<and>
    ram (pm st') = (\<lambda>x. if a \<le> x \<and> x < a + slab_index_to_size i then 0 else ram (pm st) x)"
proof -
  let ?n = "slab_index_to_size i" and ?m = "ram (pm st)"
  have ok: "cache_ok st P i (a # xs)" using inv i L by (auto simp: slab_inv_def)
  then have a: "sc_free_list (slab_caches st i) = a" "a \<in> slots P i" "sc_obj_size (slab_caches st i) = ?n"
    and l: "linked (nxo ?m) (ptr_opt (unat (load64 ?m a))) xs"
    by (auto simp: cache_ok_def ptr_opt_def nxo_def split: if_splits)
  define st' where "st' = fst (slab_pop i st)"
  have st': "slab_pop i st = (st', a)" by (simp add: st'_def slab_pop_def a Let_def)
  have ram': "ram (pm st') = fst (memset ?m a 0 ?n)" "pm st' = ram_update (\<lambda>m. fst (memset m a 0 ?n)) (pm st)"
    by (simp_all add: st'_def slab_pop_def Let_def set_ram_def set_cache_def a)
  have m: "same_outside a ?n ?m (ram (pm st'))" unfolding ram'(1) by (rule same_outside_memset)
  have "distinct (a # xs)" using ok linked_distinct unfolding cache_ok_def by blast
  then have "disjoint_regions x 8 a ?n" if "x \<in> set xs" for x
    using slot_apart [OF slab_layout [OF inv] _ slot_cell [OF a(2)], of x i] ok that unfolding cache_ok_def by auto
  then have "cache_ok st' P i xs"
    using ok linked_outside [OF l m] by (simp add: cache_ok_def st'_def slab_pop_def Let_def set_ram_def set_cache_def a(1))
  then have "slab_inv st' A P (L(i := xs))"
    by (intro slab_inv_slot_step [OF inv a(2) i ram'(2) m])
      (simp_all add: st'_def slab_pop_def Let_def set_ram_def set_cache_def)
  then show ?thesis using st' ram'(1) by (auto simp: memset_eq cong: if_cong)
qed

text \<open>Pushing a slot, as \<open>kfree\<close> does.\<close>

definition slab_push :: "nat \<Rightarrow> nat \<Rightarrow> heap \<Rightarrow> heap" where
  "slab_push a i st = set_cache i (sc_free_list_update (\<lambda>_. a))
     (set_ram (\<lambda>m. store64 (fst (memset m a 0 (sc_obj_size (slab_caches st i)))) a (of_nat (sc_free_list (slab_caches st i)))) st)"

lemma slab_push_ok:
  assumes inv: "slab_inv st A P L" and i: "i < SLAB_NUM_CACHES" and a: "a \<in> slots P i" "a \<notin> set (L i)"
  shows "slab_inv (slab_push a i st) A P (L(i := a # L i))"
    "same_outside a (slab_index_to_size i) (ram (pm st)) (ram (pm (slab_push a i st)))"
proof -
  let ?n = "slab_index_to_size i" and ?m = "ram (pm st)" and ?f = "sc_free_list (slab_caches st i)" and ?st = "slab_push a i st"
  have ok: "cache_ok st P i (L i)" using inv i by (auto simp: slab_inv_def)
  then have n: "sc_obj_size (slab_caches st i) = ?n" by (simp add: cache_ok_def)
  have ram': "ram (pm ?st) = store64 (fst (memset ?m a 0 ?n)) a (of_nat ?f)"
    "pm ?st = ram_update (\<lambda>m. store64 (fst (memset m a 0 ?n)) a (of_nat ?f)) (pm st)"
    by (simp_all add: slab_push_def set_ram_def set_cache_def n)
  have "8 \<le> ?n" using slot_size(2) [OF i] by simp
  then show m: "same_outside a ?n ?m (ram (pm ?st))" unfolding ram'(1)
    using same_outside_trans [OF same_outside_memset same_outside_store] by blast
  have "?f < 2 ^ 64"
  proof (cases "L i")
    case (Cons b ys)
    then have "?f = b" "b \<in> slots P i" using ok by (auto simp: cache_ok_def ptr_opt_def split: if_splits)
    then show ?thesis using cell_start(2) [OF inv slot_cell] by blast
  qed (use ok in \<open>simp add: cache_ok_def ptr_opt_def split: if_splits\<close>)
  then have "nxo (ram (pm ?st)) a = ptr_opt ?f" unfolding ram'(1) by (rule nxo_store)
  moreover have "linked (nxo (ram (pm ?st))) (ptr_opt ?f) (L i)"
    using linked_outside [OF _ m] slot_apart [OF slab_layout [OF inv] _ slot_cell [OF a(1)]] ok a(2)
    unfolding cache_ok_def by (metis subsetD)
  moreover have "a \<noteq> 0" using cell_start(1) [OF inv slot_cell [OF a(1)]] by simp
  ultimately have "cache_ok ?st P i (a # L i)"
    using ok a(1) by (simp add: cache_ok_def slab_push_def set_ram_def set_cache_def ptr_opt_def)
  then show "slab_inv ?st A P (L(i := a # L i))"
    by (intro slab_inv_slot_step [OF inv a(1) i ram'(2) m]) (simp_all add: slab_push_def set_ram_def set_cache_def)
qed

section \<open>Cutting a page\<close>

definition page_slots :: "nat \<Rightarrow> nat \<Rightarrow> nat \<Rightarrow> nat list" where
  "page_slots base s k = map (\<lambda>j. base + j * s) (rev [0..<k])"

lemma page_slots_Suc: "page_slots base s (Suc k) = (base + k * s) # page_slots base s k"
  by (simp add: page_slots_def)

definition carved :: "nat \<Rightarrow> nat \<Rightarrow> nat \<Rightarrow> nat \<Rightarrow> heap \<Rightarrow> heap \<Rightarrow> bool" where
  "carved base i s k st st' \<longleftrightarrow> (\<exists>m f. pm st' = ram_update (\<lambda>_. m) (pm st) \<and> same_outside base PAGE_SIZE (ram (pm st)) m \<and>
     slab_caches st' = (slab_caches st)(i := sc_free_list_update (\<lambda>_. f) (slab_caches st i)) \<and>
     linked (nxo m) (ptr_opt f) (page_slots base s k) \<and> f < 2 ^ 64 \<and> perf_counters st' = perf_counters st)"

lemma carve_step:
  assumes c: "carved base i s k st0 st" and s: "8 \<le> s" "k * s + s \<le> PAGE_SIZE" and b: "0 < base" "base + PAGE_SIZE < 2 ^ 64"
  shows "carved base i s (Suc k) st0 (set_cache i (sc_free_list_update (\<lambda>_. base + k * s))
    (set_ram (\<lambda>m. store64 m (base + k * s) (of_nat (sc_free_list (slab_caches st i)))) st))"
proof -
  obtain m f where st: "pm st = ram_update (\<lambda>_. m) (pm st0)" "slab_caches st = (slab_caches st0)(i := sc_free_list_update (\<lambda>_. f) (slab_caches st0 i))"
      "perf_counters st = perf_counters st0"
    and m: "same_outside base PAGE_SIZE (ram (pm st0)) m" "linked (nxo m) (ptr_opt f) (page_slots base s k)" "f < 2 ^ 64"
    using c unfolding carved_def by blast
  let ?a = "base + k * s"
  let ?m = "store64 m ?a (of_nat f)"
  have w: "same_outside ?a s m ?m" using s(1) by (rule same_outside_store)
  have "disjoint_regions x 8 ?a s" if x: "x \<in> set (page_slots base s k)" for x
  proof -
    have "\<exists>j < k. x = base + j * s" using x by (auto simp: page_slots_def)
    then obtain j where j: "x = base + j * s" "j < k" by blast
    then have "disjoint_regions x s ?a s" using multiples_disjoint [of j k base s] by simp
    then show ?thesis using s(1) unfolding disjoint_regions_def by linarith
  qed
  then have "linked (nxo ?m) (ptr_opt f) (page_slots base s k)" using linked_outside [OF m(2) w] by blast
  moreover have "nxo ?m ?a = ptr_opt f" using m(3) by (rule nxo_store)
  ultimately have "linked (nxo ?m) (ptr_opt ?a) (page_slots base s (Suc k))"
    using b(1) by (simp add: page_slots_Suc ptr_opt_def)
  moreover have "same_outside base PAGE_SIZE (ram (pm st0)) ?m"
    using same_outside_trans [OF m(1) same_outside_sub [OF w]] s(2) by simp
  ultimately show ?thesis unfolding carved_def
    by (intro exI [of _ ?m] exI [of _ ?a]) (use st s(2) b in \<open>simp add: set_cache_def set_ram_def\<close>)
qed

lemma slab_carve_ok:
  assumes s: "8 \<le> s" "s dvd PAGE_SIZE" and b: "0 < base" "base + PAGE_SIZE < 2 ^ 64"
    and c: "carved base i s k st0 st" "k \<le> PAGE_SIZE div s"
  shows "\<exists>st'. slab_carve base i s (k * s) st = Some st' \<and> carved base i s (PAGE_SIZE div s) st0 st'"
  using c
proof (induction "PAGE_SIZE div s - k" arbitrary: k st)
  case 0
  then have k: "k = PAGE_SIZE div s" by simp
  then have "k * s = PAGE_SIZE" using s(2) by simp
  then show ?case using 0(2) k s(1) by (subst slab_carve.simps) auto
next
  case (Suc n)
  then have "k < PAGE_SIZE div s" by simp
  then have le: "k * s + s \<le> PAGE_SIZE" by (rule slot_in_page)
  have "n = PAGE_SIZE div s - Suc k" "Suc k \<le> PAGE_SIZE div s" using Suc.hyps(2) by simp_all
  from Suc.hyps(1) [OF this(1) carve_step [OF Suc.prems(1) s(1) le b] this(2)] show ?case
    using le by (subst slab_carve.simps) (simp add: add.commute)
qed

lemma page_slots_set: "set (page_slots (frame_addr q) (slab_index_to_size i) (PAGE_SIZE div slab_index_to_size i)) =
    {frame_addr q + j * slab_index_to_size i | j. j < PAGE_SIZE div slab_index_to_size i}"
  by (auto simp: page_slots_def)

lemma slots_new_page:
  "slots (P(q \<mapsto> i)) j = slots (P(q := None)) j \<union> (if j = i then set (page_slots (frame_addr q) (slab_index_to_size i) (PAGE_SIZE div slab_index_to_size i)) else {})"
  unfolding slots_def page_slots_set by auto

lemma fresh_block:
  assumes "alloc_success s A ord s' b"
  shows "c \<in> A \<Longrightarrow> fst c \<noteq> b" "(b, ord) \<notin> A"
  using assms blk_nonempty(1) [of "(b, ord)"] by (auto simp: alloc_success_def blk_def)

lemma slot_frame:
  assumes "layout A P" "a \<in> slots P j"
  shows "\<exists>q. P q = Some j \<and> frame_addr q \<le> a \<and> a < frame_addr q + PAGE_SIZE"
proof -
  obtain q i where q: "P q = Some j" "a = frame_addr q + i * slab_index_to_size j" "i < PAGE_SIZE div slab_index_to_size j"
    using assms(2) by (auto simp: slots_def)
  then have "j < SLAB_NUM_CACHES" using assms(1) by (auto simp: layout_def)
  then show ?thesis using q slot_in_page [OF q(3)] slot_size(2) [of j] by (intro exI [of _ q]) simp
qed

lemma frame_unique: "frame_addr q \<le> a \<Longrightarrow> a < frame_addr q + PAGE_SIZE \<Longrightarrow> (a - 0x100000) div PAGE_SIZE = q"
  by (auto simp: frame_addr_def PAGE_SIZE_def intro!: div_nat_eqI)

lemma frame_not_slot:
  assumes "layout A P" "P b = None"
  shows "frame_addr b \<notin> slots P j"
proof
  assume "frame_addr b \<in> slots P j"
  then obtain q where q: "P q = Some j" "frame_addr q \<le> frame_addr b" "frame_addr b < frame_addr q + PAGE_SIZE"
    using slot_frame [OF assms(1)] by blast
  then have "q = b" using frame_unique [OF q(2,3)] frame_unique [of b "frame_addr b"] by (simp add: PAGE_SIZE_def)
  then show False using q(1) assms(2) by simp
qed

text \<open>After a page or block has been allocated, everything the caches know is still true.\<close>

lemma slab_inv_alloc:
  assumes inv: "slab_inv st A P L" and al: "alloc_pages ord (pm st) = Some (s, Some (frame_addr b))" "alloc_success (pm st) A ord s b"
  shows "slab_inv (st\<lparr> pm := s \<rparr>) (insert (b, ord) A) P L" "P b = None"
    "ram s = (\<lambda>x. if frame_addr b \<le> x \<and> x < frame_addr b + PAGE_SIZE * 2 ^ ord then 0 else ram (pm st) x)"
proof -
  have bi: "buddy_inv (pm st) A" and bi': "buddy_inv s (insert (b, ord) A)" using inv al(2) by (simp_all add: slab_inv_def alloc_success_def)
  note k = alloc_keeps [OF al(1) bi al(2) slab_pfn [OF inv, symmetric]]
  show Pb: "P b = None" using inv fresh_block(1) [OF al(2)] unfolding slab_inv_def by (metis fst_conv not_None_eq)
  show r: "ram s = (\<lambda>x. if frame_addr b \<le> x \<and> x < frame_addr b + PAGE_SIZE * 2 ^ ord then 0 else ram (pm st) x)"
    using al(2) by (simp add: alloc_success_def slab_pfn [OF inv])
  have lay: "layout (insert (b, ord) A) P"
    using slab_layout [OF inv] bi' by (auto simp: layout_def buddy_inv_def intro: blocks_ok_subset)
  have c: "(frame_addr b, PAGE_SIZE * 2 ^ ord) \<in> cells (insert (b, ord) A) P" using Pb by (auto simp: cells_def large_def)
  have "cache_ok (st\<lparr> pm := s \<rparr>) P j (L j)" if j: "j < SLAB_NUM_CACHES" for j
  proof (rule cache_ok_frame [OF _ lay c])
    show ok: "cache_ok st P j (L j)" using inv j by (simp add: slab_inv_def)
    show "frame_addr b \<notin> set (L j)" using frame_not_slot [OF lay Pb] ok unfolding cache_ok_def by blast
    show "same_outside (frame_addr b) (PAGE_SIZE * 2 ^ ord) (ram (pm st)) (ram (pm (st\<lparr> pm := s \<rparr>)))"
      by (simp add: r same_outside_def)
  qed simp
  moreover have "slab_page s q \<longleftrightarrow> P q \<noteq> None" for q
    using inv k unfolding slab_inv_def by (metis fst_conv has_flag_def not_None_eq)
  ultimately show "slab_inv (st\<lparr> pm := s \<rparr>) (insert (b, ord) A) P L"
    using inv bi' k unfolding slab_inv_def by simp
qed

section \<open>Growing a cache\<close>

definition owned_by :: "nat \<Rightarrow> nat \<Rightarrow> heap \<Rightarrow> heap" where
  "owned_by b i st = st\<lparr> pm := set_page b (\<lambda>p. p\<lparr> pg_flags := pg_flags p OR PAGE_FLAG_SLAB, pg_slab_cache := Some i \<rparr>) (pm st) \<rparr>"

abbreviation fresh_slots :: "nat \<Rightarrow> nat \<Rightarrow> nat list" where
  "fresh_slots b i \<equiv> page_slots (frame_addr b) (slab_index_to_size i) (PAGE_SIZE div slab_index_to_size i)"

abbreviation set_growing :: "nat \<Rightarrow> bool \<Rightarrow> heap \<Rightarrow> heap" where
  "set_growing i g \<equiv> set_cache i (sc_growing_update (\<lambda>_. g))"

lemma slab_adopt:
  assumes inv: "slab_inv st B P L" and b: "(b, 0) \<in> B" "P b = None" and i: "i < SLAB_NUM_CACHES" "L i = []"
    and c: "carved (frame_addr b) i (slab_index_to_size i) (PAGE_SIZE div slab_index_to_size i) (set_growing i True st) st2"
  shows "slab_inv (set_growing i False (owned_by b i st2)) B (P(b \<mapsto> i)) (L(i := fresh_slots b i))"
    "same_outside (frame_addr b) PAGE_SIZE (ram (pm st)) (ram (pm st2))"
proof -
  obtain m f where st2: "pm st2 = ram_update (\<lambda>_. m) (pm st)"
      "slab_caches st2 = (slab_caches (set_growing i True st))(i := sc_free_list_update (\<lambda>_. f) (slab_caches (set_growing i True st) i))"
    and m: "same_outside (frame_addr b) PAGE_SIZE (ram (pm st)) m" "linked (nxo m) (ptr_opt f) (fresh_slots b i)"
    using c unfolding carved_def by (auto simp: set_cache_def)
  let ?st = "set_growing i False (owned_by b i st2)"
  show m2: "same_outside (frame_addr b) PAGE_SIZE (ram (pm st)) (ram (pm st2))" using m(1) st2(1) by simp
  have cell: "(frame_addr b, PAGE_SIZE) \<in> cells B P" using b by (force simp: cells_def large_def)
  have sub: "slots P j \<subseteq> slots (P(b \<mapsto> i)) j" for j using b(2) by (simp add: slots_new_page fun_upd_idem)
  have "cache_ok ?st (P(b \<mapsto> i)) j (L j)" if j: "j < SLAB_NUM_CACHES" "j \<noteq> i" for j
  proof -
    have ok: "cache_ok st P j (L j)" using inv j by (simp add: slab_inv_def)
    have "cache_ok ?st P j (L j)"
    proof (rule cache_ok_frame [OF ok slab_layout [OF inv] cell])
      show "frame_addr b \<notin> set (L j)" using frame_not_slot [OF slab_layout [OF inv] b(2)] ok unfolding cache_ok_def by blast
      show "same_outside (frame_addr b) PAGE_SIZE (ram (pm st)) (ram (pm ?st))"
        using m2 by (simp add: owned_by_def set_page_def set_cache_def)
      show "slab_caches ?st j = slab_caches st j" using j(2) by (simp add: owned_by_def st2 set_cache_def)
    qed
    then show ?thesis using sub unfolding cache_ok_def by blast
  qed
  moreover have "cache_ok ?st (P(b \<mapsto> i)) i (fresh_slots b i)"
    using inv i m(2) by (simp add: slab_inv_def cache_ok_def owned_by_def st2 set_cache_def set_page_def slots_new_page)
  moreover have "buddy_inv (pm ?st) B"
    using inv buddy_inv_owner [of "pm st2" B b "Some i"] by (simp add: slab_inv_def owned_by_def set_cache_def st2(1))
  moreover have "slab_page (pm ?st) q \<longleftrightarrow> (P(b \<mapsto> i)) q \<noteq> None" for q
  proof -
    have "slab_page (pm st) q \<longleftrightarrow> P q \<noteq> None" using inv by (simp add: slab_inv_def)
    then show ?thesis by (auto simp: owned_by_def set_cache_def set_page_def st2(1) flag_is_bit bit_or_iff free_bits)
  qed
  ultimately show "slab_inv ?st B (P(b \<mapsto> i)) (L(i := fresh_slots b i))"
    using inv i(1) b unfolding slab_inv_def by (simp add: owned_by_def set_cache_def set_page_def st2(1))
qed

lemma round_size: "i < SLAB_NUM_CACHES \<Longrightarrow> (slab_index_to_size i + 8 - 1) div 8 * 8 = slab_index_to_size i"
  using slot_size(4) [of i] by auto

lemma slab_grow_fails:
  assumes "alloc_pages 0 (pm st) = Some (pm st, None)"
  shows "slab_grow i (set_growing i True st) = Some (set_growing i True st, - 1)"
  using assms by (simp add: slab_grow_def alloc_page_def set_cache_def)

lemma slab_grow_ok:
  assumes inv: "slab_inv st A P L" and i: "i < SLAB_NUM_CACHES" "L i = []"
    and al: "alloc_pages 0 (pm st) = Some (s, Some (frame_addr b))" "alloc_success (pm st) A 0 s b"
  shows "\<exists>st'. slab_grow i (set_growing i True st) = Some (st', 0) \<and>
    slab_inv (set_growing i False st') (insert (b, 0) A) (P(b \<mapsto> i)) (L(i := fresh_slots b i)) \<and>
    same_outside (frame_addr b) PAGE_SIZE (ram (pm st)) (ram (pm st'))"
proof -
  let ?n = "slab_index_to_size i" and ?st = "st\<lparr> pm := s \<rparr>"
  note fresh = slab_inv_alloc [OF inv al]
  have n: "8 \<le> ?n" "sc_obj_size (slab_caches st i) = ?n" "sc_free_list (slab_caches st i) = 0"
    using slot_size(2) [OF i(1)] inv i by (auto simp: slab_inv_def cache_ok_def ptr_opt_def split: if_splits)
  have B: "b + 1 \<le> total_phys_pages s" "total_phys_pages s \<le> BUDDY_MAX_PAGES" "phys_mem_base s = 0x100000"
    using fresh(1) by (auto simp: slab_inv_def buddy_inv_def bounds_ok_def)
  have base: "0 < frame_addr b" "frame_addr b + PAGE_SIZE < 2 ^ 64"
    using B by (simp_all add: frame_addr_def PAGE_SIZE_def BUDDY_MAX_PAGES_def)
  have "slab_caches st i\<lparr> sc_growing := True, sc_free_list := 0 \<rparr> = slab_caches st i\<lparr> sc_growing := True \<rparr>"
    using n(3) by (cases "slab_caches st i") simp
  then have "carved (frame_addr b) i ?n 0 (set_growing i True ?st) (set_growing i True ?st)" unfolding carved_def
    by (intro exI [of _ "ram s"] exI [of _ 0]) (simp add: set_cache_def page_slots_def ptr_opt_def)
  from slab_carve_ok [OF n(1) slot_size(1) [OF i(1)] base this] obtain st2 where
    st2: "slab_carve (frame_addr b) i ?n 0 (set_growing i True ?st) = Some st2"
      "carved (frame_addr b) i ?n (PAGE_SIZE div ?n) (set_growing i True ?st) st2" by auto
  have "total_phys_pages (pm st2) = total_phys_pages s" "phys_mem_base (pm st2) = phys_mem_base s"
    using st2(2) by (auto simp: carved_def set_cache_def)
  then have g: "get_page_struct (pm st2) (frame_addr b) = Some b"
    using B by (simp add: get_page_struct_def phys_to_pfn_def frame_addr_def PAGE_SIZE_def)
  have "(set_growing i True st)\<lparr> pm := s \<rparr> = set_growing i True ?st" by (cases st) (simp add: set_cache_def)
  moreover have "pm (set_growing i True st) = pm st" "sc_obj_size (slab_caches (set_growing i True ?st) i) = ?n"
    using n(2) by (simp_all add: set_cache_def)
  ultimately have "slab_grow i (set_growing i True st) = Some (owned_by b i st2, 0)"
    using al(1) st2(1) g n(1) round_size [OF i(1)]
    by (simp add: slab_grow_def alloc_page_def owned_by_def Let_def)
  moreover have "same_outside (frame_addr b) PAGE_SIZE (ram (pm st)) (ram (pm st2))"
    using same_outside_trans [of _ _ _ "ram s"] slab_adopt(2) [OF fresh(1) _ fresh(2) i st2(2)] fresh(3)
    by (simp add: same_outside_def)
  ultimately show ?thesis using slab_adopt(1) [OF fresh(1) _ fresh(2) i st2(2)]
    by (simp add: owned_by_def set_page_def)
qed

section \<open>Bookkeeping of objects\<close>

lemma tag_insert:
  "{(x, f j) | x j. x \<in> (if j = i then insert a (X i) else X j)} = insert (a, f i) {(x, f j) | x j. x \<in> X j}"
proof (rule set_eqI)
  fix y
  show "y \<in> {(x, f j) | x j. x \<in> (if j = i then insert a (X i) else X j)} \<longleftrightarrow> y \<in> insert (a, f i) {(x, f j) | x j. x \<in> X j}"
    by (simp only: mem_Collect_eq insert_iff) (metis insert_iff)
qed

lemma objects_pop:
  assumes "layout A P" "L i = a # xs" "a \<in> slots P i" "a \<notin> set xs"
  shows "objects A P (L(i := xs)) = insert (a, slab_index_to_size i) (objects A P L)"
    "(a, slab_index_to_size i) \<notin> objects A P L"
proof -
  have j: "i = j" if "a \<in> slots P j" for j using slot_one_cache [OF assms(1,3) that] .
  have "slots P j - set ((L(i := xs)) j) = (if j = i then insert a (slots P i - set (L i)) else slots P j - set (L j))" for j
    using assms by auto
  then show "objects A P (L(i := xs)) = insert (a, slab_index_to_size i) (objects A P L)"
    unfolding objects_def by (simp only: tag_insert [of slab_index_to_size i a "\<lambda>j. slots P j - set (L j)"] Un_insert_left)
  have "(a, slab_index_to_size i) \<notin> large A P"
    using frame_not_slot [OF assms(1)] assms(3) by (auto simp: large_def)
  then show "(a, slab_index_to_size i) \<notin> objects A P L"
    using assms(2) j by (auto simp: objects_def index_to_size)
qed

lemma objects_push:
  assumes "layout A P" "a \<in> slots P i" "a \<notin> set (L i)"
  shows "objects A P (L(i := a # L i)) = objects A P L - {(a, slab_index_to_size i)}"
proof -
  have "(a, slab_index_to_size i) \<notin> objects A P (L(i := a # L i))"
    "objects A P L = insert (a, slab_index_to_size i) (objects A P (L(i := a # L i)))"
    using objects_pop [OF assms(1), of "L(i := a # L i)" i a "L i"] assms by simp_all
  then show ?thesis by blast
qed

lemma objects_grow:
  assumes "layout (insert (b, 0) A) (P(b \<mapsto> i))" "P b = None" "L i = []" "\<And>k. (b, k) \<notin> A"
  shows "objects (insert (b, 0) A) (P(b \<mapsto> i)) (L(i := fresh_slots b i)) = objects A P L"
proof -
  have "slots P i \<inter> set (fresh_slots b i) = {}"
  proof (rule ccontr)
    assume "slots P i \<inter> set (fresh_slots b i) \<noteq> {}"
    then obtain a where a: "a \<in> slots P i" "a \<in> slots ((\<lambda>_. None)(b \<mapsto> i)) i" by (auto simp: slots_new_page)
    have "(P(b \<mapsto> i)) q = Some j" if "P q = Some j \<or> ((\<lambda>_. None)(b \<mapsto> i)) q = Some j" for q j
      using that assms(2) by (auto split: if_splits)
    then have "layout (insert (b, 0) A) P" "layout (insert (b, 0) A) ((\<lambda>_. None)(b \<mapsto> i))"
      using assms(1) unfolding layout_def by blast+
    then obtain q q' where "P q = Some i" "((\<lambda>_. None)(b \<mapsto> i)) q' = Some i" "(a - 0x100000) div PAGE_SIZE = q" "(a - 0x100000) div PAGE_SIZE = q'"
      using slot_frame [OF _ a(1)] slot_frame [OF _ a(2)] frame_unique by blast
    then show False using assms(2) by (auto split: if_splits)
  qed
  moreover have "slots (P(b \<mapsto> i)) j = (if j = i then slots P j \<union> set (fresh_slots b i) else slots P j)" for j
    using assms(2) by (simp add: slots_new_page fun_upd_idem)
  ultimately have "slots (P(b \<mapsto> i)) j - set ((L(i := fresh_slots b i)) j) = slots P j - set (L j)" for j
    using assms(3) by auto
  moreover have "(c, k) \<in> insert (b, 0) A \<and> (P(b \<mapsto> i)) c = None \<longleftrightarrow> (c, k) \<in> A \<and> P c = None" for c k
    using assms(4) by auto
  then have "large (insert (b, 0) A) (P(b \<mapsto> i)) = large A P" unfolding large_def by (simp only:)
  ultimately show ?thesis unfolding objects_def by simp
qed

end
