(* ===== verification/SlabProps.thy ===== *)
theory SlabProps
  imports SlabOps
begin

text \<open>
  What \<open>kmalloc\<close> and \<open>kfree\<close> promise, over the set of objects handed out, and the clients that use
  nothing but this promise.
\<close>

section \<open>The heap as a set of objects\<close>

definition heap_inv :: "heap \<Rightarrow> (nat \<times> nat) set \<Rightarrow> bool" where
  "heap_inv st Ob \<longleftrightarrow> (\<exists>A P L. slab_inv st A P L \<and> Ob = objects A P L)"

definition pages_needed :: "nat \<Rightarrow> nat" where
  "pages_needed sz = (sz + PAGE_SIZE - 1) div PAGE_SIZE"

text \<open>The size of the object that a request for \<open>sz\<close> bytes gets.\<close>

definition usable :: "nat \<Rightarrow> nat" where
  "usable sz = (if sz \<le> PAGE_SIZE then slab_index_to_size (slab_size_to_index sz)
     else PAGE_SIZE * 2 ^ kmalloc_order (pages_needed sz) 0)"

definition kept :: "(nat \<times> nat) set \<Rightarrow> mem \<Rightarrow> mem \<Rightarrow> bool" where
  "kept Ob m m' \<longleftrightarrow> (\<forall>(a, n) \<in> Ob. \<forall>x. a \<le> x \<longrightarrow> x < a + n \<longrightarrow> m' x = m x)"

definition needed_order :: "nat \<Rightarrow> nat" where
  "needed_order sz = (if sz \<le> PAGE_SIZE then 0 else kmalloc_order (pages_needed sz) 0)"

definition kmalloc_fails :: "nat \<Rightarrow> pmm \<Rightarrow> bool" where
  "kmalloc_fails sz s \<longleftrightarrow> sz = 0 \<or> sz > PAGE_SIZE * 2 ^ MAX_ORDER \<or> (\<forall>c \<in> free_blocks s. snd c < needed_order sz)"

definition kmalloc_result :: "nat \<Rightarrow> heap \<Rightarrow> (nat \<times> nat) set \<Rightarrow> heap \<Rightarrow> nat \<Rightarrow> bool" where
  "kmalloc_result sz st Ob st' a \<longleftrightarrow>
     (if a = 0 then kmalloc_fails sz (pm st) \<and> heap_inv st' Ob \<and> ram (pm st') = ram (pm st)
      else sz \<le> usable sz \<and> (a, usable sz) \<notin> Ob \<and> heap_inv st' (insert (a, usable sz) Ob) \<and>
        (\<forall>x. a \<le> x \<longrightarrow> x < a + usable sz \<longrightarrow> ram (pm st') x = 0) \<and> kept Ob (ram (pm st)) (ram (pm st')))"

lemma perf_inc_simps [simp]: "pm (perf_inc e st) = pm st" "slab_caches (perf_inc e st) = slab_caches st"
  by (simp_all add: perf_inc_def)

lemma slab_inv_perf [simp]: "slab_inv (perf_inc e st) A P L = slab_inv st A P L"
  by (simp add: slab_inv_def cache_ok_def)

lemma heap_inv_perf [simp]: "heap_inv (perf_inc e st) Ob = heap_inv st Ob"
  by (simp add: heap_inv_def)

lemma heap_disjoint:
  assumes "heap_inv st Ob" "x \<in> Ob" "y \<in> Ob" "x \<noteq> y"
  shows "disjoint_regions (fst x) (snd x) (fst y) (snd y)"
proof -
  obtain A P L where i: "slab_inv st A P L" "Ob = objects A P L" using assms(1) by (auto simp: heap_inv_def)
  then have "x \<in> cells A P" "y \<in> cells A P" using assms(2,3) objects_cells by blast+
  then show ?thesis using cells_disjoint [OF slab_layout [OF i(1)], of "fst x" "snd x" "fst y" "snd y"] assms(4) by simp
qed

lemma cells_mono: "A \<subseteq> B \<Longrightarrow> cells A P \<subseteq> cells B P"
  unfolding cells_def large_def by blast

lemma kept_outside:
  assumes lay: "layout A P" and c: "(a, n) \<in> cells A P" and Ob: "Ob \<subseteq> cells A P - {(a, n)}" and m: "same_outside a n m m'"
  shows "kept Ob m m'"
  unfolding kept_def
proof (clarify)
  fix b k x assume b: "(b, k) \<in> Ob" and x: "b \<le> x" "x < b + k"
  have "disjoint_regions b k a n" using cells_disjoint [OF lay _ c, of b k] Ob b by blast
  then show "m' x = m x" using m x unfolding same_outside_def disjoint_regions_def by auto
qed

section \<open>Requests served by a cache\<close>

lemma pop_result:
  assumes inv: "slab_inv st A P L" and i: "i < SLAB_NUM_CACHES" and L: "L i = a # xs"
  shows "\<exists>st'. slab_pop i st = (st', a) \<and> a \<noteq> 0 \<and> (a, slab_index_to_size i) \<notin> objects A P L \<and>
    heap_inv st' (insert (a, slab_index_to_size i) (objects A P L)) \<and>
    (\<forall>x. a \<le> x \<longrightarrow> x < a + slab_index_to_size i \<longrightarrow> ram (pm st') x = 0) \<and> kept (objects A P L) (ram (pm st)) (ram (pm st'))"
proof -
  obtain st' where st': "slab_pop i st = (st', a)" "slab_inv st' A P (L(i := xs))"
    "ram (pm st') = (\<lambda>x. if a \<le> x \<and> x < a + slab_index_to_size i then 0 else ram (pm st) x)"
    using slab_pop_ok [OF inv i L] by blast
  have ok: "cache_ok st P i (a # xs)" using inv i L by (auto simp: slab_inv_def)
  then have a: "a \<in> slots P i" "a \<notin> set xs" using linked_distinct unfolding cache_ok_def by fastforce+
  note op = objects_pop [of A P L i a xs, OF slab_layout [OF inv] L a]
  have "kept (objects A P L) (ram (pm st)) (ram (pm st'))"
    using op(2) objects_cells by (intro kept_outside [OF slab_layout [OF inv] slot_cell [OF a(1)]]) (auto simp: st'(3) same_outside_def)
  moreover have "heap_inv st' (insert (a, slab_index_to_size i) (objects A P L))"
    using st'(2) op(1) unfolding heap_inv_def by metis
  moreover have "a \<noteq> 0" using cell_start(1) [OF inv slot_cell [OF a(1)]] by simp
  ultimately show ?thesis using st'(1,3) op(2) by simp
qed

lemma grow_result:
  assumes inv: "slab_inv st A P L" and i: "i < SLAB_NUM_CACHES" "L i = []"
  shows "(kmalloc_slab i st = Some (st, 0) \<and> free_blocks (pm st) = {}) \<or>
    (\<exists>st2 B P2 L2 a xs. kmalloc_slab i st = Some (slab_pop i st2) \<and> slab_inv st2 B P2 L2 \<and> L2 i = a # xs \<and>
       objects B P2 L2 = objects A P L \<and> kept (objects A P L) (ram (pm st)) (ram (pm st2)))"
proof -
  have c: "sc_free_list (slab_caches st i) = 0" "\<not> sc_growing (slab_caches st i)"
    using inv i by (auto simp: slab_inv_def cache_ok_def ptr_opt_def split: if_splits)
  have "buddy_inv (pm st) A" using inv by (simp add: slab_inv_def)
  from alloc_pages_total [OF this, of 0] consider
      (no) "alloc_pages 0 (pm st) = Some (pm st, None)" "free_blocks (pm st) = {}"
    | (ok) b s where "alloc_pages 0 (pm st) = Some (s, Some (frame_addr b))" "alloc_success (pm st) A 0 s b"
    unfolding slab_pfn [OF inv] by (metis equals0I le0 not_less_zero)
  then show ?thesis
  proof cases
    case no
    have "set_growing i False (set_growing i True st) = st" using c(2) by (cases st) (simp add: set_cache_def fun_upd_idem)
    then show ?thesis using no c slab_grow_fails [OF no(1), of i] by (simp add: kmalloc_slab_def Let_def)
  next
    case ok
    let ?B = "insert (b, 0) A" and ?P = "P(b \<mapsto> i)" and ?L = "L(i := fresh_slots b i)"
    obtain st1 where g: "slab_grow i (set_growing i True st) = Some (st1, 0)" "slab_inv (set_growing i False st1) ?B ?P ?L"
      "same_outside (frame_addr b) PAGE_SIZE (ram (pm st)) (ram (pm st1))"
      using slab_grow_ok [OF inv i ok] by blast
    let ?st = "set_growing i False st1"
    have "0 < PAGE_SIZE div slab_index_to_size i" using slot_size(2,3) [OF i(1)] by (simp add: div_greater_zero_iff)
    then obtain n where "PAGE_SIZE div slab_index_to_size i = Suc n" using gr0_implies_Suc by blast
    then obtain a xs where ax: "?L i = a # xs" by (simp add: page_slots_Suc)
    have "cache_ok ?st ?P i (?L i)" using g(2) i(1) unfolding slab_inv_def by blast
    then have "sc_free_list (slab_caches ?st i) \<noteq> 0" using ax by (auto simp: cache_ok_def ptr_opt_def split: if_splits)
    then have k: "kmalloc_slab i st = Some (slab_pop i ?st)" using c g(1) by (simp add: kmalloc_slab_def Let_def)
    note al = slab_inv_alloc [OF inv ok] and fr = fresh_block [OF ok(2)]
    have ob: "objects ?B ?P ?L = objects A P L"
      using fr by (intro objects_grow [of b A P i L, OF slab_layout [OF g(2)] al(2) i(2)]) force
    have "(frame_addr b, PAGE_SIZE) \<in> cells ?B P" using al(2) by (force simp: cells_def large_def)
    moreover have "(frame_addr b, n) \<notin> objects A P L" for n
    proof -
      have "frame_addr b \<noteq> frame_addr q" if "(q, k) \<in> A" for q k using fr(1) [OF that] by (auto simp: frame_addr_def PAGE_SIZE_def)
      then show ?thesis using frame_not_slot [OF slab_layout [OF inv] al(2)] unfolding objects_def large_def by blast
    qed
    moreover have "objects A P L \<subseteq> cells ?B P" using objects_cells cells_mono [OF subset_insertI] by blast
    ultimately have "kept (objects A P L) (ram (pm st)) (ram (pm st1))"
      using kept_outside [OF slab_layout [OF al(1)] _ _ g(3)] by blast
    then have "kept (objects A P L) (ram (pm st)) (ram (pm ?st))" by (simp add: set_cache_def)
    then show ?thesis using k g(2) ax ob by blast
  qed
qed

lemma kmalloc_slab_ok:
  assumes inv: "slab_inv st A P L" and i: "i < SLAB_NUM_CACHES"
  shows "\<exists>st' a. kmalloc_slab i st = Some (st', a) \<and>
    (if a = 0 then st' = st \<and> free_blocks (pm st) = {}
     else (a, slab_index_to_size i) \<notin> objects A P L \<and> heap_inv st' (insert (a, slab_index_to_size i) (objects A P L)) \<and>
       (\<forall>x. a \<le> x \<longrightarrow> x < a + slab_index_to_size i \<longrightarrow> ram (pm st') x = 0) \<and> kept (objects A P L) (ram (pm st)) (ram (pm st')))"
proof (cases "L i")
  case Nil
  consider (no) "kmalloc_slab i st = Some (st, 0)" "free_blocks (pm st) = {}"
    | (yes) st2 B P2 L2 a xs where "kmalloc_slab i st = Some (slab_pop i st2)" "slab_inv st2 B P2 L2" "L2 i = a # xs"
       "objects B P2 L2 = objects A P L" "kept (objects A P L) (ram (pm st)) (ram (pm st2))"
    using grow_result [OF inv i Nil] by blast
  then show ?thesis
  proof cases
    case yes
    obtain st' where st': "slab_pop i st2 = (st', a)" "a \<noteq> 0" "(a, slab_index_to_size i) \<notin> objects A P L"
      "heap_inv st' (insert (a, slab_index_to_size i) (objects A P L))"
      "\<forall>x. a \<le> x \<longrightarrow> x < a + slab_index_to_size i \<longrightarrow> ram (pm st') x = 0" "kept (objects A P L) (ram (pm st2)) (ram (pm st'))"
      using pop_result [OF yes(2) i yes(3)] unfolding yes(4) by blast
    moreover have "kept (objects A P L) (ram (pm st)) (ram (pm st'))"
      using yes(5) st'(6) unfolding kept_def by fastforce
    ultimately show ?thesis using yes(1) by simp
  qed simp
next
  case (Cons a xs)
  have "cache_ok st P i (a # xs)" using inv i Cons unfolding slab_inv_def by metis
  then have "sc_free_list (slab_caches st i) \<noteq> 0" by (auto simp: cache_ok_def ptr_opt_def split: if_splits)
  then have "kmalloc_slab i st = Some (slab_pop i st)" by (simp add: kmalloc_slab_def)
  moreover obtain st' where "slab_pop i st = (st', a)" "a \<noteq> 0" "(a, slab_index_to_size i) \<notin> objects A P L"
    "heap_inv st' (insert (a, slab_index_to_size i) (objects A P L))"
    "\<forall>x. a \<le> x \<longrightarrow> x < a + slab_index_to_size i \<longrightarrow> ram (pm st') x = 0" "kept (objects A P L) (ram (pm st)) (ram (pm st'))"
    using pop_result [OF inv i Cons] by blast
  ultimately show ?thesis by (intro exI [of _ st'] exI [of _ a]) simp
qed

section \<open>Requests served by the page allocator\<close>

lemma kmalloc_order_props:
  "k \<le> Suc MAX_ORDER \<Longrightarrow> kmalloc_order n k \<le> Suc MAX_ORDER"
  "kmalloc_order n k \<le> MAX_ORDER \<Longrightarrow> n \<le> 2 ^ kmalloc_order n k"
  "kmalloc_order n k > MAX_ORDER \<Longrightarrow> k \<le> MAX_ORDER \<Longrightarrow> 2 ^ MAX_ORDER < n"
proof (induction n k rule: kmalloc_order.induct)
  case (1 n k)
  show "kmalloc_order n k \<le> Suc MAX_ORDER" if "k \<le> Suc MAX_ORDER"
    using 1(1) that by (subst kmalloc_order.simps) auto
  show "n \<le> 2 ^ kmalloc_order n k" if "kmalloc_order n k \<le> MAX_ORDER"
    using 1(2) that kmalloc_order.simps [of n k] by (auto split: if_splits)
  show "2 ^ MAX_ORDER < n" if a: "kmalloc_order n k > MAX_ORDER" "k \<le> MAX_ORDER"
  proof (cases "2 ^ k < n")
    case True
    then have "kmalloc_order n k = kmalloc_order n (k + 1)" using a(2) by (subst kmalloc_order.simps) simp
    then show ?thesis using 1(3) a True by (cases "k = MAX_ORDER") auto
  next
    case False
    then have "kmalloc_order n k = k" by (subst kmalloc_order.simps) simp
    then show ?thesis using a by simp
  qed
qed

lemma pages_needed_le: "sz \<le> PAGE_SIZE * pages_needed sz" "2 ^ MAX_ORDER < pages_needed sz \<Longrightarrow> PAGE_SIZE * 2 ^ MAX_ORDER < sz"
proof -
  have "sz + 4095 < 4096 * ((sz + 4095) div 4096) + 4096" by linarith
  then show "sz \<le> PAGE_SIZE * pages_needed sz" by (simp add: pages_needed_def PAGE_SIZE_def)
  show "2 ^ MAX_ORDER < pages_needed sz \<Longrightarrow> PAGE_SIZE * 2 ^ MAX_ORDER < sz"
    by (simp add: pages_needed_def PAGE_SIZE_def MAX_ORDER_def)
qed

lemma large_alloc_ok:
  assumes inv: "slab_inv st A P L" and ord: "ord \<le> MAX_ORDER"
  shows "(alloc_pages ord (pm st) = Some (pm st, None) \<and> (\<forall>c \<in> free_blocks (pm st). snd c < ord)) \<or>
    (\<exists>s a. alloc_pages ord (pm st) = Some (s, Some a) \<and> a \<noteq> 0 \<and> (a, PAGE_SIZE * 2 ^ ord) \<notin> objects A P L \<and>
       heap_inv (st\<lparr> pm := s \<rparr>) (insert (a, PAGE_SIZE * 2 ^ ord) (objects A P L)) \<and>
       (\<forall>x. a \<le> x \<longrightarrow> x < a + PAGE_SIZE * 2 ^ ord \<longrightarrow> ram s x = 0) \<and> kept (objects A P L) (ram (pm st)) (ram s))"
proof (cases "alloc_pages ord (pm st) = Some (pm st, None) \<and> (\<forall>c \<in> free_blocks (pm st). snd c < ord)")
  case False
  let ?n = "PAGE_SIZE * 2 ^ ord"
  have bi: "buddy_inv (pm st) A" using inv by (simp add: slab_inv_def)
  then obtain b s where al: "alloc_pages ord (pm st) = Some (s, Some (frame_addr b))" "alloc_success (pm st) A ord s b"
    using alloc_pages_total [OF bi ord] False unfolding slab_pfn [OF inv] by metis
  note n = slab_inv_alloc [OF inv al] and fr = fresh_block [OF al(2)]
  have cell: "(frame_addr b, ?n) \<in> cells (insert (b, ord) A) P" using n(2) by (auto simp: cells_def large_def)
  have "frame_addr b \<noteq> frame_addr q" if "(q, k) \<in> A" for q k using fr(1) [OF that] by (auto simp: frame_addr_def PAGE_SIZE_def)
  then have new: "(frame_addr b, ?n) \<notin> objects A P L"
    using frame_not_slot [OF slab_layout [OF inv] n(2)] unfolding objects_def large_def by blast
  have ob: "objects (insert (b, ord) A) P L = insert (frame_addr b, ?n) (objects A P L)"
    using n(2) unfolding objects_def large_def by auto
  have "objects A P L \<subseteq> cells (insert (b, ord) A) P" using objects_cells [of "insert (b, ord) A" P L] ob by blast
  then have "kept (objects A P L) (ram (pm st)) (ram s)"
    using new by (intro kept_outside [OF slab_layout [OF n(1)] cell]) (auto simp: n(3) same_outside_def)
  moreover have "heap_inv (st\<lparr> pm := s \<rparr>) (insert (frame_addr b, ?n) (objects A P L))"
    using n(1) ob unfolding heap_inv_def by metis
  moreover have "frame_addr b \<noteq> 0" by (simp add: frame_addr_def)
  ultimately show ?thesis using al(1) n(3) new by simp
qed simp

lemma kmalloc_ok:
  assumes "heap_inv st Ob"
  shows "\<exists>st' a. kmalloc sz st = Some (st', a) \<and> kmalloc_result sz st Ob st' a"
proof -
  let ?st = "perf_inc PERF_MALLOC_COUNT st" and ?ord = "kmalloc_order (pages_needed sz) 0"
  obtain A P L where inv: "slab_inv ?st A P L" and Ob: "Ob = objects A P L" using assms by (auto simp: heap_inv_def)
  consider "sz = 0" | (slab) "0 < sz" "sz \<le> PAGE_SIZE" | (big) "sz > PAGE_SIZE" "?ord > MAX_ORDER \<or> sz > SIZE_MAX - PAGE_SIZE"
    | (pages) "sz > PAGE_SIZE" "?ord \<le> MAX_ORDER" "sz \<le> SIZE_MAX - PAGE_SIZE" by linarith
  then show ?thesis
  proof cases
    case 1
    then show ?thesis using assms by (simp add: kmalloc_def kmalloc_result_def kmalloc_fails_def)
  next
    case slab
    let ?i = "slab_size_to_index sz"
    have i: "?i < SLAB_NUM_CACHES" "sz \<le> slab_index_to_size ?i" using slot_index [OF slab(2)] .
    have "kmalloc sz st = kmalloc_slab ?i ?st" "usable sz = slab_index_to_size ?i" "needed_order sz = 0"
      using slab by (simp_all add: kmalloc_def usable_def needed_order_def Let_def)
    then show ?thesis using kmalloc_slab_ok [OF inv i(1)] i(2) assms
      unfolding Ob [symmetric] kmalloc_result_def kmalloc_fails_def by fastforce
  next
    case big
    have "PAGE_SIZE * 2 ^ MAX_ORDER < sz"
    proof (cases "?ord > MAX_ORDER")
      case True
      then show ?thesis using kmalloc_order_props(3) pages_needed_le(2) by blast
    qed (use big in \<open>simp add: PAGE_SIZE_def SIZE_MAX_def MAX_ORDER_def\<close>)
    moreover have "kmalloc sz st = Some (?st, 0)" using big by (auto simp: kmalloc_def pages_needed_def Let_def)
    ultimately show ?thesis using assms by (simp add: kmalloc_result_def kmalloc_fails_def)
  next
    case pages
    have k: "kmalloc sz st = do { (s, page) \<leftarrow> alloc_pages ?ord (pm ?st); Some (?st\<lparr> pm := s \<rparr>, case page of None \<Rightarrow> 0 | Some pa \<Rightarrow> pa) }"
      using pages by (simp add: kmalloc_def pages_needed_def Let_def)
    have u: "usable sz = PAGE_SIZE * 2 ^ ?ord" "needed_order sz = ?ord" using pages(1) by (simp_all add: usable_def needed_order_def)
    have "sz \<le> PAGE_SIZE * pages_needed sz" by (rule pages_needed_le)
    also have "\<dots> \<le> usable sz" using kmalloc_order_props(2) [OF pages(2)] by (simp add: u(1))
    finally have le: "sz \<le> usable sz" .
    have same: "?st\<lparr> pm := pm st \<rparr> = ?st" by (cases st) (simp add: perf_inc_def)
    consider (no) "alloc_pages ?ord (pm st) = Some (pm st, None)" "\<forall>c \<in> free_blocks (pm st). snd c < ?ord"
      | (yes) s a where "alloc_pages ?ord (pm st) = Some (s, Some a)" "a \<noteq> 0" "(a, usable sz) \<notin> Ob"
         "heap_inv (?st\<lparr> pm := s \<rparr>) (insert (a, usable sz) Ob)" "\<forall>x. a \<le> x \<longrightarrow> x < a + usable sz \<longrightarrow> ram s x = 0" "kept Ob (ram (pm st)) (ram s)"
      using large_alloc_ok [OF inv pages(2)] unfolding Ob [symmetric] u(1) perf_inc_simps by blast
    then show ?thesis
    proof cases
      case no
      then have "kmalloc sz st = Some (?st, 0)" using k same by simp
      then show ?thesis using no(2) assms by (simp add: kmalloc_result_def kmalloc_fails_def u(2))
    next
      case yes
      then have "kmalloc sz st = Some (?st\<lparr> pm := s \<rparr>, a)" using k by simp
      then show ?thesis using yes le by (simp add: kmalloc_result_def)
    qed
  qed
qed

section \<open>Release\<close>

lemma used_block:
  assumes "buddy_inv s A" "(b, k) \<in> A"
  shows "used_page_ok s (b, k)" "phys_mem_base s = 0x100000" "b < total_phys_pages s"
proof -
  have "bounds_ok s (free_blocks s \<union> A)" using assms(1) by (simp add: buddy_inv_def)
  then have "phys_mem_base s = 0x100000" "blk (b, k) \<subseteq> {..<total_phys_pages s}" using assms(2) by (auto simp: bounds_ok_def)
  then show "phys_mem_base s = 0x100000" "b < total_phys_pages s" using blk_nonempty(1) [of "(b, k)"] by auto
  show "used_page_ok s (b, k)" using assms by (simp add: buddy_inv_def)
qed

lemma kfree_slot:
  assumes inv: "slab_inv st A P L" and a: "a \<in> slots P i" "a \<notin> set (L i)"
  shows "kfree a st = Some (slab_push a i (perf_inc PERF_FREE_COUNT st))"
proof -
  obtain q where q: "P q = Some i" "frame_addr q \<le> a" "a < frame_addr q + PAGE_SIZE"
    using slot_frame [OF slab_layout [OF inv] a(1)] by blast
  then have "slab_page (pm st) q" "pg_slab_cache (page_array (pm st) q) = Some i" "(q, 0) \<in> A" "buddy_inv (pm st) A"
    using inv by (auto simp: slab_inv_def)
  moreover from this have "q < total_phys_pages (pm st)" "phys_mem_base (pm st) = 0x100000"
    using used_block by blast+
  moreover from this have "get_page_struct (pm st) a = Some q"
    using frame_unique [OF q(2,3)] q(2) by (simp add: get_page_struct_def phys_to_pfn_def frame_addr_def)
  moreover have "a \<noteq> 0" using q(2) by (simp add: frame_addr_def)
  ultimately show ?thesis by (simp add: kfree_def Let_def slab_push_def set_ram_def set_cache_def comp_def)
qed

lemma kfree_large:
  assumes inv: "slab_inv st A P L" and b: "(b, k) \<in> A" "P b = None"
  shows "\<exists>s. kfree (frame_addr b) st = Some ((perf_inc PERF_FREE_COUNT st)\<lparr> pm := s \<rparr>) \<and> ram s = ram (pm st) \<and>
    slab_inv ((perf_inc PERF_FREE_COUNT st)\<lparr> pm := s \<rparr>) (A - {(b, k)}) P L"
proof -
  have bi: "buddy_inv (pm st) A" using inv by (simp add: slab_inv_def)
  obtain s where s: "free_pages (frame_addr b) k (pm st) = Some s" "buddy_inv s (A - {(b, k)})" "ram s = ram (pm st)"
    using free_pages_ok [OF bi b(1)] unfolding slab_pfn [OF inv] by blast
  note kp = free_keeps [OF s(1) bi s(2)]
  have nsl: "\<not> slab_page (pm st) b" using b(2) inv by (simp add: slab_inv_def)
  have "get_page_struct (pm st) (frame_addr b) = Some b" "pg_order (page_array (pm st) b) = k"
    using used_block [OF bi b(1)] by (simp_all add: get_page_struct_def phys_to_pfn_def frame_addr_def PAGE_SIZE_def used_page_ok_def)
  then have f: "kfree (frame_addr b) st = Some ((perf_inc PERF_FREE_COUNT st)\<lparr> pm := s \<rparr>)"
    using s(1) nsl by (simp add: kfree_def Let_def frame_addr_def)
  have other: "(q, 0) \<in> A - {(b, k)}" "pflags s q = pflags (pm st) q" if "P q = Some i" for q i
  proof -
    show "(q, 0) \<in> A - {(b, k)}" using inv b(2) that by (auto simp: slab_inv_def)
    then show "pflags s q = pflags (pm st) q" using kp by force
  qed
  have "slab_page s q \<longleftrightarrow> P q \<noteq> None" for q
  proof (cases "P q")
    case None
    then show ?thesis using kp inv by (auto simp: keeps_def slab_inv_def)
  next
    case (Some i)
    then show ?thesis using other(2) [OF Some] inv by (auto simp: has_flag_def slab_inv_def)
  qed
  moreover have "pg_slab_cache (page_array s q) = pg_slab_cache (page_array (pm st) q)" for q using kp by (simp add: keeps_def)
  ultimately have "slab_inv ((perf_inc PERF_FREE_COUNT st)\<lparr> pm := s \<rparr>) (A - {(b, k)}) P L"
    using inv s(2,3) other(1) unfolding slab_inv_def cache_ok_def by simp
  then show ?thesis using f s(3) by blast
qed

lemma kfree_ok:
  assumes "heap_inv st Ob" "(a, n) \<in> Ob"
  shows "\<exists>st'. kfree a st = Some st' \<and> heap_inv st' (Ob - {(a, n)}) \<and> kept (Ob - {(a, n)}) (ram (pm st)) (ram (pm st'))"
proof -
  obtain A P L where inv: "slab_inv st A P L" and Ob: "Ob = objects A P L" using assms(1) by (auto simp: heap_inv_def)
  note lay = slab_layout [OF inv]
  consider (slot) i where "n = slab_index_to_size i" "a \<in> slots P i" "a \<notin> set (L i)"
    | (large) b k where "(b, k) \<in> A" "P b = None" "a = frame_addr b" "n = PAGE_SIZE * 2 ^ k"
    using assms(2) unfolding Ob objects_def large_def by blast
  then show ?thesis
  proof cases
    case slot
    let ?st = "slab_push a i (perf_inc PERF_FREE_COUNT st)"
    have i: "i < SLAB_NUM_CACHES" using lay slot(2) by (auto simp: layout_def slots_def)
    have inv': "slab_inv (perf_inc PERF_FREE_COUNT st) A P L" using inv by simp
    note p = slab_push_ok [OF inv' i slot(2,3)]
    have "heap_inv ?st (Ob - {(a, n)})"
      using p(1) objects_push [of A P a i L, OF lay slot(2,3)] unfolding heap_inv_def Ob slot(1) by metis
    moreover have "kept (Ob - {(a, n)}) (ram (pm st)) (ram (pm ?st))"
      using p(2) objects_cells unfolding Ob slot(1) by (intro kept_outside [OF lay slot_cell [OF slot(2)]]) auto
    ultimately show ?thesis using kfree_slot [OF inv slot(2,3)] by blast
  next
    case large
    let ?st = "perf_inc PERF_FREE_COUNT st"
    obtain s where s: "kfree a st = Some (?st\<lparr> pm := s \<rparr>)" "ram s = ram (pm st)" "slab_inv (?st\<lparr> pm := s \<rparr>) (A - {(b, k)}) P L"
      using kfree_large [OF inv large(1,2)] unfolding large(3) by blast
    have "q = b \<and> j = k" if "(q, j) \<in> A" "frame_addr q = a" for q j
      using blocks_ok_fst [of A "(q, j)" "(b, k)"] that large lay by (auto simp: layout_def frame_addr_def PAGE_SIZE_def)
    then have "large (A - {(b, k)}) P = large A P - {(a, n)}" using large unfolding large_def by blast
    moreover have "(a, n) \<notin> {(x, slab_index_to_size i) | x i. x \<in> slots P i - set (L i)}"
      using frame_not_slot [OF lay large(2)] large(3) by blast
    ultimately have "objects (A - {(b, k)}) P L = Ob - {(a, n)}" unfolding Ob objects_def by blast
    then have "heap_inv (?st\<lparr> pm := s \<rparr>) (Ob - {(a, n)})" using s(3) unfolding heap_inv_def by metis
    then show ?thesis using s(1,2) by (auto simp: kept_def)
  qed
qed

end
