(* ===== verification/HeapClient.thy ===== *)
theory HeapClient
  imports SlabProps
begin

text \<open>
  The contract of an object allocator as a locale, the runs of clients that keep to the contract, and
  the interpretation on \<open>kmalloc\<close> and \<open>kfree\<close>. A client allocates, releases objects it owns and
  writes inside objects it owns, in any order.
\<close>

section \<open>Runs\<close>

datatype heap_event = Malloc nat nat | Free nat | Write nat u8

inductive client_step :: "(nat \<Rightarrow> 's \<Rightarrow> ('s \<times> nat) option) \<Rightarrow> (nat \<Rightarrow> 's \<Rightarrow> 's option) \<Rightarrow> (nat \<Rightarrow> u8 \<Rightarrow> 's \<Rightarrow> 's) \<Rightarrow> (nat \<Rightarrow> nat) \<Rightarrow>
    's \<times> (nat \<times> nat) set \<Rightarrow> heap_event \<Rightarrow> 's \<times> (nat \<times> nat) set \<Rightarrow> bool"
  for alloc free poke room where
  step_malloc: "alloc n s = Some (s', a) \<Longrightarrow>
    client_step alloc free poke room (s, Ob) (Malloc n a) (s', if a = 0 then Ob else insert (a, room n) Ob)"
| step_free: "(a, n) \<in> Ob \<Longrightarrow> free a s = Some s' \<Longrightarrow> client_step alloc free poke room (s, Ob) (Free a) (s', Ob - {(a, n)})"
| step_write: "(a, n) \<in> Ob \<Longrightarrow> a \<le> x \<Longrightarrow> x < a + n \<Longrightarrow> client_step alloc free poke room (s, Ob) (Write x v) (poke x v s, Ob)"

inductive client_run :: "(nat \<Rightarrow> 's \<Rightarrow> ('s \<times> nat) option) \<Rightarrow> (nat \<Rightarrow> 's \<Rightarrow> 's option) \<Rightarrow> (nat \<Rightarrow> u8 \<Rightarrow> 's \<Rightarrow> 's) \<Rightarrow> (nat \<Rightarrow> nat) \<Rightarrow>
    's \<times> (nat \<times> nat) set \<Rightarrow> heap_event list \<Rightarrow> 's \<times> (nat \<times> nat) set \<Rightarrow> bool"
  for alloc free poke room where
  run_nil: "client_run alloc free poke room c [] c"
| run_cons: "client_step alloc free poke room c e c1 \<Longrightarrow> client_run alloc free poke room c1 es c2 \<Longrightarrow>
    client_run alloc free poke room c (e # es) c2"

section \<open>The contract\<close>

locale object_heap =
  fixes hinv :: "'s \<Rightarrow> (nat \<times> nat) set \<Rightarrow> bool" and memory :: "'s \<Rightarrow> mem"
    and alloc :: "nat \<Rightarrow> 's \<Rightarrow> ('s \<times> nat) option" and free :: "nat \<Rightarrow> 's \<Rightarrow> 's option"
    and poke :: "nat \<Rightarrow> u8 \<Rightarrow> 's \<Rightarrow> 's" and room :: "nat \<Rightarrow> nat"
  assumes apart: "hinv s Ob \<Longrightarrow> x \<in> Ob \<Longrightarrow> y \<in> Ob \<Longrightarrow> x \<noteq> y \<Longrightarrow> disjoint_regions (fst x) (snd x) (fst y) (snd y)"
    and nonempty: "hinv s Ob \<Longrightarrow> x \<in> Ob \<Longrightarrow> 0 < snd x"
    and alloc_law: "hinv s Ob \<Longrightarrow> \<exists>s' a. alloc n s = Some (s', a) \<and> kept Ob (memory s) (memory s') \<and>
      hinv s' (if a = 0 then Ob else insert (a, room n) Ob)"
    and free_law: "hinv s Ob \<Longrightarrow> (a, n) \<in> Ob \<Longrightarrow> \<exists>s'. free a s = Some s' \<and> hinv s' (Ob - {(a, n)}) \<and>
      kept (Ob - {(a, n)}) (memory s) (memory s')"
    and poke_law: "hinv s Ob \<Longrightarrow> (a, n) \<in> Ob \<Longrightarrow> a \<le> i \<Longrightarrow> i < a + n \<Longrightarrow> hinv (poke i v s) Ob"
    and poke_mem: "memory (poke i v s) = (memory s)(i := v)"
begin

lemma same_start:
  assumes "hinv s Ob" "(a, n) \<in> Ob" "(a, k) \<in> Ob"
  shows "n = k"
  using apart [OF assms] nonempty [OF assms(1,2)] nonempty [OF assms(1,3)] by (auto simp: disjoint_regions_def)

lemma step_ok:
  assumes inv: "hinv s Ob" and st: "client_step alloc free poke room (s, Ob) e (s', Ob')"
  shows "hinv s' Ob' \<and> (\<forall>(a, n) \<in> Ob. e \<noteq> Free a \<longrightarrow> (a, n) \<in> Ob' \<and>
    (\<forall>x. a \<le> x \<longrightarrow> x < a + n \<longrightarrow> (\<forall>v. e \<noteq> Write x v) \<longrightarrow> memory s' x = memory s x))"
  using st
proof cases
  case (step_malloc n a)
  then have "kept Ob (memory s) (memory s')" "hinv s' Ob'" "Ob \<subseteq> Ob'" using alloc_law [OF inv, of n] by auto
  then show ?thesis unfolding kept_def by blast
next
  case (step_free a n)
  then have "kept (Ob - {(a, n)}) (memory s) (memory s')" "hinv s' Ob'" using free_law [OF inv, of a n] by auto
  then show ?thesis using step_free unfolding kept_def by blast
next
  case (step_write a n x v)
  then show ?thesis using poke_law [OF inv step_write(4,5,6)] by (auto simp: poke_mem)
qed

lemma run_ok:
  assumes "client_run alloc free poke room c es c'" "hinv (fst c) (snd c)"
  shows "hinv (fst c') (snd c') \<and> (\<forall>(a, n) \<in> snd c. Free a \<notin> set es \<longrightarrow> (a, n) \<in> snd c' \<and>
    (\<forall>x. a \<le> x \<longrightarrow> x < a + n \<longrightarrow> (\<forall>v. Write x v \<notin> set es) \<longrightarrow> memory (fst c') x = memory (fst c) x))"
  using assms
proof (induction rule: client_run.induct)
  case (run_cons c e c1 es c2)
  note s = step_ok [OF run_cons.prems, of e "fst c1" "snd c1"]
  then have s: "hinv (fst c1) (snd c1)" "\<And>a n. (a, n) \<in> snd c \<Longrightarrow> e \<noteq> Free a \<Longrightarrow> (a, n) \<in> snd c1"
    "\<And>a n x. (a, n) \<in> snd c \<Longrightarrow> e \<noteq> Free a \<Longrightarrow> a \<le> x \<Longrightarrow> x < a + n \<Longrightarrow> \<forall>v. e \<noteq> Write x v \<Longrightarrow> memory (fst c1) x = memory (fst c) x"
    using run_cons.hyps(1) by auto
  have IH: "hinv (fst c2) (snd c2)" "\<And>a n. (a, n) \<in> snd c1 \<Longrightarrow> Free a \<notin> set es \<Longrightarrow> (a, n) \<in> snd c2"
    "\<And>a n x. (a, n) \<in> snd c1 \<Longrightarrow> Free a \<notin> set es \<Longrightarrow> a \<le> x \<Longrightarrow> x < a + n \<Longrightarrow> \<forall>v. Write x v \<notin> set es \<Longrightarrow>
       memory (fst c2) x = memory (fst c1) x"
    using run_cons.IH [OF s(1)] by blast+
  have "(a, n) \<in> snd c2 \<and> (\<forall>x. a \<le> x \<longrightarrow> x < a + n \<longrightarrow> (\<forall>v. Write x v \<notin> set (e # es)) \<longrightarrow> memory (fst c2) x = memory (fst c) x)"
    if o: "(a, n) \<in> snd c" "Free a \<notin> set (e # es)" for a n
  proof -
    have f: "e \<noteq> Free a" "Free a \<notin> set es" using o(2) by auto
    have "memory (fst c2) x = memory (fst c) x" if x: "a \<le> x" "x < a + n" "\<forall>v. Write x v \<notin> set (e # es)" for x
    proof -
      have "\<forall>v. e \<noteq> Write x v" "\<forall>v. Write x v \<notin> set es" using x(3) by auto
      then show ?thesis using s(3) [OF o(1) f(1) x(1,2)] IH(3) [OF s(2) [OF o(1) f(1)] f(2) x(1,2)] by simp
    qed
    then show ?thesis using IH(2) [OF s(2) [OF o(1) f(1)] f(2)] by blast
  qed
  then show ?case using IH(1) by blast
qed auto

lemma run_progress:
  assumes "client_run alloc free poke room c es c'" "hinv (fst c) (snd c)"
  shows "(\<forall>n. alloc n (fst c') \<noteq> None) \<and> (\<forall>(a, n) \<in> snd c'. free a (fst c') \<noteq> None) \<and>
    (\<forall>x \<in> snd c'. \<forall>y \<in> snd c'. x \<noteq> y \<longrightarrow> disjoint_regions (fst x) (snd x) (fst y) (snd y))"
proof -
  have i: "hinv (fst c') (snd c')" using run_ok [OF assms] by blast
  then show ?thesis using alloc_law [OF i] free_law [OF i] apart [OF i] by fastforce
qed

end

section \<open>The kernel heap\<close>

definition poke_byte :: "nat \<Rightarrow> u8 \<Rightarrow> heap \<Rightarrow> heap" where
  "poke_byte x v st = set_ram (\<lambda>m. m(x := v)) st"

lemma object_not_free:
  assumes lay: "layout A P" and ob: "(a, n) \<in> objects A P L" and L: "set (L j) \<subseteq> slots P j"
  shows "a \<notin> set (L j)"
proof
  assume a: "a \<in> set (L j)"
  consider (slot) i where "a \<in> slots P i" "a \<notin> set (L i)" | (page) b where "P b = None" "a = frame_addr b"
    using ob unfolding objects_def large_def by blast
  then show False
  proof cases
    case slot
    then show ?thesis using slot_one_cache [OF lay slot(1), of j] a L by blast
  next
    case page
    then show ?thesis using frame_not_slot [OF lay page(1), of j] a L by blast
  qed
qed

lemma poke_ok:
  assumes inv: "heap_inv st Ob" and ob: "(a, n) \<in> Ob" and x: "a \<le> x" "x < a + n"
  shows "heap_inv (poke_byte x v st) Ob"
proof -
  obtain A P L where i: "slab_inv st A P L" "Ob = objects A P L" using inv by (auto simp: heap_inv_def)
  note lay = slab_layout [OF i(1)]
  have c: "(a, n) \<in> cells A P" using ob i(2) objects_cells by blast
  have m: "same_outside a n (ram (pm st)) (ram (pm (poke_byte x v st)))"
    using x by (auto simp: same_outside_def poke_byte_def set_ram_def)
  have "cache_ok (poke_byte x v st) P j (L j)" if j: "j < SLAB_NUM_CACHES" for j
  proof -
    have ok: "cache_ok st P j (L j)" using i(1) j by (simp add: slab_inv_def)
    then have "a \<notin> set (L j)" using object_not_free [of A P a n L j, OF lay] ob i(2) by (simp add: cache_ok_def)
    then show ?thesis by (intro cache_ok_frame [OF ok lay c _ m]) (simp_all add: poke_byte_def set_ram_def)
  qed
  then have "slab_inv (poke_byte x v st) A P L"
    using i(1) by (simp add: slab_inv_def poke_byte_def set_ram_def)
  then show ?thesis using i(2) by (auto simp: heap_inv_def)
qed

lemma object_nonempty:
  assumes "heap_inv st Ob" "x \<in> Ob"
  shows "0 < snd x"
proof -
  obtain A P L where i: "slab_inv st A P L" "Ob = objects A P L" using assms(1) by (auto simp: heap_inv_def)
  then have "(fst x, snd x) \<in> cells A P" using assms(2) objects_cells by auto
  then show ?thesis using cell_in_block [OF slab_layout [OF i(1)]] by metis
qed

interpretation kh: object_heap heap_inv "\<lambda>st. ram (pm st)" kmalloc kfree poke_byte usable
proof
  show "disjoint_regions (fst x) (snd x) (fst y) (snd y)" if "heap_inv s Ob" "x \<in> Ob" "y \<in> Ob" "x \<noteq> y" for s Ob x y
    using heap_disjoint [OF that] .
  show "0 < snd x" if "heap_inv s Ob" "x \<in> Ob" for s Ob x using object_nonempty [OF that] .
  show "\<exists>s' a. kmalloc n s = Some (s', a) \<and> kept Ob (ram (pm s)) (ram (pm s')) \<and> heap_inv s' (if a = 0 then Ob else insert (a, usable n) Ob)"
    if i: "heap_inv s Ob" for s Ob n
  proof -
    obtain s' a where k: "kmalloc n s = Some (s', a)" "kmalloc_result n s Ob s' a" using kmalloc_ok [OF i] by blast
    then have "kept Ob (ram (pm s)) (ram (pm s'))" "heap_inv s' (if a = 0 then Ob else insert (a, usable n) Ob)"
      by (auto simp: kmalloc_result_def kept_def split: if_splits)
    then show ?thesis using k(1) by blast
  qed
  show "\<exists>s'. kfree a s = Some s' \<and> heap_inv s' (Ob - {(a, n)}) \<and> kept (Ob - {(a, n)}) (ram (pm s)) (ram (pm s'))"
    if "heap_inv s Ob" "(a, n) \<in> Ob" for s Ob a n using kfree_ok [OF that] .
  show "heap_inv (poke_byte i v s) Ob" if "heap_inv s Ob" "(a, n) \<in> Ob" "a \<le> i" "i < a + n" for s Ob a n i v
    using poke_ok [OF that] .
  show "ram (pm (poke_byte i v s)) = (ram (pm s))(i := v)" for i v s by (simp add: poke_byte_def set_ram_def)
qed

section \<open>Initialisation\<close>

lemma slab_init_loop_eq:
  "pm (slab_init_loop i n st) = pm st"
  "slab_caches (slab_init_loop i n st) j = (if i \<le> j \<and> j < i + n then (slab_caches st j)\<lparr> sc_obj_size := slab_index_to_size j,
     sc_objs_per_page := PAGE_SIZE div slab_index_to_size j, sc_partial := None, sc_full := None, sc_free_list := 0 \<rparr>
     else slab_caches st j)"
  by (induction n arbitrary: i st) (auto simp: set_cache_def)

lemma slab_init_ok:
  assumes "buddy_inv (pm st) A" "\<And>q. \<not> slab_page (pm st) q" "\<And>i. \<not> sc_growing (slab_caches st i)"
  shows "heap_inv (slab_init st) (large A (\<lambda>_. None))"
proof -
  have "slab_inv (slab_init st) A (\<lambda>_. None) (\<lambda>_. [])"
    using assms by (simp add: slab_inv_def slab_init_def slab_init_loop_eq cache_ok_def ptr_opt_def)
  moreover have "objects A (\<lambda>_. None) (\<lambda>_. []) = large A (\<lambda>_. None)" by (simp add: objects_def slots_def)
  ultimately show ?thesis unfolding heap_inv_def by metis
qed

section \<open>Properties\<close>

text \<open>C4: \<open>kmalloc\<close> always returns. It returns NULL only for a request of size 0 or above 4 MiB or when the
  page allocator has no free block of the order the request needs, and then no byte of memory changes. Otherwise the object is at
  least as large as requested, is new, is cleared to its full size, overlaps no other object (the heap invariant
  holds with the object added) and no byte of any other object changes.\<close>

theorem kmalloc_correct:
  assumes "heap_inv st Ob"
  shows "\<exists>st' a. kmalloc sz st = Some (st', a) \<and> kmalloc_result sz st Ob st' a"
  by (rule kmalloc_ok [OF assms])

text \<open>C5: \<open>kfree\<close> of an object that \<open>kmalloc\<close> returned, given its address alone, always returns: it finds out
  whether the object came from a cache or from the page allocator and of which order it is, the invariant holds without the object and no byte of
  any other object changes.\<close>

theorem kfree_correct:
  assumes "heap_inv st Ob" "(a, n) \<in> Ob"
  shows "\<exists>st'. kfree a st = Some st' \<and> heap_inv st' (Ob - {(a, n)}) \<and> kept (Ob - {(a, n)}) (ram (pm st)) (ram (pm st'))"
  by (rule kfree_ok [OF assms])


section \<open>Instances\<close>

definition zero_cache :: slab_cache where
  "zero_cache = \<lparr> sc_obj_size = 0, sc_objs_per_page = 0, sc_partial = None, sc_full = None, sc_free_list = 0, sc_growing = False \<rparr>"

definition small_heap :: heap where
  "small_heap = \<lparr> pm = one_frame, slab_caches = (\<lambda>_. zero_cache), perf_counters = (\<lambda>_. 0) \<rparr>"

lemma small_heap_start: "buddy_inv (pm small_heap) {}" "\<not> slab_page (pm small_heap) q" "\<not> sc_growing (slab_caches small_heap i)"
proof -
  show "buddy_inv (pm small_heap) {}" by (simp add: small_heap_def one_frame_inv)
  show "\<not> sc_growing (slab_caches small_heap i)" by (simp add: small_heap_def zero_cache_def)
  show "\<not> slab_page (pm small_heap) q"
    by (simp add: small_heap_def one_frame_def mark_available_page_def list_add_def set_head_def set_page_def boot_state_def page_zero_def
        flag_is_bit free_bits)
qed

lemma small_heap_inv: "heap_inv (slab_init small_heap) {}"
  using slab_init_ok [OF small_heap_start] by (simp add: large_def)

lemma small_heap_serves: "\<not> kmalloc_fails 100 (pm (slab_init small_heap))"
  by (simp add: kmalloc_fails_def slab_init_def slab_init_loop_eq small_heap_def one_frame_inv needed_order_def PAGE_SIZE_def MAX_ORDER_def)

theorem kmalloc_correct_witness:
  "\<exists>st' a. kmalloc 100 (slab_init small_heap) = Some (st', a) \<and> a \<noteq> 0 \<and> heap_inv st' {(a, usable 100)}"
  using kmalloc_correct [OF small_heap_inv, of 100] small_heap_serves by (auto simp: kmalloc_result_def split: if_splits)

lemma small_heap_object: "\<exists>st' a. kmalloc 100 (slab_init small_heap) = Some (st', a) \<and> heap_inv st' {(a, usable 100)}"
  using kmalloc_ok [OF small_heap_inv, of 100] small_heap_serves by (auto simp: kmalloc_result_def split: if_splits)

theorem kfree_correct_witness:
  "\<exists>st' a st''. kmalloc 100 (slab_init small_heap) = Some (st', a) \<and> kfree a st' = Some st'' \<and> heap_inv st'' {}"
proof -
  obtain st' a where k: "kmalloc 100 (slab_init small_heap) = Some (st', a)" "heap_inv st' {(a, usable 100)}"
    using small_heap_object by blast
  then show ?thesis using kfree_correct [OF k(2), of a "usable 100"] by auto
qed


end
