(* ===== verification/PageTable.thy ===== *)
theory PageTable
  imports Slab
begin

text \<open>
  Address spaces: \<open>kernel/pagetable.c\<close>. Page tables are pages of physical memory, reached through the
  identity mapping, so an entry is read and written with \<^const>\<open>load64\<close> and \<^const>\<open>store64\<close> on the
  memory that the page allocator manages. The record \<open>vm\<close> adds to the heap the two values of
  CR3 that the code uses, the addresses whose translations were flushed, and what the fault
  handler records of the running task. The panic of \<open>phys_to_virt\<close> is \<^const>\<open>None\<close>.

  The last section is not code of the kernel: it defines the walk of the processor, against
  which the properties are stated.
\<close>

section \<open>Entries\<close>

definition PTE_PRESENT :: u64 where "PTE_PRESENT = 0x001"
definition PTE_RW :: u64 where "PTE_RW = 0x002"
definition PTE_USER :: u64 where "PTE_USER = 0x004"
definition PTE_ACCESSED :: u64 where "PTE_ACCESSED = 0x020"
definition PTE_DIRTY :: u64 where "PTE_DIRTY = 0x040"
definition PTE_PS :: u64 where "PTE_PS = 0x080"
definition PTE_NX :: u64 where "PTE_NX = push_bit 63 1"
definition PTE_ADDR_MASK :: u64 where "PTE_ADDR_MASK = 0x000FFFFFFFFFF000"
definition PTE_STRUCT_FLAGS :: u64 where "PTE_STRUCT_FLAGS = PTE_PRESENT OR PTE_RW OR PTE_ACCESSED"

definition has :: "u64 \<Rightarrow> u64 \<Rightarrow> bool" where
  "has e f \<longleftrightarrow> e AND f \<noteq> 0"

definition entry_addr :: "u64 \<Rightarrow> nat" where
  "entry_addr e = unat (e AND PTE_ADDR_MASK)"

text \<open>The indices \<open>pt_idx\<close>, \<open>pd_idx\<close>, \<open>pdpt_idx\<close> and \<open>pml4_idx\<close> are those of level 0 to 3.\<close>

definition idx :: "nat \<Rightarrow> u64 \<Rightarrow> nat" where
  "idx lvl vaddr = unat (drop_bit (12 + 9 * lvl) vaddr AND 0x1FF)"

record vm =
  hp :: heap
  cr3 :: nat
  vm_kernel_cr3 :: nat
  flushed :: "u64 list"
  page_fault_count :: nat
  segv_sent :: nat

abbreviation phys :: "vm \<Rightarrow> pmm" where
  "phys v \<equiv> pm (hp v)"

definition set_phys :: "(pmm \<Rightarrow> pmm) \<Rightarrow> vm \<Rightarrow> vm" where
  "set_phys f v = v\<lparr> hp := (hp v)\<lparr> pm := f (phys v) \<rparr> \<rparr>"

definition tbl_get :: "vm \<Rightarrow> nat \<Rightarrow> nat \<Rightarrow> u64" where
  "tbl_get v t i = load64 (ram (phys v)) (t + 8 * i)"

definition tbl_set :: "nat \<Rightarrow> nat \<Rightarrow> u64 \<Rightarrow> vm \<Rightarrow> vm" where
  "tbl_set t i e v = set_phys (ram_update (\<lambda>m. store64 m (t + 8 * i) e)) v"

text \<open>A flush on the running processor and a shootdown on all processors are recorded alike.\<close>

definition invlpg :: "u64 \<Rightarrow> vm \<Rightarrow> vm" where
  "invlpg vaddr v = v\<lparr> flushed := flushed v @ [vaddr] \<rparr>"

definition phys_to_virt :: "nat \<Rightarrow> nat option" where
  "phys_to_virt pa = (if pa \<ge> KERNEL_PHYS_MAX then None else Some pa)"

definition page_table_init :: "vm \<Rightarrow> vm" where
  "page_table_init v = v\<lparr> vm_kernel_cr3 := cr3 v \<rparr>"

section \<open>Helpers\<close>

definition vm_alloc_page :: "vm \<Rightarrow> (vm \<times> nat) option" where
  "vm_alloc_page v = do {
     (s, p) \<leftarrow> alloc_page (phys v);
     Some (set_phys (\<lambda>_. s) v, case p of None \<Rightarrow> 0 | Some a \<Rightarrow> a) }"

definition vm_free_page :: "nat \<Rightarrow> vm \<Rightarrow> vm option" where
  "vm_free_page pa v = do { s \<leftarrow> free_page pa (phys v); Some (set_phys (\<lambda>_. s) v) }"

definition alloc_table_page :: "vm \<Rightarrow> (vm \<times> nat) option" where
  "alloc_table_page v = do {
     (v1, p) \<leftarrow> vm_alloc_page v;
     Some (if p = 0 then (v1, 0) else (set_phys (ram_update (\<lambda>m. fst (memset m p 0 PAGE_SIZE))) v1, p)) }"

definition set_ref :: "nat \<Rightarrow> nat \<Rightarrow> vm \<Rightarrow> vm" where
  "set_ref q n v = set_phys (set_page q (pg_ref_count_update (\<lambda>_. n))) v"

definition page_ref_get :: "nat \<Rightarrow> vm \<Rightarrow> nat" where
  "page_ref_get pa v = (case get_page_struct (phys v) pa of None \<Rightarrow> 0 | Some q \<Rightarrow> pg_ref_count (page_array (phys v) q))"

definition page_ref_inc :: "nat \<Rightarrow> vm \<Rightarrow> vm" where
  "page_ref_inc pa v =
     (case get_page_struct (phys v) pa of
        None \<Rightarrow> v
      | Some q \<Rightarrow> set_ref q ((pg_ref_count (page_array (phys v) q) + 1) mod 2 ^ 32) v)"

primrec fill_split :: "nat \<Rightarrow> u64 \<Rightarrow> u64 \<Rightarrow> nat list \<Rightarrow> vm \<Rightarrow> vm" where
  "fill_split pt huge_base huge_flags [] v = v"
| "fill_split pt huge_base huge_flags (i # is) v =
     fill_split pt huge_base huge_flags is
       (tbl_set pt i ((huge_base + of_nat i * 4096) OR (huge_flags AND NOT PTE_PS) OR PTE_PRESENT OR PTE_ACCESSED OR PTE_DIRTY) v)"

definition split_huge_page :: "nat \<Rightarrow> nat \<Rightarrow> u64 \<Rightarrow> vm \<Rightarrow> (vm \<times> nat) option" where
  "split_huge_page pd pd_idx vaddr v =
     (let huge_entry = tbl_get v pd pd_idx
      in if \<not> has huge_entry PTE_PS then Some (v, 0)
         else do {
           (v1, pt_phys) \<leftarrow> alloc_table_page v;
           if pt_phys = 0 then Some (v1, 0)
           else do {
             new_pt \<leftarrow> phys_to_virt pt_phys;
             (let v2 = fill_split new_pt (huge_entry AND PTE_ADDR_MASK) (huge_entry AND 0xFFF) [0..<512] v1;
                  v3 = tbl_set pd pd_idx (of_nat pt_phys OR PTE_STRUCT_FLAGS) v2;
                  split_va = vaddr AND NOT 0x1FFFFF
              in Some (v3\<lparr> flushed := flushed v3 @ map (\<lambda>i. split_va + of_nat i * 4096) [0..<512] \<rparr>, pt_phys)) } })"

section \<open>Mapping\<close>

text \<open>The step of \<open>map_page\<close> from one level to the next, for PML4 and PDPT; 0 means out of memory.\<close>

definition next_table :: "u64 \<Rightarrow> nat \<Rightarrow> nat \<Rightarrow> vm \<Rightarrow> (vm \<times> nat) option" where
  "next_table struct_flags t i v =
     (let entry = tbl_get v t i
      in if \<not> has entry PTE_PRESENT then do {
           (v1, p) \<leftarrow> alloc_table_page v;
           Some (if p = 0 then (v1, 0) else (tbl_set t i (of_nat p OR struct_flags) v1, p)) }
         else Some (v, entry_addr entry))"

text \<open>The same step for the page directory, which may hold a 2 MiB page.\<close>

definition next_pt :: "u64 \<Rightarrow> u64 \<Rightarrow> nat \<Rightarrow> nat \<Rightarrow> vm \<Rightarrow> (vm \<times> nat) option" where
  "next_pt struct_flags vaddr pd i v =
     (let entry = tbl_get v pd i
      in if has entry PTE_PRESENT \<and> has entry PTE_PS then split_huge_page pd i vaddr v
         else next_table struct_flags pd i v)"

text \<open>What \<open>map_page\<close> does with a page whose entry it is about to overwrite.\<close>

definition drop_old :: "u64 \<Rightarrow> vm \<Rightarrow> vm option" where
  "drop_old old_pte v =
     (if \<not> has old_pte PTE_PRESENT then Some v
      else case get_page_struct (phys v) (entry_addr old_pte) of
             None \<Rightarrow> Some v
           | Some q \<Rightarrow>
               let old_ref = pg_ref_count (page_array (phys v) q)
               in if old_ref = 0 then Some v
                  else if old_ref = 1 then vm_free_page (entry_addr old_pte) (set_ref q 0 v)
                  else Some (set_ref q (old_ref - 1) v))"

definition leaf_entry :: "u64 \<Rightarrow> u64 \<Rightarrow> u64" where
  "leaf_entry paddr flags =
     (let e = (paddr AND NOT 0xFFF) OR (flags AND 0xFFF) OR PTE_PRESENT in if has flags PTE_NX then e OR PTE_NX else e)"

definition map_page :: "nat \<Rightarrow> u64 \<Rightarrow> u64 \<Rightarrow> u64 \<Rightarrow> vm \<Rightarrow> (vm \<times> int) option" where
  "map_page pml4_phys vaddr paddr flags v =
     (let struct_flags = (if has flags PTE_USER then PTE_STRUCT_FLAGS OR PTE_USER else PTE_STRUCT_FLAGS)
      in do {
        pml4 \<leftarrow> phys_to_virt pml4_phys;
        (v1, pdpt_phys) \<leftarrow> next_table struct_flags pml4 (idx 3 vaddr) v;
        if pdpt_phys = 0 \<and> \<not> has (tbl_get v pml4 (idx 3 vaddr)) PTE_PRESENT then Some (v1, - 1)
        else do {
          pdpt \<leftarrow> phys_to_virt pdpt_phys;
          (v2, pd_phys) \<leftarrow> next_table struct_flags pdpt (idx 2 vaddr) v1;
          if pd_phys = 0 \<and> \<not> has (tbl_get v1 pdpt (idx 2 vaddr)) PTE_PRESENT then Some (v2, - 1)
          else do {
            pd \<leftarrow> phys_to_virt pd_phys;
            (v3, pt_phys) \<leftarrow> next_pt struct_flags vaddr pd (idx 1 vaddr) v2;
            if pt_phys = 0 \<and> \<not> (has (tbl_get v2 pd (idx 1 vaddr)) PTE_PRESENT \<and> \<not> has (tbl_get v2 pd (idx 1 vaddr)) PTE_PS)
            then Some (v3, - 1)
            else do {
              pt \<leftarrow> phys_to_virt pt_phys;
              v4 \<leftarrow> drop_old (tbl_get v3 pt (idx 0 vaddr)) v3;
              Some (invlpg vaddr (page_ref_inc (unat (paddr AND PTE_ADDR_MASK))
                (tbl_set pt (idx 0 vaddr) (leaf_entry paddr flags) v4)), 0) } } } })"

definition map_user_page :: "nat \<Rightarrow> u64 \<Rightarrow> u64 \<Rightarrow> u64 \<Rightarrow> vm \<Rightarrow> (vm \<times> int) option" where
  "map_user_page pml4_phys vaddr paddr flags v = map_page pml4_phys vaddr paddr (flags OR PTE_USER) v"

function map_range_loop :: "nat \<Rightarrow> u64 \<Rightarrow> u64 \<Rightarrow> nat \<Rightarrow> u64 \<Rightarrow> nat \<Rightarrow> vm \<Rightarrow> (vm \<times> int) option" where
  "map_range_loop pml4_phys vaddr paddr sz flags off v =
     (if off < sz then do {
        (v1, r) \<leftarrow> map_page pml4_phys (vaddr + of_nat off) (paddr + of_nat off) flags v;
        if r \<noteq> 0 then Some (v1, - 1) else map_range_loop pml4_phys vaddr paddr sz flags (off + PAGE_SIZE) v1 }
      else Some (v, 0))"
  by pat_completeness auto
termination by (relation "measure (\<lambda>(_, _, _, sz, _, off, _). sz - off)") (auto simp: PAGE_SIZE_def)

declare map_range_loop.simps [simp del]

text \<open>With the clamped size the offset never wraps, so the overflow test of the loop is never taken.\<close>

definition map_range :: "nat \<Rightarrow> u64 \<Rightarrow> u64 \<Rightarrow> nat \<Rightarrow> u64 \<Rightarrow> vm \<Rightarrow> (vm \<times> int) option" where
  "map_range pml4_phys vaddr paddr sz flags v =
     map_range_loop pml4_phys vaddr paddr (min sz (2 ^ 64 - PAGE_SIZE)) flags 0 v"

text \<open>
  The walk that the code repeats in several functions: the page directory that covers an address, if
  all entries down to its entry are present.
\<close>

definition find_pd :: "nat \<Rightarrow> u64 \<Rightarrow> vm \<Rightarrow> nat option option" where
  "find_pd pml4_phys vaddr v = do {
     pml4 \<leftarrow> phys_to_virt pml4_phys;
     if \<not> has (tbl_get v pml4 (idx 3 vaddr)) PTE_PRESENT then Some None
     else do {
       pdpt \<leftarrow> phys_to_virt (entry_addr (tbl_get v pml4 (idx 3 vaddr)));
       if \<not> has (tbl_get v pdpt (idx 2 vaddr)) PTE_PRESENT then Some None
       else do {
         pd \<leftarrow> phys_to_virt (entry_addr (tbl_get v pdpt (idx 2 vaddr)));
         Some (if \<not> has (tbl_get v pd (idx 1 vaddr)) PTE_PRESENT then None else Some pd) } } }"

definition unmap_page :: "nat \<Rightarrow> u64 \<Rightarrow> vm \<Rightarrow> vm option" where
  "unmap_page pml4_phys vaddr v = do {
     r \<leftarrow> find_pd pml4_phys vaddr v;
     case r of
       None \<Rightarrow> Some v
     | Some pd \<Rightarrow>
         if has (tbl_get v pd (idx 1 vaddr)) PTE_PS then Some v
         else do {
           pt \<leftarrow> phys_to_virt (entry_addr (tbl_get v pd (idx 1 vaddr)));
           Some (if \<not> has (tbl_get v pt (idx 0 vaddr)) PTE_PRESENT then v
             else invlpg vaddr (tbl_set pt (idx 0 vaddr) 0 v)) } }"

definition user_page_present :: "u64 \<Rightarrow> vm \<Rightarrow> bool option" where
  "user_page_present vaddr v =
     (if vaddr > 0x00007FFFFFFFFFFF then Some False
      else do {
        r \<leftarrow> find_pd (cr3 v) vaddr v;
        case r of
          None \<Rightarrow> Some False
        | Some pd \<Rightarrow>
            if has (tbl_get v pd (idx 1 vaddr)) PTE_PS then Some True
            else do {
              pt \<leftarrow> phys_to_virt (entry_addr (tbl_get v pd (idx 1 vaddr)));
              Some (has (tbl_get v pt (idx 0 vaddr)) PTE_PRESENT) } })"

primrec rodata_loop :: "u64 \<Rightarrow> nat \<Rightarrow> vm \<Rightarrow> vm option" where
  "rodata_loop va 0 v = Some v"
| "rodata_loop va (Suc n) v = do {
     r \<leftarrow> find_pd (vm_kernel_cr3 v) va v;
     v' \<leftarrow> (case r of
         None \<Rightarrow> Some v
       | Some pd \<Rightarrow> do {
           (v1, ok) \<leftarrow> (if has (tbl_get v pd (idx 1 va)) PTE_PS
             then do { (v1, p) \<leftarrow> split_huge_page pd (idx 1 va) va v; Some (v1, p \<noteq> 0) } else Some (v, True));
           if \<not> ok then Some v1
           else do {
             pt \<leftarrow> phys_to_virt (entry_addr (tbl_get v1 pd (idx 1 va)));
             Some (invlpg va (tbl_set pt (idx 0 va) (tbl_get v1 pt (idx 0 va) AND NOT PTE_RW) v1)) } });
     rodata_loop (va + 0x1000) n v' }"

text \<open>The bounds of the section are the linker's.\<close>

definition rodata_protect :: "nat \<Rightarrow> nat \<Rightarrow> vm \<Rightarrow> vm option" where
  "rodata_protect ro_start ro_end v =
     (let va = ro_start div 4096 * 4096; end_va = (ro_end + 0xFFF) div 4096 * 4096
      in do {
        _ \<leftarrow> phys_to_virt (vm_kernel_cr3 v);
        rodata_loop (of_nat va) ((end_va - va) div 4096) v })"

section \<open>Release of an address space\<close>

definition free_leaf :: "u64 \<Rightarrow> vm \<Rightarrow> vm option" where
  "free_leaf e v =
     (if \<not> has e PTE_PRESENT then Some v
      else case get_page_struct (phys v) (entry_addr e) of
             None \<Rightarrow> Some v
           | Some q \<Rightarrow>
               let old_ref = (pg_ref_count (page_array (phys v) q) + (2 ^ 32 - 1)) mod 2 ^ 32; v1 = set_ref q old_ref v
               in if old_ref = 0 then vm_free_page (entry_addr e) v1 else Some v1)"

primrec free_ptes :: "nat \<Rightarrow> nat list \<Rightarrow> vm \<Rightarrow> vm option" where
  "free_ptes pt [] v = Some v"
| "free_ptes pt (l # ls) v = do { v1 \<leftarrow> free_leaf (tbl_get v pt l) v; free_ptes pt ls v1 }"

primrec free_pdes :: "nat \<Rightarrow> nat list \<Rightarrow> vm \<Rightarrow> vm option" where
  "free_pdes pd [] v = Some v"
| "free_pdes pd (k # ks) v =
     (let pde = tbl_get v pd k
      in if \<not> has pde PTE_PRESENT \<or> has pde PTE_PS then free_pdes pd ks v
         else do {
           pt \<leftarrow> phys_to_virt (entry_addr pde);
           v1 \<leftarrow> free_ptes pt [0..<512] v;
           v2 \<leftarrow> vm_free_page (entry_addr pde) v1;
           free_pdes pd ks v2 })"

primrec free_pdptes :: "nat \<Rightarrow> nat list \<Rightarrow> vm \<Rightarrow> vm option" where
  "free_pdptes pdpt [] v = Some v"
| "free_pdptes pdpt (j # js) v =
     (let pdpte = tbl_get v pdpt j
      in if \<not> has pdpte PTE_PRESENT then free_pdptes pdpt js v
         else do {
           pd \<leftarrow> phys_to_virt (entry_addr pdpte);
           v1 \<leftarrow> free_pdes pd [0..<512] v;
           v2 \<leftarrow> vm_free_page (entry_addr pdpte) v1;
           free_pdptes pdpt js v2 })"

primrec free_pml4es :: "nat \<Rightarrow> nat list \<Rightarrow> vm \<Rightarrow> vm option" where
  "free_pml4es pml4 [] v = Some v"
| "free_pml4es pml4 (i # is) v =
     (let pml4e = tbl_get v pml4 i
      in if \<not> has pml4e PTE_PRESENT then free_pml4es pml4 is v
         else do {
           pdpt \<leftarrow> phys_to_virt (entry_addr pml4e);
           v1 \<leftarrow> free_pdptes pdpt [0..<512] v;
           v2 \<leftarrow> vm_free_page (entry_addr pml4e) v1;
           free_pml4es pml4 is v2 })"

definition free_pagetable :: "nat \<Rightarrow> vm \<Rightarrow> vm option" where
  "free_pagetable pml4_phys v =
     (if pml4_phys = 0 then Some v
      else do {
        pml4 \<leftarrow> phys_to_virt pml4_phys;
        v1 \<leftarrow> free_pml4es pml4 [1..<256] v;
        vm_free_page pml4_phys v1 })"

section \<open>Copy for fork\<close>

definition cow_entry :: "u64 \<Rightarrow> u64" where
  "cow_entry src_pte =
     (let phys_page = src_pte AND PTE_ADDR_MASK; old_flags = src_pte AND NOT PTE_ADDR_MASK;
          f0 = (old_flags AND NOT PTE_RW) OR PTE_PRESENT;
          f1 = (if has old_flags PTE_USER then f0 OR PTE_USER else f0);
          f2 = (if has old_flags PTE_NX then f1 OR PTE_NX else f1)
      in phys_page OR f2)"

definition table_va :: "nat \<Rightarrow> nat \<Rightarrow> nat \<Rightarrow> nat \<Rightarrow> u64" where
  "table_va i j k l = push_bit 39 (of_nat i) OR push_bit 30 (of_nat j) OR push_bit 21 (of_nat k) OR push_bit 12 (of_nat l)"

primrec clone_ptes :: "nat \<Rightarrow> nat \<Rightarrow> nat \<Rightarrow> nat \<Rightarrow> nat \<Rightarrow> nat list \<Rightarrow> vm \<Rightarrow> vm" where
  "clone_ptes src_pt dst_pt i j k [] v = v"
| "clone_ptes src_pt dst_pt i j k (l # ls) v =
     (let src_pte = tbl_get v src_pt l
      in if \<not> has src_pte PTE_PRESENT then clone_ptes src_pt dst_pt i j k ls (tbl_set dst_pt l 0 v)
         else clone_ptes src_pt dst_pt i j k ls
           (invlpg (table_va i j k l) (tbl_set dst_pt l (cow_entry src_pte) (tbl_set src_pt l (cow_entry src_pte)
             (page_ref_inc (entry_addr src_pte) v)))))"

text \<open>The three loops around it; the flag is False when the code jumps to \<open>fail\<close>.\<close>

primrec clone_pdes :: "nat \<Rightarrow> nat \<Rightarrow> nat \<Rightarrow> nat \<Rightarrow> nat list \<Rightarrow> vm \<Rightarrow> (vm \<times> bool) option" where
  "clone_pdes src_pd dst_pd i j [] v = Some (v, True)"
| "clone_pdes src_pd dst_pd i j (k # ks) v =
     (let src_pde = tbl_get v src_pd k
      in if \<not> has src_pde PTE_PRESENT \<or> has src_pde PTE_PS then clone_pdes src_pd dst_pd i j ks (tbl_set dst_pd k 0 v)
         else do {
           (v1, new_pt_phys) \<leftarrow> alloc_table_page v;
           if new_pt_phys = 0 then Some (v1, False)
           else do {
             src_pt \<leftarrow> phys_to_virt (entry_addr src_pde);
             dst_pt \<leftarrow> phys_to_virt new_pt_phys;
             clone_pdes src_pd dst_pd i j ks
               (clone_ptes src_pt dst_pt i j k [0..<512] (tbl_set dst_pd k (of_nat new_pt_phys OR PTE_STRUCT_FLAGS) v1)) } })"

primrec clone_pdptes :: "nat \<Rightarrow> nat \<Rightarrow> nat \<Rightarrow> nat list \<Rightarrow> vm \<Rightarrow> (vm \<times> bool) option" where
  "clone_pdptes src_pdpt dst_pdpt i [] v = Some (v, True)"
| "clone_pdptes src_pdpt dst_pdpt i (j # js) v =
     (let src_pdpte = tbl_get v src_pdpt j
      in if \<not> has src_pdpte PTE_PRESENT then clone_pdptes src_pdpt dst_pdpt i js (tbl_set dst_pdpt j 0 v)
         else do {
           (v1, new_pd_phys) \<leftarrow> alloc_table_page v;
           if new_pd_phys = 0 then Some (v1, False)
           else do {
             src_pd \<leftarrow> phys_to_virt (entry_addr src_pdpte);
             dst_pd \<leftarrow> phys_to_virt new_pd_phys;
             (v2, ok) \<leftarrow> clone_pdes src_pd dst_pd i j [0..<512] (tbl_set dst_pdpt j (of_nat new_pd_phys OR PTE_STRUCT_FLAGS) v1);
             if \<not> ok then Some (v2, False) else clone_pdptes src_pdpt dst_pdpt i js v2 } })"

primrec clone_pml4es :: "nat \<Rightarrow> nat \<Rightarrow> nat list \<Rightarrow> vm \<Rightarrow> (vm \<times> bool) option" where
  "clone_pml4es src_pml4 dst_pml4 [] v = Some (v, True)"
| "clone_pml4es src_pml4 dst_pml4 (i # is) v =
     (let src_pml4e = tbl_get v src_pml4 i
      in if \<not> has src_pml4e PTE_PRESENT then clone_pml4es src_pml4 dst_pml4 is (tbl_set dst_pml4 i 0 v)
         else do {
           (v1, new_pdpt_phys) \<leftarrow> alloc_table_page v;
           if new_pdpt_phys = 0 then Some (v1, False)
           else do {
             src_pdpt \<leftarrow> phys_to_virt (entry_addr src_pml4e);
             dst_pdpt \<leftarrow> phys_to_virt new_pdpt_phys;
             (v2, ok) \<leftarrow> clone_pdptes src_pdpt dst_pdpt i [0..<512] (tbl_set dst_pml4 i (of_nat new_pdpt_phys OR PTE_STRUCT_FLAGS) v1);
             if \<not> ok then Some (v2, False) else clone_pml4es src_pml4 dst_pml4 is v2 } })"

primrec copy_entries :: "nat \<Rightarrow> nat \<Rightarrow> nat list \<Rightarrow> vm \<Rightarrow> vm" where
  "copy_entries src dst [] v = v"
| "copy_entries src dst (i # is) v = copy_entries src dst is (tbl_set dst i (tbl_get v src i) v)"

text \<open>The copy up to the label \<open>fail\<close>: the new tables, 0 if there are none, and whether they are complete.\<close>

definition clone_fill :: "vm \<Rightarrow> (vm \<times> nat \<times> bool) option" where
  "clone_fill v = do {
     (v1, newp) \<leftarrow> vm_alloc_page v;
     if newp = 0 then Some (v1, 0, False)
     else do {
       src_pml4 \<leftarrow> phys_to_virt (cr3 v1);
       (let v2 = copy_entries src_pml4 newp [256..<512] v1;
            v3 = tbl_set newp 0 (tbl_get v2 src_pml4 0) v2
        in do {
          (v4, ok) \<leftarrow> clone_pml4es src_pml4 newp [1..<256] v3;
          Some (v4, newp, ok) }) } }"

definition clone_current_pml4 :: "vm \<Rightarrow> (vm \<times> nat) option" where
  "clone_current_pml4 v = do {
     (v4, newp, ok) \<leftarrow> clone_fill v;
     if ok then Some (v4, newp)
     else if newp = 0 then Some (v4, vm_kernel_cr3 v4)
     else do { v5 \<leftarrow> free_pagetable newp v4; Some (v5, vm_kernel_cr3 v5) } }"

definition clone_kernel_pml4 :: "vm \<Rightarrow> (vm \<times> nat) option" where
  "clone_kernel_pml4 v = do {
     (v1, newp) \<leftarrow> vm_alloc_page v;
     if newp = 0 then Some (v1, vm_kernel_cr3 v1)
     else do {
       src_pml4 \<leftarrow> phys_to_virt (vm_kernel_cr3 v1);
       (let v2 = copy_entries src_pml4 newp [256..<512] v1
        in Some (tbl_set newp 0 (tbl_get v2 src_pml4 0) v2, newp)) } }"

section \<open>Page faults\<close>

definition PERF_PAGE_FAULTS :: nat where "PERF_PAGE_FAULTS = 3"
definition PERF_COW_COUNT :: nat where "PERF_COW_COUNT = 4"

definition send_segv :: "vm \<Rightarrow> vm" where
  "send_segv v = v\<lparr> segv_sent := segv_sent v + 1 \<rparr>"

text \<open>
  \<open>task_cr3\<close> is the field \<open>cr3\<close> of the running task. The handler runs with a task current. Reading the faulting page through its user
  address is reading the physical page that the entry names.
\<close>

definition lazy_alloc :: "nat \<Rightarrow> u64 \<Rightarrow> vm \<Rightarrow> vm option" where
  "lazy_alloc task_cr3 cr2 v =
     (if cr2 > 0x00007FFFFFFFFFFF then Some (send_segv v)
      else do {
        (v1, new_page) \<leftarrow> vm_alloc_page v;
        if new_page = 0 then Some (send_segv v1)
        else do {
          (v2, ret) \<leftarrow> map_user_page task_cr3 (cr2 AND NOT 0xFFF) (of_nat new_page) (PTE_PRESENT OR PTE_RW OR PTE_USER) v1;
          if ret < 0 then do { v3 \<leftarrow> vm_free_page new_page v2; Some (send_segv v3) }
          else Some v2 } })"

definition cow_copy :: "nat \<Rightarrow> u64 \<Rightarrow> u64 \<Rightarrow> vm \<Rightarrow> vm option" where
  "cow_copy pt cr2 e v = do {
     (v1, new_page) \<leftarrow> vm_alloc_page v;
     if new_page = 0 then Some (send_segv v1)
     else do {
       (let v2 = set_phys (ram_update (\<lambda>m. fst (memcpy m new_page (entry_addr e) PAGE_SIZE))) v1
        in do {
          v3 \<leftarrow> (case get_page_struct (phys v2) (entry_addr e) of
              None \<Rightarrow> Some v2
            | Some q \<Rightarrow>
                let new_ref = (pg_ref_count (page_array (phys v2) q) + (2 ^ 32 - 1)) mod 2 ^ 32; v' = set_ref q new_ref v2
                in if new_ref = 0 then vm_free_page (entry_addr e) v' else Some v');
          (let new_flags = (e AND (PTE_USER OR PTE_NX)) OR PTE_PRESENT OR PTE_RW;
               v4 = invlpg cr2 (tbl_set pt (idx 0 cr2) ((of_nat new_page AND PTE_ADDR_MASK) OR new_flags) v3)
           in Some (v4\<lparr> hp := perf_inc PERF_COW_COUNT (hp v4) \<rparr>)) }) } }"

definition cow_fault :: "u64 \<Rightarrow> vm \<Rightarrow> vm option" where
  "cow_fault cr2 v = do {
     r \<leftarrow> find_pd (cr3 v) cr2 v;
     pd \<leftarrow> r;
     v1 \<leftarrow> (if has (tbl_get v pd (idx 1 cr2)) PTE_PS
            then do { (v1, p) \<leftarrow> split_huge_page pd (idx 1 cr2) cr2 v; if p = 0 then None else Some v1 } else Some v);
     pt \<leftarrow> phys_to_virt (entry_addr (tbl_get v1 pd (idx 1 cr2)));
     (let e = tbl_get v1 pt (idx 0 cr2)
      in if \<not> has e PTE_PRESENT then None
         else if page_ref_get (entry_addr e) v1 \<le> 1 then Some (invlpg cr2 (tbl_set pt (idx 0 cr2) (e OR PTE_RW) v1))
         else cow_copy pt cr2 e v1) }"

definition smap_violation :: "u64 \<Rightarrow> vm \<Rightarrow> vm option" where
  "smap_violation cr2 v = do {
     r \<leftarrow> find_pd (cr3 v) cr2 v;
     pd \<leftarrow> r;
     if has (tbl_get v pd (idx 1 cr2)) PTE_PS
     then if has (tbl_get v pd (idx 1 cr2)) PTE_USER then Some (send_segv v) else None
     else do {
       pt \<leftarrow> phys_to_virt (entry_addr (tbl_get v pd (idx 1 cr2)));
       (let e = tbl_get v pt (idx 0 cr2)
        in if has e PTE_PRESENT \<and> has e PTE_USER then Some (send_segv v) else None) } }"

definition pf_handler_c :: "nat \<Rightarrow> u64 \<Rightarrow> u64 \<Rightarrow> vm \<Rightarrow> vm option" where
  "pf_handler_c task_cr3 cr2 error_code v0 =
     (let v = v0\<lparr> hp := perf_inc PERF_PAGE_FAULTS (hp v0), page_fault_count := page_fault_count v0 + 1 \<rparr>;
          present = has error_code 1; wr = has error_code 2; user = has error_code 4
      in if \<not> present then (if \<not> user then None else lazy_alloc task_cr3 cr2 v)
         else if wr \<and> user then cow_fault cr2 v
         else if \<not> user then smap_violation cr2 v
         else None)"

section \<open>The walk of the processor\<close>

text \<open>
  The translation of an address and the rights of the mapping: the physical page, and whether user mode and
  writes are allowed at every level. A 2 MiB page is translated to the 4 KiB page inside it. Entries of 1 GiB are not
  used by the kernel.
\<close>

record walk_result =
  w_page :: nat
  w_user :: bool
  w_rw :: bool

primrec walk_from :: "vm \<Rightarrow> nat \<Rightarrow> nat \<Rightarrow> u64 \<Rightarrow> bool \<Rightarrow> bool \<Rightarrow> walk_result option" where
  "walk_from v 0 t va user rw =
     (let e = tbl_get v t (idx 0 va)
      in if \<not> has e PTE_PRESENT then None
         else Some \<lparr> w_page = entry_addr e, w_user = (user \<and> has e PTE_USER), w_rw = (rw \<and> has e PTE_RW) \<rparr>)"
| "walk_from v (Suc l) t va user rw =
     (let e = tbl_get v t (idx (Suc l) va); user' = (user \<and> has e PTE_USER); rw' = (rw \<and> has e PTE_RW)
      in if \<not> has e PTE_PRESENT then None
         else if l = 0 \<and> has e PTE_PS
         then Some \<lparr> w_page = entry_addr e + idx 0 va * PAGE_SIZE, w_user = user', w_rw = rw' \<rparr>
         else walk_from v l (entry_addr e) va user' rw')"

definition walk :: "vm \<Rightarrow> nat \<Rightarrow> u64 \<Rightarrow> walk_result option" where
  "walk v root va = walk_from v 3 root va True True"

end
