(* ===== verification/PageTableInv.thy ===== *)
theory PageTableInv
  imports PageTable SlabOps
begin

text \<open>
  Page tables as a tree. A path is the list of indices from a table back to the root, the last
  index first; \<open>tab\<close> gives the table at a path. The invariant says that the tables of an
  address space form a tree of page-aligned frames that the page allocator does not consider free.
  The lemmas show how setting one entry changes the tree and the processor's walk.
\<close>

section \<open>Bits of entries\<close>

lemma pte_powers:
  "PTE_PRESENT = 2 ^ 0" "PTE_RW = 2 ^ 1" "PTE_USER = 2 ^ 2" "PTE_ACCESSED = 2 ^ 5" "PTE_DIRTY = 2 ^ 6" "PTE_PS = 2 ^ 7" "PTE_NX = 2 ^ 63"
  by (simp_all add: PTE_PRESENT_def PTE_RW_def PTE_USER_def PTE_ACCESSED_def PTE_DIRTY_def PTE_PS_def PTE_NX_def push_bit_eq_mult)

lemma has_power: "has e (2 ^ n) \<longleftrightarrow> bit e n"
  unfolding has_def using and_exp_eq_0_iff_not_bit [of e n] by simp

lemma has_bits:
  "has e PTE_PRESENT \<longleftrightarrow> bit e 0" "has e PTE_RW \<longleftrightarrow> bit e 1" "has e PTE_USER \<longleftrightarrow> bit e 2" "has e PTE_PS \<longleftrightarrow> bit e 7" "has e PTE_NX \<longleftrightarrow> bit e 63"
  unfolding pte_powers by (rule has_power)+

lemma bit_power: "k < 64 \<Longrightarrow> bit (2 ^ k :: u64) n \<longleftrightarrow> n = k"
  by (auto simp: bit_exp_iff)

lemma bit_consts:
  "bit PTE_PRESENT n \<longleftrightarrow> n = 0" "bit PTE_RW n \<longleftrightarrow> n = 1" "bit PTE_USER n \<longleftrightarrow> n = 2" "bit PTE_ACCESSED n \<longleftrightarrow> n = 5"
  "bit PTE_DIRTY n \<longleftrightarrow> n = 6" "bit PTE_PS n \<longleftrightarrow> n = 7" "bit PTE_NX n \<longleftrightarrow> n = 63"
  unfolding pte_powers by (rule bit_power; simp)+

lemma bit_struct_flags: "bit PTE_STRUCT_FLAGS n \<longleftrightarrow> n = 0 \<or> n = 1 \<or> n = 5"
  by (auto simp: PTE_STRUCT_FLAGS_def bit_or_iff bit_consts)

lemma bit_addr_mask: "bit PTE_ADDR_MASK n \<longleftrightarrow> 12 \<le> n \<and> n < 52"
proof -
  have m: "PTE_ADDR_MASK = mask 52 AND NOT (mask 12)" by (simp add: PTE_ADDR_MASK_def mask_eq_exp_minus_1)
  show ?thesis unfolding m by (auto simp: bit_and_iff bit_not_iff bit_mask_iff)
qed

lemma entry_addr_eq:
  assumes "p mod 4096 = 0" "p < 2 ^ 52" "\<And>n. bit f n \<Longrightarrow> n < 12 \<or> 52 \<le> n"
  shows "entry_addr (of_nat p OR f) = p"
proof -
  have "take_bit 12 p = 0" "take_bit 52 p = p" using assms(1,2) by (simp_all add: take_bit_eq_mod)
  then have p: "12 \<le> n" "n < 52" if "bit p n" for n
    using that by (metis bit_0_eq bit_take_bit_iff bot_apply bot_bool_def not_le)+
  have f: "\<not> bit f n" if "12 \<le> n" "n < 52" for n using assms(3) [of n] that by auto
  have "(of_nat p OR f) AND PTE_ADDR_MASK = of_nat p"
    by (rule bit_eqI) (use p f in \<open>auto simp: bit_and_iff bit_or_iff bit_addr_mask bit_of_nat_iff\<close>)
  then show ?thesis using assms(2) by (simp add: entry_addr_def unat_of_nat)
qed

lemma idx_less [simp]: "idx l va < 512"
proof -
  have "drop_bit (12 + 9 * l) va AND 0x1FF = take_bit 9 (drop_bit (12 + 9 * l) va)"
    by (simp add: take_bit_eq_mask mask_eq_exp_minus_1)
  then show ?thesis unfolding idx_def by (simp add: take_bit_eq_mod unat_mod)
qed

section \<open>Reading and writing entries\<close>

lemma set_phys_simps [simp]:
  "phys (set_phys f v) = f (phys v)" "cr3 (set_phys f v) = cr3 v" "vm_kernel_cr3 (set_phys f v) = vm_kernel_cr3 v"
  by (simp_all add: set_phys_def)

lemma invlpg_simps [simp]: "hp (invlpg va v) = hp v" "cr3 (invlpg va v) = cr3 v"
  by (simp_all add: invlpg_def)

lemma entry_apart:
  assumes "t mod 4096 = 0" "t' mod 4096 = 0" "i < 512" "j < 512" "t \<noteq> t' \<or> i \<noteq> (j :: nat)"
  shows "disjoint_regions (t + 8 * i) 8 (t' + 8 * j) 8"
proof (cases "t = t'")
  case True
  then show ?thesis using assms(5) by (auto simp: disjoint_regions_def)
next
  case False
  then have "t div 4096 < t' div 4096 \<or> t' div 4096 < t div 4096" using assms(1,2) by (metis div_mult_mod_eq linorder_neqE_nat)
  moreover have "t = t div 4096 * 4096" "t' = t' div 4096 * 4096" using assms(1,2) by auto
  ultimately have "t + 4096 \<le> t' \<or> t' + 4096 \<le> t" by linarith
  then show ?thesis using assms(3,4) by (auto simp: disjoint_regions_def)
qed

lemma tbl_get_set:
  assumes "t mod 4096 = 0" "t' mod 4096 = 0" "i < 512" "j < 512"
  shows "tbl_get (tbl_set t i e v) t' j = (if t' = t \<and> j = i then e else tbl_get v t' j)"
proof (cases "t' = t \<and> j = i")
  case True
  then show ?thesis by (simp add: tbl_get_def tbl_set_def load64_store64)
next
  case False
  then have "disjoint_regions (t + 8 * i) 8 (t' + 8 * j) 8" using entry_apart [OF assms(1,2,3,4)] by auto
  then have "load64 (store64 (ram (phys v)) (t + 8 * i) e) (t' + 8 * j) = load64 (ram (phys v)) (t' + 8 * j)"
    by (intro load64_cong) (auto simp: store64_def disjoint_regions_def)
  then show ?thesis using False by (auto simp: tbl_get_def tbl_set_def)
qed

text \<open>An entry of a table is unaffected by changes inside another frame.\<close>

lemma tbl_get_frame:
  assumes "same_outside f 4096 (ram (phys v)) (ram (phys v'))" "f mod 4096 = 0" "t mod 4096 = 0" "t \<noteq> f" "j < 512"
  shows "tbl_get v' t j = tbl_get v t j"
proof -
  have "t div 4096 < f div 4096 \<or> f div 4096 < t div 4096" using assms(2,3,4) by (metis div_mult_mod_eq linorder_neqE_nat)
  moreover have "t = t div 4096 * 4096" "f = f div 4096 * 4096" using assms(2,3) by auto
  ultimately have "t + 4096 \<le> f \<or> f + 4096 \<le> t" by linarith
  then show ?thesis using assms(1,5) unfolding tbl_get_def same_outside_def by (intro load64_cong) auto
qed

lemma tbl_get_cong: "ram (phys v') = ram (phys v) \<Longrightarrow> tbl_get v' t j = tbl_get v t j"
  by (simp add: tbl_get_def)

section \<open>The tree of tables\<close>

definition child :: "vm \<Rightarrow> nat \<Rightarrow> nat \<Rightarrow> nat \<Rightarrow> nat option" where
  "child v l t i = (let e = tbl_get v t i
     in if i < 512 \<and> 0 < l \<and> has e PTE_PRESENT \<and> \<not> (l = 1 \<and> has e PTE_PS) then Some (entry_addr e) else None)"

primrec tab :: "vm \<Rightarrow> nat \<Rightarrow> nat list \<Rightarrow> nat option" where
  "tab v root [] = Some root"
| "tab v root (i # p) = do { t \<leftarrow> tab v root p; child v (3 - length p) t i }"

definition table_ok :: "vm \<Rightarrow> nat \<Rightarrow> bool" where
  "table_ok v t \<longleftrightarrow> t mod 4096 = 0 \<and> t < KERNEL_PHYS_MAX \<and> t \<notin> frame_addr ` free_frames (phys v)"

definition pt_inv :: "vm \<Rightarrow> block set \<Rightarrow> nat \<Rightarrow> bool" where
  "pt_inv v A root \<longleftrightarrow> buddy_inv (phys v) A \<and> (\<forall>p t. tab v root p = Some t \<longrightarrow> table_ok v t) \<and>
     (\<forall>p p' t. tab v root p = Some t \<longrightarrow> tab v root p' = Some t \<longrightarrow> p = p')"

lemma pt_inv_table: "pt_inv v A root \<Longrightarrow> tab v root p = Some t \<Longrightarrow> table_ok v t"
  by (auto simp: pt_inv_def)

lemma pt_inv_tree: "pt_inv v A root \<Longrightarrow> tab v root p = Some t \<Longrightarrow> tab v root p' = Some t \<Longrightarrow> p = p'"
  unfolding pt_inv_def by blast

text \<open>The path of an address down to level \<open>l\<close>.\<close>

definition rpath :: "u64 \<Rightarrow> nat \<Rightarrow> nat list" where
  "rpath va l = map (\<lambda>k. idx k va) [Suc l..<4]"

lemma rpath_simps: "rpath va 3 = []" "l < 3 \<Longrightarrow> rpath va l = idx (Suc l) va # rpath va (Suc l)" "l \<le> 3 \<Longrightarrow> length (rpath va l) = 3 - l"
  by (simp_all add: rpath_def upt_conv_Cons)

lemma walk_from_Suc:
  "walk_from v (Suc l) t va u r =
     (if \<not> has (tbl_get v t (idx (Suc l) va)) PTE_PRESENT then None
      else if l = 0 \<and> has (tbl_get v t (idx (Suc l) va)) PTE_PS
      then Some \<lparr> w_page = entry_addr (tbl_get v t (idx (Suc l) va)) + idx 0 va * PAGE_SIZE,
        w_user = (u \<and> has (tbl_get v t (idx (Suc l) va)) PTE_USER), w_rw = (r \<and> has (tbl_get v t (idx (Suc l) va)) PTE_RW) \<rparr>
      else walk_from v l (entry_addr (tbl_get v t (idx (Suc l) va))) va (u \<and> has (tbl_get v t (idx (Suc l) va)) PTE_USER)
        (r \<and> has (tbl_get v t (idx (Suc l) va)) PTE_RW))"
  by (simp add: Let_def)

declare walk_from.simps(2) [simp del]

text \<open>Where the entry of one table agrees, so does the walk.\<close>

lemma walk_from_same:
  assumes "\<And>k t. k \<le> l \<Longrightarrow> tab v root (rpath va k) = Some t \<Longrightarrow> tbl_get v' t (idx k va) = tbl_get v t (idx k va)"
    and "tab v root (rpath va l) = Some t" "l \<le> 3"
  shows "walk_from v' l t va u r = walk_from v l t va u r"
  using assms
proof (induction l arbitrary: t u r)
  case 0
  then show ?case by (simp add: Let_def)
next
  case (Suc l)
  let ?e = "tbl_get v t (idx (Suc l) va)"
  have e: "tbl_get v' t (idx (Suc l) va) = ?e" using Suc.prems(1) [OF _ Suc.prems(2)] by simp
  show ?case
  proof (cases "has ?e PTE_PRESENT \<and> \<not> (l = 0 \<and> has ?e PTE_PS)")
    case True
    then have "tab v root (rpath va l) = Some (entry_addr ?e)"
      using Suc.prems(2,3) by (simp add: rpath_simps child_def)
    then have "walk_from v' l (entry_addr ?e) va u' r' = walk_from v l (entry_addr ?e) va u' r'" for u' r'
      using Suc.IH Suc.prems(1,3) by simp
    then show ?thesis unfolding walk_from_Suc e by (simp only:)
  qed (simp add: walk_from_Suc e)
qed

lemma walk_reach:
  assumes "l \<le> 3" "tab v root (rpath va l) = Some t"
  shows "\<exists>u r. walk v root va = walk_from v l t va u r"
  using assms
proof (induction "3 - l" arbitrary: l t)
  case 0
  then show ?case by (auto simp: walk_def rpath_simps)
next
  case (Suc n)
  then have l: "l < 3" by simp
  obtain t' where t': "tab v root (rpath va (Suc l)) = Some t'" "child v (Suc l) t' (idx (Suc l) va) = Some t"
    using Suc.prems l by (auto simp: rpath_simps split: bind_splits)
  have "n = 3 - Suc l" using Suc.hyps(2) by simp
  from Suc.hyps(1) [OF this _ t'(1)] l obtain u r where "walk v root va = walk_from v (Suc l) t' va u r" by auto
  moreover have "walk_from v (Suc l) t' va u r = walk_from v l t va (u \<and> has (tbl_get v t' (idx (Suc l) va)) PTE_USER)
      (r \<and> has (tbl_get v t' (idx (Suc l) va)) PTE_RW)"
    using t'(2) by (auto simp: walk_from_Suc child_def Let_def split: if_splits)
  ultimately show ?case by metis
qed

section \<open>Changing one entry\<close>

text \<open>The two states agree on all entries of the tables except possibly one.\<close>

definition same_entries :: "vm \<Rightarrow> nat \<Rightarrow> nat \<times> nat \<Rightarrow> vm \<Rightarrow> bool" where
  "same_entries v root c v' \<longleftrightarrow> (\<forall>p x j. tab v root p = Some x \<longrightarrow> j < 512 \<longrightarrow> (x, j) \<noteq> c \<longrightarrow> tbl_get v' x j = tbl_get v x j)"

lemma child_cong: "(j < 512 \<Longrightarrow> tbl_get v' x j = tbl_get v x j) \<Longrightarrow> child v' l x j = child v l x j"
  by (auto simp: child_def Let_def)

lemma tab_child:
  assumes inv: "pt_inv v A root" and p0: "tab v root p0 = Some t0" and E: "same_entries v root (t0, i0) v'"
    and p: "tab v root p = Some x" "j # p \<noteq> i0 # p0"
  shows "child v' l x j = child v l x j"
proof (rule child_cong)
  assume "j < 512"
  moreover have "(x, j) \<noteq> (t0, i0)" using pt_inv_tree [OF inv p0, of p] p by auto
  ultimately show "tbl_get v' x j = tbl_get v x j" using E p(1) unfolding same_entries_def by blast
qed

lemma walk_avoid:
  assumes inv: "pt_inv v A root" and p0: "tab v root p0 = Some t0" and E: "same_entries v root (t0, i0) v'"
    and va: "\<And>k. k \<le> 3 \<Longrightarrow> \<not> (rpath va k = p0 \<and> idx k va = i0)"
  shows "walk v' root va = walk v root va"
  unfolding walk_def
proof (rule walk_from_same)
  fix k t assume k: "k \<le> 3" "tab v root (rpath va k) = Some t"
  then have "(t, idx k va) \<noteq> (t0, i0)" using pt_inv_tree [OF inv p0, of "rpath va k"] va [OF k(1)] by auto
  then show "tbl_get v' t (idx k va) = tbl_get v t (idx k va)" using E k(2) unfolding same_entries_def by simp
qed (simp_all add: rpath_simps)

subsection \<open>Linking an empty table\<close>

lemma tab_link:
  assumes inv: "pt_inv v A root" and p0: "tab v root p0 = Some t0" "length p0 < 3" and i0: "i0 < 512" "\<not> has (tbl_get v t0 i0) PTE_PRESENT"
    and E: "same_entries v root (t0, i0) v'"
    and e: "has (tbl_get v' t0 i0) PTE_PRESENT" "\<not> has (tbl_get v' t0 i0) PTE_PS" "entry_addr (tbl_get v' t0 i0) = nf"
    and z: "\<And>j. j < 512 \<Longrightarrow> tbl_get v' nf j = 0"
  shows "tab v' root q = (if q = i0 # p0 then Some nf else tab v root q)"
proof (induction q)
  case (Cons j p)
  have old: "tab v root (i0 # p0) = None" using p0 i0 by (simp add: child_def Let_def)
  show ?case
  proof (cases "p = i0 # p0")
    case True
    then have "tab v' root (j # p) = None" using Cons.IH z by (simp add: child_def Let_def has_def)
    moreover have "tab v root (j # p) = None" using old True by simp
    ultimately show ?thesis using True by simp
  next
    case False
    then have IH: "tab v' root p = tab v root p" using Cons.IH by simp
    show ?thesis
    proof (cases "tab v root p")
      case (Some x)
      show ?thesis
      proof (cases "j # p = i0 # p0")
        case True
        then show ?thesis using IH Some p0 i0(1) e by (auto simp: child_def Let_def)
      next
        case False
        then show ?thesis using tab_child [OF inv p0(1) E Some False] IH Some by auto
      qed
    next
      case None
      then have "j # p \<noteq> i0 # p0" using p0(1) by auto
      then show ?thesis using IH None by simp
    qed
  qed
qed simp

lemma walk_absent: "l \<le> 3 \<Longrightarrow> tab v root (rpath va l) = Some t \<Longrightarrow> \<not> has (tbl_get v t (idx l va)) PTE_PRESENT \<Longrightarrow> walk v root va = None"
  using walk_reach [of l v root va t] by (cases l) (auto simp: walk_from_Suc)

lemma rpath_level: "k \<le> 3 \<Longrightarrow> rpath va k = p \<Longrightarrow> k = 3 - length p"
  using rpath_simps(3) [of k va] by auto

lemma link_table:
  assumes inv: "pt_inv v A root" and p0: "tab v root p0 = Some t0" "length p0 < 3" and i0: "i0 < 512" "\<not> has (tbl_get v t0 i0) PTE_PRESENT"
    and E: "same_entries v root (t0, i0) v'"
    and e: "has (tbl_get v' t0 i0) PTE_PRESENT" "\<not> has (tbl_get v' t0 i0) PTE_PS" "entry_addr (tbl_get v' t0 i0) = nf"
    and z: "\<And>j. j < 512 \<Longrightarrow> tbl_get v' nf j = 0"
    and b: "buddy_inv (phys v') A'" "free_frames (phys v') \<subseteq> free_frames (phys v)" and nf: "table_ok v' nf" "\<And>q. tab v root q \<noteq> Some nf"
  shows "pt_inv v' A' root" "walk v' root va = walk v root va"
proof -
  note tl = tab_link [OF inv p0 i0 E e z]
  have "table_ok v' t" if "tab v' root q = Some t" for q t
    using that tl [of q] nf(1) pt_inv_table [OF inv, of q t] b(2) unfolding table_ok_def by (auto split: if_splits)
  moreover have "q = q'" if "tab v' root q = Some t" "tab v' root q' = Some t" for q q' t
  proof -
    show ?thesis using nf(2) that tl [of q] tl [of q'] pt_inv_tree [OF inv, of q t q'] by (auto split: if_splits)
  qed
  ultimately show "pt_inv v' A' root" using b(1) unfolding pt_inv_def by blast
  show "walk v' root va = walk v root va"
  proof (cases "\<exists>k \<le> 3. rpath va k = p0 \<and> idx k va = i0")
    case True
    then obtain k where k: "k \<le> 3" "rpath va k = p0" "idx k va = i0" by blast
    have "k = 3 - length p0" by (rule rpath_level [OF k(1,2)])
    then have "k \<noteq> 0" using p0(2) by simp
    then obtain l where l: "k = Suc l" "l < 3" using k(1) by (metis Suc_le_eq not0_implies_Suc)
    have "walk v root va = None" using walk_absent [of k v root va t0] k p0(1) i0(2) by simp
    moreover have "tab v' root (rpath va l) = Some nf" using tl [of "i0 # p0"] k l by (simp add: rpath_simps)
    then have "walk v' root va = None" using walk_absent [of l v' root va nf] l z by (simp add: has_def)
    ultimately show ?thesis by simp
  next
    case False
    then show ?thesis by (intro walk_avoid [OF inv p0(1) E]) blast
  qed
qed

subsection \<open>Setting a leaf\<close>

lemma tab_leaf:
  assumes inv: "pt_inv v A root" and p0: "tab v root p0 = Some t0" "length p0 = 3" and E: "same_entries v root (t0, i0) v'"
  shows "tab v' root q = tab v root q"
proof (induction q)
  case (Cons j p)
  show ?case
  proof (cases "tab v root p")
    case (Some x)
    show ?thesis
    proof (cases "j # p = i0 # p0")
      case True
      then show ?thesis using Cons.IH p0 by (simp add: child_def)
    next
      case False
      then show ?thesis using tab_child [OF inv p0(1) E Some False] Cons.IH Some by simp
    qed
  qed (use Cons.IH in simp)
qed simp

lemma set_leaf:
  assumes inv: "pt_inv v A root" and p0: "tab v root p0 = Some t0" "length p0 = 3" and E: "same_entries v root (t0, i0) v'"
    and b: "buddy_inv (phys v') A'" "free_frames (phys v') \<subseteq> free_frames (phys v)"
  shows "pt_inv v' A' root" "\<not> (rpath va 0 = p0 \<and> idx 0 va = i0) \<Longrightarrow> walk v' root va = walk v root va"
proof -
  note tl = tab_leaf [OF inv p0 E]
  show "pt_inv v' A' root" using inv b unfolding pt_inv_def tl table_ok_def by blast
  assume "\<not> (rpath va 0 = p0 \<and> idx 0 va = i0)"
  then have "\<not> (rpath va k = p0 \<and> idx k va = i0)" if "k \<le> 3" for k
    using rpath_level [OF that, of va p0] p0(2) by (cases "k = 0") auto
  then show "walk v' root va = walk v root va" by (rule walk_avoid [OF inv p0(1) E])
qed

section \<open>Allocating tables\<close>

lemma free_frames_bound: "buddy_inv s A \<Longrightarrow> b \<in> free_frames s \<Longrightarrow> b < BUDDY_MAX_PAGES"
proof -
  assume inv: "buddy_inv s A" and "b \<in> free_frames s"
  then obtain c where "c \<in> free_blocks s" "b \<in> blk c" by (auto simp: free_frames_def)
  moreover have "bounds_ok s (free_blocks s \<union> A)" using inv by (simp add: buddy_inv_def)
  ultimately have "b \<in> {..<total_phys_pages s}" "total_phys_pages s \<le> BUDDY_MAX_PAGES" unfolding bounds_ok_def by blast+
  then show ?thesis by simp
qed

lemma frame_props: "b < BUDDY_MAX_PAGES \<Longrightarrow> frame_addr b mod 4096 = 0 \<and> frame_addr b < KERNEL_PHYS_MAX \<and> frame_addr b \<noteq> 0"
  by (simp add: frame_addr_def PAGE_SIZE_def BUDDY_MAX_PAGES_def KERNEL_PHYS_MAX_def)

lemma memset_zero_again: "(\<And>x. a \<le> x \<Longrightarrow> x < a + n \<Longrightarrow> m x = 0) \<Longrightarrow> fst (memset m a 0 n) = m"
  by (auto simp: memset_eq)

text \<open>A successful allocation for a table: the new state differs from the old one in the allocator and in the fresh, cleared frame.\<close>

definition fresh_table :: "vm \<Rightarrow> block set \<Rightarrow> nat \<Rightarrow> vm \<Rightarrow> bool" where
  "fresh_table v A b v' \<longleftrightarrow> (\<exists>s. v' = set_phys (\<lambda>_. s) v \<and> buddy_inv s (insert (b, 0) A) \<and> b \<in> free_frames (phys v) \<and>
     free_frames s = free_frames (phys v) - {b} \<and> alloc_pages 0 (phys v) = Some (s, Some (frame_addr b)) \<and> alloc_success (phys v) A 0 s b \<and>
     ram s = (\<lambda>x. if frame_addr b \<le> x \<and> x < frame_addr b + PAGE_SIZE then 0 else ram (phys v) x))"

lemma alloc_page_cases:
  assumes inv: "buddy_inv (phys v) A"
  shows "(vm_alloc_page v = Some (v, 0) \<and> alloc_table_page v = Some (v, 0) \<and> free_blocks (phys v) = {}) \<or>
    (\<exists>b v'. vm_alloc_page v = Some (v', frame_addr b) \<and> alloc_table_page v = Some (v', frame_addr b) \<and> fresh_table v A b v')"
proof -
  have base: "pfn_to_phys (phys v) q = frame_addr q" for q
    using inv by (simp add: buddy_inv_def bounds_ok_def pfn_to_phys_def frame_addr_def)
  consider (no) "alloc_pages 0 (phys v) = Some (phys v, None)" "free_blocks (phys v) = {}"
    | (ok) b s where "alloc_pages 0 (phys v) = Some (s, Some (frame_addr b))" "alloc_success (phys v) A 0 s b"
    using alloc_pages_total [OF inv, of 0] unfolding base by (metis equals0I le0 not_less_zero)
  then show ?thesis
  proof cases
    case no
    have "set_phys (\<lambda>_. phys v) v = v" by (simp add: set_phys_def)
    then show ?thesis using no by (simp add: vm_alloc_page_def alloc_table_page_def alloc_page_def)
  next
    case ok
    let ?v = "set_phys (\<lambda>_. s) v"
    note al = ok(2) [unfolded alloc_success_def base]
    have f: "b \<in> free_frames (phys v)" "free_frames s = free_frames (phys v) - {b}" "buddy_inv s (insert (b, 0) A)"
      "ram s = (\<lambda>x. if frame_addr b \<le> x \<and> x < frame_addr b + PAGE_SIZE then 0 else ram (phys v) x)"
      using al by simp_all
    then have nz: "frame_addr b \<noteq> 0" using frame_props free_frames_bound [OF inv] by blast
    have "fst (memset (ram s) (frame_addr b) 0 PAGE_SIZE) = ram s" by (rule memset_zero_again) (simp add: f(4))
    then have "set_phys (ram_update (\<lambda>m. fst (memset m (frame_addr b) 0 PAGE_SIZE))) ?v = ?v"
      by (simp add: set_phys_def)
    then have "vm_alloc_page v = Some (?v, frame_addr b)" "alloc_table_page v = Some (?v, frame_addr b)"
      using ok(1) nz by (simp_all add: vm_alloc_page_def alloc_table_page_def alloc_page_def)
    moreover have "fresh_table v A b ?v" using ok f unfolding fresh_table_def by (intro exI [of _ s]) simp
    ultimately show ?thesis by blast
  qed
qed

lemma bytes_val_zero: "bytes_val (map (\<lambda>_. 0) xs) = 0"
  by (induction xs) simp_all

lemma fresh_tableD:
  assumes "fresh_table v A b v'" "buddy_inv (phys v) A"
  shows "buddy_inv (phys v') (insert (b, 0) A)" "b \<in> free_frames (phys v)" "free_frames (phys v') = free_frames (phys v) - {b}"
    "b < BUDDY_MAX_PAGES" "j < 512 \<Longrightarrow> tbl_get v' (frame_addr b) j = 0"
    "t mod 4096 = 0 \<Longrightarrow> t \<noteq> frame_addr b \<Longrightarrow> j < 512 \<Longrightarrow> tbl_get v' t j = tbl_get v t j" "cr3 v' = cr3 v" "vm_kernel_cr3 v' = vm_kernel_cr3 v"
proof -
  obtain s where s: "v' = set_phys (\<lambda>_. s) v" "buddy_inv s (insert (b, 0) A)" "b \<in> free_frames (phys v)" "free_frames s = free_frames (phys v) - {b}"
    "ram s = (\<lambda>x. if frame_addr b \<le> x \<and> x < frame_addr b + PAGE_SIZE then 0 else ram (phys v) x)"
    using assms(1) unfolding fresh_table_def by blast
  then show b: "buddy_inv (phys v') (insert (b, 0) A)" "b \<in> free_frames (phys v)" "free_frames (phys v') = free_frames (phys v) - {b}"
    "cr3 v' = cr3 v" "vm_kernel_cr3 v' = vm_kernel_cr3 v"
    by simp_all
  show B: "b < BUDDY_MAX_PAGES" using free_frames_bound [OF assms(2) b(2)] .
  have r: "ram (phys v') = (\<lambda>x. if frame_addr b \<le> x \<and> x < frame_addr b + PAGE_SIZE then 0 else ram (phys v) x)"
    using s(1,5) by simp
  show "tbl_get v' (frame_addr b) j = 0" if "j < 512"
  proof -
    have "load64 (ram (phys v')) (frame_addr b + 8 * j) = load64 (\<lambda>_. 0) (frame_addr b + 8 * j)"
      using that by (intro load64_cong) (simp add: r PAGE_SIZE_def)
    also have "\<dots> = 0" by (simp add: load64_def bytes_val_zero)
    finally show ?thesis by (simp add: tbl_get_def)
  qed
  have so: "same_outside (frame_addr b) 4096 (ram (phys v)) (ram (phys v'))" by (simp add: r same_outside_def PAGE_SIZE_def)
  show "tbl_get v' t j = tbl_get v t j" if "t mod 4096 = 0" "t \<noteq> frame_addr b" "j < 512"
    by (rule tbl_get_frame [OF so]) (use frame_props [OF B] that in auto)
qed

end
