(* ===== verification/PageTableMap.thy ===== *)
theory PageTableMap
  imports PageTableInv
begin

text \<open>
  The operations on single mappings: \<open>map_page\<close> and \<open>unmap_page\<close> against the processor's walk, the
  reference counts of mapped pages, and what an intermediate entry without the user bit does to a mapping.
\<close>

section \<open>One level of map_page\<close>

definition open_path :: "vm \<Rightarrow> nat \<Rightarrow> u64 \<Rightarrow> bool" where
  "open_path v root va \<longleftrightarrow> (\<forall>k t. 1 \<le> k \<longrightarrow> k \<le> 3 \<longrightarrow> tab v root (rpath va k) = Some t \<longrightarrow>
     has (tbl_get v t (idx k va)) PTE_PRESENT \<longrightarrow> has (tbl_get v t (idx k va)) PTE_USER \<and> has (tbl_get v t (idx k va)) PTE_RW)"

definition struct_flags_ok :: "u64 \<Rightarrow> bool" where
  "struct_flags_ok sf \<longleftrightarrow> sf = PTE_STRUCT_FLAGS \<or> sf = PTE_STRUCT_FLAGS OR PTE_USER"

lemma struct_entry:
  assumes "struct_flags_ok sf" "b < BUDDY_MAX_PAGES"
  shows "entry_addr (of_nat (frame_addr b) OR sf) = frame_addr b" "has (of_nat (frame_addr b) OR sf) PTE_PRESENT"
    "\<not> has (of_nat (frame_addr b) OR sf) PTE_PS" "has (of_nat (frame_addr b) OR sf) PTE_RW"
    "has (of_nat (frame_addr b) OR sf) PTE_USER \<longleftrightarrow> has sf PTE_USER"
proof -
  have f: "frame_addr b mod 4096 = 0" "frame_addr b < 2 ^ 52"
    using frame_props [OF assms(2)] by (auto simp: KERNEL_PHYS_MAX_def)
  have sf: "bit sf 0" "bit sf 1" "\<not> bit sf 7" "\<And>n. bit sf n \<Longrightarrow> n < 12"
    using assms(1) by (auto simp: struct_flags_ok_def bit_or_iff bit_struct_flags bit_consts)
  show "entry_addr (of_nat (frame_addr b) OR sf) = frame_addr b"
    by (rule entry_addr_eq [OF f]) (simp add: sf)
  have "take_bit 12 (frame_addr b) = 0" using f(1) by (simp add: take_bit_eq_mod)
  then have "\<not> bit (of_nat (frame_addr b) :: u64) n" if "n < 12" for n
    using that by (metis bit_0_eq bit_of_nat_iff bit_take_bit_iff bot_apply bot_bool_def)
  then show "has (of_nat (frame_addr b) OR sf) PTE_PRESENT" "\<not> has (of_nat (frame_addr b) OR sf) PTE_PS"
    "has (of_nat (frame_addr b) OR sf) PTE_RW" "has (of_nat (frame_addr b) OR sf) PTE_USER \<longleftrightarrow> has sf PTE_USER"
    by (simp_all add: has_bits bit_or_iff sf(1,3) sf(2) [simplified])
qed

lemma frame_inj: "frame_addr a = frame_addr b \<longleftrightarrow> a = b"
  by (simp add: frame_addr_def PAGE_SIZE_def)

lemma free_frames_ram [simp]: "free_frames (ram_update f s) = free_frames s"
  by (simp add: free_frames_def)

lemma tbl_set_phys [simp]: "phys (tbl_set t i e v) = ram_update (\<lambda>m. store64 m (t + 8 * i) e) (phys v)" "cr3 (tbl_set t i e v) = cr3 v"
  by (simp_all add: tbl_set_def)

text \<open>A table that is not present is allocated, cleared and linked; no walk notices.\<close>

lemma new_table:
  assumes inv: "pt_inv v A root" and p0: "tab v root p0 = Some t" "length p0 < 3" and i: "i < 512" "\<not> has (tbl_get v t i) PTE_PRESENT"
    and sf: "struct_flags_ok sf" and fr: "fresh_table v A b v1"
  defines "v' \<equiv> tbl_set t i (of_nat (frame_addr b) OR sf) v1"
  shows "pt_inv v' (insert (b, 0) A) root" "tab v' root q = (if q = i # p0 then Some (frame_addr b) else tab v root q)"
    "walk v' root va = walk v root va" "same_entries v root (t, i) v'" "tbl_get v' t i = of_nat (frame_addr b) OR sf"
    "j < 512 \<Longrightarrow> tbl_get v' (frame_addr b) j = 0"
proof -
  have bi: "buddy_inv (phys v) A" using inv by (simp add: pt_inv_def)
  note f = fresh_tableD [OF fr bi]
  note B = frame_props [OF f(4)]
  have ok: "x mod 4096 = 0" "x \<noteq> frame_addr b" if "tab v root p = Some x" for p x
    using pt_inv_table [OF inv that] f(2) by (auto simp: table_ok_def)
  note t = ok [OF p0(1)]
  show E: "same_entries v root (t, i) v'" unfolding same_entries_def
  proof (intro allI impI)
    fix p x j assume x: "tab v root p = Some x" "j < 512" "(x, j) \<noteq> (t, i)"
    then show "tbl_get v' x j = tbl_get v x j"
      using tbl_get_set [OF t(1) ok(1) [OF x(1)] i(1) x(2)] f(6) [OF ok [OF x(1)] x(2)] by (auto simp: v'_def)
  qed
  show e: "tbl_get v' t i = of_nat (frame_addr b) OR sf" using tbl_get_set [OF t(1) t(1) i(1) i(1)] by (simp add: v'_def)
  show z: "tbl_get v' (frame_addr b) j = 0" if "j < 512" for j
    using tbl_get_set [OF t(1) _ i(1) that, of "frame_addr b"] B t(2) f(5) [OF that] by (simp add: v'_def)
  note se = struct_entry [OF sf f(4)]
  have nf: "table_ok v' (frame_addr b)" "tab v root r \<noteq> Some (frame_addr b)" for r
  proof -
    have "frame_addr b \<notin> frame_addr ` (free_frames (phys v) - {b})" by (auto simp: frame_inj)
    then show "table_ok v' (frame_addr b)" using B f(3) by (simp add: table_ok_def v'_def)
    show "tab v root r \<noteq> Some (frame_addr b)" using ok(2) by auto
  qed
  note l = inv p0 i E
  show "tab v' root q = (if q = i # p0 then Some (frame_addr b) else tab v root q)"
    by (rule tab_link [OF l]) (use se e z in simp_all)
  show "pt_inv v' (insert (b, 0) A) root" "walk v' root va = walk v root va"
    by (rule link_table [OF l, of "frame_addr b"]; use se e z f(1,3) nf in \<open>simp add: v'_def\<close>)+
qed

lemma not_huge:
  assumes "tab v root (rpath va 1) = Some t" "walk v root va = None"
  shows "\<not> (has (tbl_get v t (idx 1 va)) PTE_PRESENT \<and> has (tbl_get v t (idx 1 va)) PTE_PS)"
  using walk_reach [of 1 v root va t] assms walk_from_Suc [of v 0] by auto

text \<open>The outcome of one level: out of memory with nothing changed, or the table of the next level.\<close>

definition kept_entries :: "vm \<Rightarrow> nat \<Rightarrow> vm \<Rightarrow> bool" where
  "kept_entries v root v' \<longleftrightarrow> (\<forall>p t j. tab v root p = Some t \<longrightarrow> j < 512 \<longrightarrow> has (tbl_get v t j) PTE_PRESENT \<longrightarrow>
     tab v' root p = Some t \<and> tbl_get v' t j = tbl_get v t j)"

definition stepped :: "vm \<Rightarrow> nat \<Rightarrow> u64 \<Rightarrow> u64 \<Rightarrow> nat \<Rightarrow> vm \<Rightarrow> nat \<Rightarrow> bool" where
  "stepped v root va sf l v' t' \<longleftrightarrow> tab v' root (rpath va l) = Some t' \<and> (\<exists>A'. pt_inv v' A' root) \<and> (\<forall>va'. walk v' root va' = walk v root va') \<and> kept_entries v root v' \<and>
     (has sf PTE_USER \<longrightarrow> open_path v root va \<longrightarrow> open_path v' root va)"

lemma next_table_ok:
  assumes inv: "pt_inv v A root" and t: "tab v root (rpath va (Suc l)) = Some t" and l: "Suc l \<le> 3" and none: "walk v root va = None"
    and sf: "struct_flags_ok sf"
  shows "(next_table sf t (idx (Suc l) va) v = Some (v, 0) \<and> \<not> has (tbl_get v t (idx (Suc l) va)) PTE_PRESENT \<and> free_blocks (phys v) = {}) \<or>
    (\<exists>v' t'. next_table sf t (idx (Suc l) va) v = Some (v', t') \<and> (t' = 0 \<longrightarrow> has (tbl_get v t (idx (Suc l) va)) PTE_PRESENT) \<and>
      stepped v root va sf l v' t')"
proof (cases "has (tbl_get v t (idx (Suc l) va)) PTE_PRESENT")
  case True
  then have "\<not> (l = 0 \<and> has (tbl_get v t (idx (Suc l) va)) PTE_PS)" using not_huge [of v root va t] t none by auto
  then have "tab v root (rpath va l) = Some (entry_addr (tbl_get v t (idx (Suc l) va)))"
    using t l True by (auto simp: rpath_simps child_def Let_def)
  then show ?thesis using True inv by (auto simp: next_table_def Let_def stepped_def kept_entries_def)
next
  case False
  let ?i = "idx (Suc l) va"
  have bi: "buddy_inv (phys v) A" using inv by (simp add: pt_inv_def)
  consider (no) "alloc_table_page v = Some (v, 0)" "free_blocks (phys v) = {}"
    | (ok) b v1 where "alloc_table_page v = Some (v1, frame_addr b)" "fresh_table v A b v1" using alloc_page_cases [OF bi] by blast
  then show ?thesis
  proof cases
    case no
    then show ?thesis using False by (simp add: next_table_def Let_def)
  next
    case ok
    define v' where "v' = tbl_set t ?i (of_nat (frame_addr b) OR sf) v1"
    have len: "length (rpath va (Suc l)) < 3" using l by (simp add: rpath_simps)
    note n = new_table [OF inv t len idx_less False sf ok(2), folded v'_def]
    note se = struct_entry [OF sf fresh_tableD(4) [OF ok(2) bi]]
    have nz: "frame_addr b \<noteq> 0" by (simp add: frame_addr_def)
    have open_: "open_path v' root va" if u: "has sf PTE_USER" "open_path v root va"
      unfolding open_path_def
    proof (intro allI impI)
      fix k x assume k: "1 \<le> k" "k \<le> 3" "tab v' root (rpath va k) = Some x" "has (tbl_get v' x (idx k va)) PTE_PRESENT"
      have ne: "rpath va k \<noteq> ?i # rpath va (Suc l)"
      proof
        assume "rpath va k = ?i # rpath va (Suc l)"
        then have "x = frame_addr b" using k(3) n(2) [of "rpath va k"] by (metis option.inject)
        then show False using k(4) n(6) [OF idx_less] by (simp add: has_def)
      qed
      then have x: "tab v root (rpath va k) = Some x" using k(3) n(2) [of "rpath va k"] by (metis (no_types))
      show "has (tbl_get v' x (idx k va)) PTE_USER \<and> has (tbl_get v' x (idx k va)) PTE_RW"
      proof (cases "(x, idx k va) = (t, ?i)")
        case True
        then show ?thesis using n(5) se u(1) by auto
      next
        case False
        then have "tbl_get v' x (idx k va) = tbl_get v x (idx k va)" using n(4) x unfolding same_entries_def by simp
        then show ?thesis using u(2) k x unfolding open_path_def by auto
      qed
    qed
    have nt: "next_table sf t ?i v = Some (v', frame_addr b)" using False ok(1) nz by (simp add: next_table_def Let_def v'_def)
    have kept: "kept_entries v root v'" unfolding kept_entries_def
    proof (intro allI impI)
      fix p x j assume x: "tab v root p = Some x" "j < 512" "has (tbl_get v x j) PTE_PRESENT"
      have "p \<noteq> ?i # rpath va (Suc l)" using x(1) t False by (auto simp: child_def Let_def)
      moreover have "(x, j) \<noteq> (t, ?i)" using x(3) False by auto
      ultimately show "tab v' root p = Some x \<and> tbl_get v' x j = tbl_get v x j"
        using n(2) [of p] n(4) x unfolding same_entries_def by auto
    qed
    have "tab v' root (rpath va l) = Some (frame_addr b)" using n(2) [of "rpath va l"] l by (simp add: rpath_simps)
    then have "stepped v root va sf l v' (frame_addr b)" unfolding stepped_def using n(1) n(3) open_ kept by auto
    then show ?thesis using nt nz by (intro disjI2 exI [of _ v'] exI [of _ "frame_addr b"]) simp
  qed
qed

lemma kept_trans: "kept_entries v root v1 \<Longrightarrow> kept_entries v1 root v2 \<Longrightarrow> kept_entries v root v2"
  unfolding kept_entries_def by fastforce

lemma stepped_trans:
  assumes "stepped v root va sf l v1 t1" "stepped v1 root va sf m v2 t2"
  shows "stepped v root va sf m v2 t2"
  using assms kept_trans [of v root v1 v2] unfolding stepped_def by auto

text \<open>The three levels together: the table of leaves, or out of memory after part of the way.\<close>

definition descend :: "u64 \<Rightarrow> nat \<Rightarrow> u64 \<Rightarrow> vm \<Rightarrow> (vm \<times> nat option) option" where
  "descend sf root va v = do {
     pml4 \<leftarrow> phys_to_virt root;
     (v1, t1) \<leftarrow> next_table sf pml4 (idx 3 va) v;
     if t1 = 0 \<and> \<not> has (tbl_get v pml4 (idx 3 va)) PTE_PRESENT then Some (v1, None)
     else do {
       pdpt \<leftarrow> phys_to_virt t1;
       (v2, t2) \<leftarrow> next_table sf pdpt (idx 2 va) v1;
       if t2 = 0 \<and> \<not> has (tbl_get v1 pdpt (idx 2 va)) PTE_PRESENT then Some (v2, None)
       else do {
         pd \<leftarrow> phys_to_virt t2;
         (v3, t3) \<leftarrow> next_pt sf va pd (idx 1 va) v2;
         Some (v3, if t3 = 0 \<and> \<not> (has (tbl_get v2 pd (idx 1 va)) PTE_PRESENT \<and> \<not> has (tbl_get v2 pd (idx 1 va)) PTE_PS)
           then None else Some t3) } } }"

definition struct_of :: "u64 \<Rightarrow> u64" where
  "struct_of flags = (if has flags PTE_USER then PTE_STRUCT_FLAGS OR PTE_USER else PTE_STRUCT_FLAGS)"

lemma struct_of_ok: "struct_flags_ok (struct_of flags)" "has (struct_of flags) PTE_USER = has flags PTE_USER"
  by (auto simp: struct_of_def struct_flags_ok_def has_bits bit_or_iff bit_struct_flags bit_consts)

lemma map_page_split:
  "map_page root va pa flags v = do {
     (v3, r) \<leftarrow> descend (struct_of flags) root va v;
     case r of
       None \<Rightarrow> Some (v3, - 1)
     | Some pt_phys \<Rightarrow> do {
         pt \<leftarrow> phys_to_virt pt_phys;
         v4 \<leftarrow> drop_old (tbl_get v3 pt (idx 0 va)) v3;
         Some (invlpg va (page_ref_inc (unat (pa AND PTE_ADDR_MASK)) (tbl_set pt (idx 0 va) (leaf_entry pa flags) v4)), 0) } }"
  unfolding map_page_def descend_def Let_def struct_of_def [symmetric]
  by (simp add: case_prod_unfold if_distrib [where f = "\<lambda>x. Option.bind x _"] cong: if_cong) (auto split: bind_splits)

lemma stepped_virt: "stepped v root va sf l v' t \<Longrightarrow> phys_to_virt t = Some t"
  unfolding stepped_def using pt_inv_table by (fastforce simp: phys_to_virt_def table_ok_def)

text \<open>What each attempt to go on leads to.\<close>

definition level_result :: "vm \<Rightarrow> nat \<Rightarrow> u64 \<Rightarrow> u64 \<Rightarrow> vm \<Rightarrow> nat option \<Rightarrow> bool" where
  "level_result v root va sf v' r \<longleftrightarrow> (case r of
       None \<Rightarrow> free_blocks (phys v') = {} \<and> (\<exists>t l. stepped v root va sf l v' t)
     | Some t \<Rightarrow> stepped v root va sf 0 v' t)"

lemma stepped_refl: "pt_inv v A root \<Longrightarrow> tab v root (rpath va l) = Some t \<Longrightarrow> stepped v root va sf l v t"
  unfolding stepped_def kept_entries_def by auto

lemma descend_ok:
  assumes inv: "pt_inv v A root" and none: "walk v root va = None" and sf: "struct_flags_ok sf"
  shows "\<exists>v' r. descend sf root va v = Some (v', r) \<and> level_result v root va sf v' r"
proof -
  have t3: "tab v root (rpath va (Suc 2)) = Some root" by (simp add: rpath_def)
  have s3: "stepped v root va sf 3 v root" using stepped_refl [OF inv, of va 3 root] by (simp add: rpath_simps)
  note p3 = stepped_virt [OF s3]
  consider (no) "next_table sf root (idx 3 va) v = Some (v, 0)" "\<not> has (tbl_get v root (idx 3 va)) PTE_PRESENT" "free_blocks (phys v) = {}"
    | (ok) v1 t1 where "next_table sf root (idx 3 va) v = Some (v1, t1)" "t1 = 0 \<longrightarrow> has (tbl_get v root (idx 3 va)) PTE_PRESENT" "stepped v root va sf 2 v1 t1"
    using next_table_ok [OF inv t3 _ none sf] by (auto simp: eval_nat_numeral)
  then show ?thesis
  proof cases
    case no
    then show ?thesis using s3 by (auto simp: descend_def level_result_def p3)
  next
    case ok
    then obtain A1 where 1: "pt_inv v1 A1 root" "tab v1 root (rpath va (Suc 1)) = Some t1" "walk v1 root va = None"
      using none unfolding stepped_def by (auto simp: eval_nat_numeral)
    note p2 = stepped_virt [OF ok(3)]
    consider (no) "next_table sf t1 (idx 2 va) v1 = Some (v1, 0)" "\<not> has (tbl_get v1 t1 (idx 2 va)) PTE_PRESENT" "free_blocks (phys v1) = {}"
      | (ok2) v2 t2 where "next_table sf t1 (idx 2 va) v1 = Some (v2, t2)" "t2 = 0 \<longrightarrow> has (tbl_get v1 t1 (idx 2 va)) PTE_PRESENT" "stepped v1 root va sf 1 v2 t2"
      using next_table_ok [OF 1(1,2) _ 1(3) sf] by (auto simp: eval_nat_numeral)
    then show ?thesis
    proof cases
      case no
      then show ?thesis using ok by (auto simp: descend_def level_result_def p2 p3)
    next
      case ok2
      note s2 = stepped_trans [OF ok(3) ok2(3)]
      then obtain A2 where 2: "pt_inv v2 A2 root" "tab v2 root (rpath va (Suc 0)) = Some t2" "walk v2 root va = None"
        using none unfolding stepped_def by auto
      note p1 = stepped_virt [OF s2]
      have np: "next_pt sf va t2 (idx 1 va) v2 = next_table sf t2 (idx 1 va) v2" "\<not> (has (tbl_get v2 t2 (idx 1 va)) PTE_PRESENT \<and> has (tbl_get v2 t2 (idx 1 va)) PTE_PS)"
        using not_huge [of v2 root va t2] 2(2,3) by (auto simp: next_pt_def Let_def)
      consider (no) "next_table sf t2 (idx 1 va) v2 = Some (v2, 0)" "\<not> has (tbl_get v2 t2 (idx 1 va)) PTE_PRESENT" "free_blocks (phys v2) = {}"
        | (ok3) v3 t3 where "next_table sf t2 (idx 1 va) v2 = Some (v3, t3)" "t3 = 0 \<longrightarrow> has (tbl_get v2 t2 (idx 1 va)) PTE_PRESENT" "stepped v2 root va sf 0 v3 t3"
        using next_table_ok [OF 2(1,2) _ 2(3) sf] by auto
      then show ?thesis
      proof cases
        case no
        then have "descend sf root va v = Some (v2, None)" using ok(1,2) ok2(1,2) p1 p2 p3 np by (auto simp: descend_def simp del: One_nat_def)
        then show ?thesis using no(3) s2 by (auto simp: level_result_def)
      next
        case ok3
        then have "descend sf root va v = Some (v3, Some t3)" using ok(1,2) ok2(1,2) p1 p2 p3 np by (auto simp: descend_def simp del: One_nat_def)
        then show ?thesis using stepped_trans [OF s2 ok3(3)] by (auto simp: level_result_def)
      qed
    qed
  qed
qed

section \<open>The leaf\<close>

lemma buddy_inv_ref [simp]: "buddy_inv (set_page q (pg_ref_count_update f) s) A = buddy_inv s A"
proof -
  let ?s = "set_page q (pg_ref_count_update f) s"
  have "free_blocks ?s = free_blocks s" "lists_ok ?s = lists_ok s" by (simp_all add: set_page_blocks)
  moreover have "pg_flags (page_array ?s x) = pg_flags (page_array s x)" "pg_order (page_array ?s x) = pg_order (page_array s x)"
    "pg_phys_addr (page_array ?s x) = pg_phys_addr (page_array s x)" for x by (simp_all add: set_page_def)
  moreover have "phys_mem_base ?s = phys_mem_base s" "total_phys_pages ?s = total_phys_pages s" by (simp_all add: set_page_def)
  ultimately show ?thesis
    by (simp add: buddy_inv_def no_stray_free_def bounds_ok_def free_page_ok_def used_page_ok_def pfn_to_phys_def has_flag_def)
qed

lemma free_frames_ref [simp]: "free_frames (set_page q (pg_ref_count_update f) s) = free_frames s"
  by (simp add: free_frames_def set_page_blocks)

lemma page_ref_inc_keeps:
  "ram (phys (page_ref_inc pa v)) = ram (phys v)" "buddy_inv (phys (page_ref_inc pa v)) A = buddy_inv (phys v) A"
  "free_frames (phys (page_ref_inc pa v)) = free_frames (phys v)" "cr3 (page_ref_inc pa v) = cr3 v" "free_blocks (phys (page_ref_inc pa v)) = free_blocks (phys v)"
  by (auto simp: page_ref_inc_def set_ref_def set_page_blocks split: option.split) (simp_all add: set_page_def)

lemma leaf_entry_bits:
  "entry_addr (leaf_entry pa flags) = unat (pa AND PTE_ADDR_MASK)" "has (leaf_entry pa flags) PTE_PRESENT"
  "has (leaf_entry pa flags) PTE_USER = has flags PTE_USER" "has (leaf_entry pa flags) PTE_RW = has flags PTE_RW"
proof -
  have m: "(0xFFF :: u64) = mask 12" by (simp add: mask_eq_exp_minus_1)
  have b: "bit (leaf_entry pa flags) n \<longleftrightarrow> (if n < 12 then bit flags n \<or> n = 0 else bit pa n \<or> (n = 63 \<and> bit flags 63))" for n
    unfolding leaf_entry_def m Let_def by (auto simp: bit_and_iff bit_or_iff bit_not_iff bit_mask_iff has_bits bit_consts dest: bit_imp_le_length)
  show "has (leaf_entry pa flags) PTE_PRESENT" "has (leaf_entry pa flags) PTE_USER = has flags PTE_USER"
    "has (leaf_entry pa flags) PTE_RW = has flags PTE_RW" by (simp_all add: has_bits b)
  have "leaf_entry pa flags AND PTE_ADDR_MASK = pa AND PTE_ADDR_MASK"
    by (rule bit_eqI) (auto simp: bit_and_iff bit_addr_mask b)
  then show "entry_addr (leaf_entry pa flags) = unat (pa AND PTE_ADDR_MASK)" by (simp add: entry_addr_def)
qed

lemma walk_reach_open:
  assumes "l \<le> 3" "tab v root (rpath va l) = Some t" "open_path v root va"
  shows "walk v root va = walk_from v l t va True True"
  using assms(1,2)
proof (induction "3 - l" arbitrary: l t)
  case 0
  then show ?case by (auto simp: walk_def rpath_simps)
next
  case (Suc n)
  then have l: "l < 3" by simp
  obtain t' where t': "tab v root (rpath va (Suc l)) = Some t'" "child v (Suc l) t' (idx (Suc l) va) = Some t"
    using Suc.prems l by (auto simp: rpath_simps split: bind_splits)
  have "n = 3 - Suc l" using Suc.hyps(2) by simp
  from Suc.hyps(1) [OF this _ t'(1)] l have "walk v root va = walk_from v (Suc l) t' va True True" by simp
  moreover have "has (tbl_get v t' (idx (Suc l) va)) PTE_PRESENT" using t'(2) by (auto simp: child_def Let_def split: if_splits)
  moreover from this have "has (tbl_get v t' (idx (Suc l) va)) PTE_USER \<and> has (tbl_get v t' (idx (Suc l) va)) PTE_RW"
    using assms(3) t'(1) l unfolding open_path_def by (metis Suc_le_eq le_add1 plus_1_eq_Suc)
  ultimately show ?case using t'(2) by (auto simp: walk_from_Suc child_def Let_def split: if_splits)
qed

section \<open>map_page\<close>

definition same_page :: "u64 \<Rightarrow> u64 \<Rightarrow> bool" where
  "same_page va va' \<longleftrightarrow> rpath va 0 = rpath va' 0 \<and> idx 0 va = idx 0 va'"

text \<open>The last part of \<open>map_page\<close>, where the leaf was not present.\<close>

definition set_mapping :: "nat \<Rightarrow> u64 \<Rightarrow> u64 \<Rightarrow> u64 \<Rightarrow> vm \<Rightarrow> vm" where
  "set_mapping pt va pa flags v = invlpg va (page_ref_inc (unat (pa AND PTE_ADDR_MASK)) (tbl_set pt (idx 0 va) (leaf_entry pa flags) v))"

lemma set_mapping_entry:
  assumes "t mod 4096 = 0" "pt mod 4096 = 0" "j < 512"
  shows "tbl_get (set_mapping pt va pa flags v) t j = (if t = pt \<and> j = idx 0 va then leaf_entry pa flags else tbl_get v t j)"
proof -
  have "tbl_get (set_mapping pt va pa flags v) t j = tbl_get (tbl_set pt (idx 0 va) (leaf_entry pa flags) v) t j"
    unfolding set_mapping_def by (intro tbl_get_cong) (simp add: page_ref_inc_keeps)
  then show ?thesis using tbl_get_set [OF assms(2,1) idx_less assms(3)] by simp
qed

lemma set_mapping_ok:
  fixes pa flags :: u64
  assumes inv: "pt_inv v A root" and pt: "tab v root (rpath va 0) = Some pt"
  defines "v' \<equiv> set_mapping pt va pa flags v"
  shows "pt_inv v' A root" "\<not> same_page va' va \<Longrightarrow> walk v' root va' = walk v root va'"
    "\<exists>w. walk v' root va = Some w \<and> w_page w = unat (pa AND PTE_ADDR_MASK) \<and> (w_user w \<longrightarrow> has flags PTE_USER) \<and> (w_rw w \<longrightarrow> has flags PTE_RW) \<and>
      (open_path v root va \<longrightarrow> w_user w = has flags PTE_USER \<and> w_rw w = has flags PTE_RW)"
proof -
  have al: "x mod 4096 = 0" if "tab v root p = Some x" for p x using pt_inv_table [OF inv that] by (simp add: table_ok_def)
  have len: "length (rpath va 0) = 3" by (simp add: rpath_simps)
  have E: "same_entries v root (pt, idx 0 va) v'" unfolding same_entries_def v'_def using set_mapping_entry [OF al al [OF pt]] by auto
  have b: "buddy_inv (phys v') A" "free_frames (phys v') = free_frames (phys v)"
    using inv by (simp_all add: pt_inv_def v'_def set_mapping_def page_ref_inc_keeps)
  note sl = set_leaf [OF inv pt len E b(1)]
  show "pt_inv v' A root" using sl(1) b(2) by simp
  show "walk v' root va' = walk v root va'" if "\<not> same_page va' va" using sl(2) b(2) that by (auto simp: same_page_def)
  note tl = tab_leaf [OF inv pt len E]
  have e: "tbl_get v' pt (idx 0 va) = leaf_entry pa flags" using set_mapping_entry [OF al [OF pt] al [OF pt] idx_less] by (simp add: v'_def)
  have wf: "walk_from v' 0 pt va u r = Some \<lparr> w_page = unat (pa AND PTE_ADDR_MASK), w_user = (u \<and> has flags PTE_USER), w_rw = (r \<and> has flags PTE_RW) \<rparr>" for u r
    by (simp add: e leaf_entry_bits Let_def)
  have "walk v' root va = walk_from v' 0 pt va True True" if o: "open_path v root va"
  proof (rule walk_reach_open)
    show "open_path v' root va" unfolding open_path_def
    proof (intro allI impI)
      fix k t assume k: "1 \<le> k" "k \<le> 3" "tab v' root (rpath va k) = Some t" "has (tbl_get v' t (idx k va)) PTE_PRESENT"
      then have t: "tab v root (rpath va k) = Some t" by (simp add: tl)
      have "t \<noteq> pt" using pt_inv_tree [OF inv t, of "rpath va 0"] pt k(1,2) rpath_simps(3) [of k va] len by auto
      then have "tbl_get v' t (idx k va) = tbl_get v t (idx k va)" using E t unfolding same_entries_def by simp
      then show "has (tbl_get v' t (idx k va)) PTE_USER \<and> has (tbl_get v' t (idx k va)) PTE_RW"
        using o k t unfolding open_path_def by auto
    qed
  qed (simp_all add: tl pt)
  moreover obtain u r where "walk v' root va = walk_from v' 0 pt va u r" using walk_reach [of 0 v' root va pt] tl pt by auto
  ultimately show "\<exists>w. walk v' root va = Some w \<and> w_page w = unat (pa AND PTE_ADDR_MASK) \<and> (w_user w \<longrightarrow> has flags PTE_USER) \<and> (w_rw w \<longrightarrow> has flags PTE_RW) \<and>
      (open_path v root va \<longrightarrow> w_user w = has flags PTE_USER \<and> w_rw w = has flags PTE_RW)"
    unfolding wf by (cases "open_path v root va") auto
qed

lemma set_mapping_tab:
  assumes inv: "pt_inv v A root" and pt: "tab v root (rpath va 0) = Some pt"
  shows "tab (set_mapping pt va pa flags v) root p = tab v root p" "tbl_get (set_mapping pt va pa flags v) pt (idx 0 va) = leaf_entry pa flags"
proof -
  have al: "x mod 4096 = 0" if "tab v root p = Some x" for p x using pt_inv_table [OF inv that] by (simp add: table_ok_def)
  note e = set_mapping_entry [OF al al [OF pt]]
  have "same_entries v root (pt, idx 0 va) (set_mapping pt va pa flags v)" unfolding same_entries_def using e by auto
  from tab_leaf [OF inv pt _ this] show "tab (set_mapping pt va pa flags v) root p = tab v root p" by (simp add: rpath_simps)
  show "tbl_get (set_mapping pt va pa flags v) pt (idx 0 va) = leaf_entry pa flags" using e [OF pt idx_less] by simp
qed

lemma set_mapping_kept:
  assumes inv: "pt_inv v A root" and pt: "tab v root (rpath va 0) = Some pt" and old: "\<not> has (tbl_get v pt (idx 0 va)) PTE_PRESENT"
  shows "kept_entries v root (set_mapping pt va pa flags v)"
  unfolding kept_entries_def
proof (intro allI impI)
  fix p x j assume x: "tab v root p = Some x" "j < 512" "has (tbl_get v x j) PTE_PRESENT"
  have al: "x mod 4096 = 0" if "tab v root p = Some x" for p x using pt_inv_table [OF inv that] by (simp add: table_ok_def)
  note e = set_mapping_entry [OF al al [OF pt]]
  have "tab (set_mapping pt va pa flags v) root p = Some x" using x(1) set_mapping_tab [OF inv pt] by simp
  moreover have "\<not> (x = pt \<and> j = idx 0 va)" using x(3) old by auto
  ultimately show "tab (set_mapping pt va pa flags v) root p = Some x \<and> tbl_get (set_mapping pt va pa flags v) x j = tbl_get v x j"
    using e [OF x(1,2)] by auto
qed

definition mapped :: "vm \<Rightarrow> nat \<Rightarrow> u64 \<Rightarrow> u64 \<Rightarrow> u64 \<Rightarrow> vm \<Rightarrow> bool" where
  "mapped v root va pa flags v' \<longleftrightarrow> (\<exists>w. walk v' root va = Some w \<and> w_page w = unat (pa AND PTE_ADDR_MASK) \<and>
     (w_user w \<longrightarrow> has flags PTE_USER) \<and> (w_rw w \<longrightarrow> has flags PTE_RW) \<and>
     (has flags PTE_USER \<and> open_path v root va \<longrightarrow> w_user w \<and> w_rw w = has flags PTE_RW)) \<and>
     (\<exists>pt. tab v' root (rpath va 0) = Some pt \<and> tbl_get v' pt (idx 0 va) = leaf_entry pa flags)"

lemma map_page_ok:
  assumes inv: "pt_inv v A root" and none: "walk v root va = None"
  shows "\<exists>v' r A'. map_page root va pa flags v = Some (v', r) \<and> pt_inv v' A' root \<and> kept_entries v root v' \<and>
    (\<forall>va'. \<not> same_page va' va \<longrightarrow> walk v' root va' = walk v root va') \<and>
    (if r = 0 then mapped v root va pa flags v' else r = - 1 \<and> walk v' root va = None \<and> free_blocks (phys v') = {})"
proof -
  obtain v1 r where d: "descend (struct_of flags) root va v = Some (v1, r)" "level_result v root va (struct_of flags) v1 r"
    using descend_ok [OF inv none struct_of_ok(1)] by blast
  show ?thesis
  proof (cases r)
    case None
    then obtain t l A' where "stepped v root va (struct_of flags) l v1 t" "free_blocks (phys v1) = {}" "pt_inv v1 A' root"
      using d(2) unfolding level_result_def stepped_def by auto
    then show ?thesis using d(1) None none unfolding stepped_def
      by (intro exI [of _ v1] exI [of _ "- 1"] exI [of _ A']) (simp add: map_page_split)
  next
    case (Some pt)
    then have st: "stepped v root va (struct_of flags) 0 v1 pt" using d(2) by (simp add: level_result_def)
    then obtain A' where A': "pt_inv v1 A' root" "tab v1 root (rpath va 0) = Some pt" "walk v1 root va = None" using none unfolding stepped_def by auto
    note sm = set_mapping_ok [OF A'(1,2), where pa = pa and flags = flags]
    have old: "\<not> has (tbl_get v1 pt (idx 0 va)) PTE_PRESENT"
      using walk_reach [of 0 v1 root va pt] A'(2,3) by (auto simp: Let_def split: if_splits)
    then have "drop_old (tbl_get v1 pt (idx 0 va)) v1 = Some v1" by (simp add: drop_old_def)
    then have "map_page root va pa flags v = Some (set_mapping pt va pa flags v1, 0)"
      using d(1) Some stepped_virt [OF st] by (simp add: map_page_split set_mapping_def)
    moreover have "walk (set_mapping pt va pa flags v1) root va' = walk v root va'" if "\<not> same_page va' va" for va'
      using sm(2) [OF that] st unfolding stepped_def by simp
    moreover have "kept_entries v root (set_mapping pt va pa flags v1)"
      using kept_trans [OF _ set_mapping_kept [OF A'(1,2) old]] st unfolding stepped_def by blast
    moreover have "mapped v root va pa flags (set_mapping pt va pa flags v1)"
      using sm(3) st struct_of_ok(2) [of flags] set_mapping_tab [OF A'(1,2)] A'(2) unfolding mapped_def stepped_def by auto
    ultimately show ?thesis using sm(1) by (intro exI [of _ "set_mapping pt va pa flags v1"] exI [of _ 0] exI [of _ A']) simp
  qed
qed

end
