(* ===== verification/PageTableProps.thy ===== *)
theory PageTableProps
  imports PageTableMap
begin

text \<open>
  The properties of single mappings: what \<open>map_page\<close> and \<open>unmap_page\<close> do to the processor's walk, the page that is
  released while it is being mapped again, and mappings for user mode below an entry without the user bit.
\<close>

section \<open>unmap_page\<close>

definition maps_huge :: "vm \<Rightarrow> nat \<Rightarrow> u64 \<Rightarrow> bool" where
  "maps_huge v root va \<longleftrightarrow> (\<exists>pd. tab v root (rpath va 1) = Some pd \<and> has (tbl_get v pd (idx 1 va)) PTE_PRESENT \<and> has (tbl_get v pd (idx 1 va)) PTE_PS)"

lemma rpaths: "rpath va 0 = [idx 1 va, idx 2 va, idx 3 va]" "rpath va 1 = [idx 2 va, idx 3 va]" "rpath va 2 = [idx 3 va]" "rpath va 3 = []"
  by (simp_all add: rpath_def eval_nat_numeral)

lemma pt_inv_virt: "pt_inv v A root \<Longrightarrow> tab v root p = Some t \<Longrightarrow> phys_to_virt t = Some t"
  using pt_inv_table by (fastforce simp: phys_to_virt_def table_ok_def)

lemma find_pd_eq:
  assumes inv: "pt_inv v A root"
  shows "find_pd root va v = Some (case tab v root (rpath va 1) of None \<Rightarrow> None
    | Some pd \<Rightarrow> if has (tbl_get v pd (idx 1 va)) PTE_PRESENT then Some pd else None)"
proof -
  let ?e3 = "tbl_get v root (idx 3 va)"
  note virt = pt_inv_virt [OF inv]
  have t3: "phys_to_virt root = Some root" using virt [of "[]"] by simp
  show ?thesis
  proof (cases "has ?e3 PTE_PRESENT")
    case True
    let ?t2 = "entry_addr ?e3"
    let ?e2 = "tbl_get v ?t2 (idx 2 va)"
    have t2: "tab v root [idx 3 va] = Some ?t2" using True by (simp add: child_def Let_def)
    show ?thesis
    proof (cases "has ?e2 PTE_PRESENT")
      case True
      have "tab v root (rpath va 1) = Some (entry_addr ?e2)" using t2 True by (simp add: rpaths(2) [unfolded One_nat_def] child_def Let_def)
      then show ?thesis using \<open>has ?e3 PTE_PRESENT\<close> True t3 virt [OF t2] virt [of "rpath va 1"] by (simp add: find_pd_def)
    next
      case False
      then have "tab v root (rpath va 1) = None" using t2 by (simp add: rpaths(2) [unfolded One_nat_def] child_def Let_def)
      then show ?thesis using \<open>has ?e3 PTE_PRESENT\<close> False t3 virt [OF t2] by (simp add: find_pd_def)
    qed
  next
    case False
    then have "tab v root (rpath va 1) = None" by (simp add: rpaths(2) [unfolded One_nat_def] child_def Let_def)
    then show ?thesis using False t3 by (simp add: find_pd_def)
  qed
qed

lemma no_pd: "tab v root (rpath va 1) = None \<Longrightarrow> walk v root va = None"
proof -
  assume none: "tab v root (rpath va 1) = None"
  show "walk v root va = None"
  proof (cases "tab v root (rpath va 2)")
    case None
    then have "\<not> has (tbl_get v root (idx 3 va)) PTE_PRESENT" by (auto simp: rpaths child_def Let_def split: if_splits)
    then show ?thesis using walk_absent [of 3 v root va root] by (simp add: rpaths)
  next
    case (Some t)
    then have "\<not> has (tbl_get v t (idx 2 va)) PTE_PRESENT"
      using none by (auto simp: rpaths rpaths(2) [unfolded One_nat_def] child_def Let_def split: if_splits)
    then show ?thesis using walk_absent [of 2 v root va t] Some by simp
  qed
qed

lemma clear_leaf:
  assumes inv: "pt_inv v A root" and pt: "tab v root (rpath va 0) = Some pt"
  defines "v' \<equiv> invlpg va (tbl_set pt (idx 0 va) 0 v)"
  shows "pt_inv v' A root" "walk v' root va = None" "\<not> same_page va' va \<Longrightarrow> walk v' root va' = walk v root va'"
proof -
  have al: "x mod 4096 = 0" if "tab v root p = Some x" for p x using pt_inv_table [OF inv that] by (simp add: table_ok_def)
  have e: "tbl_get v' x j = (if x = pt \<and> j = idx 0 va then 0 else tbl_get v x j)" if "tab v root p = Some x" "j < 512" for p x j
  proof -
    have "tbl_get v' x j = tbl_get (tbl_set pt (idx 0 va) 0 v) x j" unfolding v'_def by (intro tbl_get_cong) simp
    then show ?thesis using tbl_get_set [OF al [OF pt] al [OF that(1)] idx_less that(2)] by simp
  qed
  have E: "same_entries v root (pt, idx 0 va) v'" unfolding same_entries_def using e by auto
  have len: "length (rpath va 0) = 3" by (simp add: rpath_simps)
  have b: "buddy_inv (phys v') A" "free_frames (phys v') \<subseteq> free_frames (phys v)" using inv by (simp_all add: v'_def pt_inv_def)
  note sl = set_leaf [OF inv pt len E b]
  show "pt_inv v' A root" by (rule sl(1))
  show "\<not> same_page va' va \<Longrightarrow> walk v' root va' = walk v root va'" using sl(2) by (auto simp: same_page_def)
  have "tab v' root (rpath va 0) = Some pt" using tab_leaf [OF inv pt len E] pt by simp
  then show "walk v' root va = None" using walk_absent [of 0 v' root va pt] e [OF pt idx_less] by (simp add: has_def)
qed

lemma unmap_page_ok:
  assumes inv: "pt_inv v A root"
  shows "\<exists>v'. unmap_page root va v = Some v' \<and> pt_inv v' A root \<and> (\<forall>va'. \<not> same_page va' va \<longrightarrow> walk v' root va' = walk v root va') \<and>
    (if maps_huge v root va then v' = v else walk v' root va = None \<and> (walk v root va \<noteq> None \<longrightarrow> va \<in> set (flushed v')))"
proof (cases "\<exists>pd. tab v root (rpath va 1) = Some pd \<and> has (tbl_get v pd (idx 1 va)) PTE_PRESENT")
  case False
  then have "unmap_page root va v = Some v" using find_pd_eq [OF inv, of va] by (auto simp: unmap_page_def split: option.split)
  moreover have "walk v root va = None"
    using False no_pd [of v root va] walk_absent [of 1 v root va] by (cases "tab v root (rpath va 1)") auto
  ultimately show ?thesis using inv False by (auto simp: maps_huge_def)
next
  case True
  then obtain pd where pd: "tab v root (rpath va 1) = Some pd" "has (tbl_get v pd (idx 1 va)) PTE_PRESENT" by blast
  then have f: "find_pd root va v = Some (Some pd)" using find_pd_eq [OF inv, of va] by simp
  show ?thesis
  proof (cases "has (tbl_get v pd (idx 1 va)) PTE_PS")
    case True
    then show ?thesis using f inv pd by (auto simp: unmap_page_def maps_huge_def)
  next
    case False
    let ?pt = "entry_addr (tbl_get v pd (idx 1 va))"
    have pt: "tab v root (rpath va 0) = Some ?pt" using pd False rpath_simps(3) [of 1 va] by (simp add: rpath_simps(2) [of 0] child_def Let_def)
    have nh: "\<not> maps_huge v root va" using pd False by (auto simp: maps_huge_def)
    note p = pt_inv_virt [OF inv pt]
    show ?thesis
    proof (cases "has (tbl_get v ?pt (idx 0 va)) PTE_PRESENT")
      case True
      have "unmap_page root va v = Some (invlpg va (tbl_set ?pt (idx 0 va) 0 v))"
        using f False True p by (simp add: unmap_page_def)
      then show ?thesis using clear_leaf [OF inv pt] nh by (auto simp: invlpg_def)
    next
      case False
      then have "unmap_page root va v = Some v" using f \<open>\<not> has (tbl_get v pd (idx 1 va)) PTE_PS\<close> p by (simp add: unmap_page_def)
      then show ?thesis using walk_absent [of 0 v root va, OF _ pt False] inv nh by simp
    qed
  qed
qed

section \<open>Mapping a page again\<close>

lemma child_present: "child v (Suc l) t i = Some t' \<Longrightarrow> has (tbl_get v t i) PTE_PRESENT \<and> t' = entry_addr (tbl_get v t i) \<and> (l = 0 \<longrightarrow> \<not> has (tbl_get v t i) PTE_PS)"
  by (auto simp: child_def Let_def split: if_splits)

lemma descend_present:
  assumes inv: "pt_inv v A root" and pt: "tab v root (rpath va 0) = Some pt"
  shows "descend sf root va v = Some (v, Some pt)"
proof -
  obtain t2 t1 where t: "child v 3 root (idx 3 va) = Some t2" "child v 2 t2 (idx 2 va) = Some t1" "child v 1 t1 (idx 1 va) = Some pt"
    using pt by (auto simp: rpaths split: bind_splits)
  note c = child_present [of v 2 root "idx 3 va" t2] child_present [of v 1 t2 "idx 2 va" t1] child_present [of v 0 t1 "idx 1 va" pt]
  have e: "has (tbl_get v root (idx 3 va)) PTE_PRESENT" "entry_addr (tbl_get v root (idx 3 va)) = t2"
    "has (tbl_get v t2 (idx 2 va)) PTE_PRESENT" "entry_addr (tbl_get v t2 (idx 2 va)) = t1"
    "has (tbl_get v t1 (idx 1 va)) PTE_PRESENT" "entry_addr (tbl_get v t1 (idx 1 va)) = pt" "\<not> has (tbl_get v t1 (idx 1 va)) PTE_PS"
    using c t by (simp_all add: eval_nat_numeral)
  have "phys_to_virt root = Some root" "phys_to_virt t2 = Some t2" "phys_to_virt t1 = Some t1"
    using pt_inv_virt [OF inv, of "[]"] pt_inv_virt [OF inv, of "[idx 3 va]"] pt_inv_virt [OF inv, of "[idx 2 va, idx 3 va]"] t by simp_all
  then show ?thesis using e by (simp add: descend_def next_table_def next_pt_def Let_def del: One_nat_def)
qed

lemma tab_ram: "ram (phys v') = ram (phys v) \<Longrightarrow> tab v' root p = tab v root p"
  by (induction p) (simp_all add: child_def tbl_get_def)

lemma page_struct_frame: "buddy_inv (phys v) A \<Longrightarrow> (b, k) \<in> A \<Longrightarrow> get_page_struct (phys v) (frame_addr b) = Some b"
proof -
  assume inv: "buddy_inv (phys v) A" and b: "(b, k) \<in> A"
  have bnd: "bounds_ok (phys v) (free_blocks (phys v) \<union> A)" using inv by (simp add: buddy_inv_def)
  have "b \<in> blk (b, k)" by (simp add: blk_def)
  then have t: "b < total_phys_pages (phys v)" "total_phys_pages (phys v) \<le> BUDDY_MAX_PAGES" "phys_mem_base (phys v) = 0x100000"
    using bnd b unfolding bounds_ok_def by blast+
  then show ?thesis by (simp add: get_page_struct_def phys_to_pfn_def frame_addr_def PAGE_SIZE_def)
qed

lemma drop_last:
  assumes inv: "pt_inv v A root" and e: "has e PTE_PRESENT" "entry_addr e = frame_addr b" and b: "(b, 0) \<in> A" "pg_ref_count (page_array (phys v) b) = 1"
    and nt: "\<And>p. tab v root p \<noteq> Some (frame_addr b)"
  shows "\<exists>v'. drop_old e v = Some v' \<and> pt_inv v' (A - {(b, 0)}) root \<and> b \<in> free_frames (phys v') \<and> ram (phys v') = ram (phys v)"
proof -
  have bi: "buddy_inv (phys v) A" using inv by (simp add: pt_inv_def)
  have r: "buddy_inv (phys (set_ref b 0 v)) A" "free_frames (phys (set_ref b 0 v)) = free_frames (phys v)" "ram (phys (set_ref b 0 v)) = ram (phys v)"
    using bi by (simp_all add: set_ref_def) (simp add: set_page_def)
  have "pfn_to_phys (phys (set_ref b 0 v)) b = frame_addr b"
    using r(1) by (simp add: buddy_inv_def bounds_ok_def pfn_to_phys_def frame_addr_def)
  then obtain s where s: "free_pages (frame_addr b) 0 (phys (set_ref b 0 v)) = Some s" "buddy_inv s (A - {(b, 0)})"
    "free_frames s = insert b (free_frames (phys v))" "ram s = ram (phys v)"
    using free_pages_ok [OF r(1) b(1)] r(2,3) by (auto simp: blk_def)
  let ?v = "set_phys (\<lambda>_. s) (set_ref b 0 v)"
  have "drop_old e v = Some ?v" using e b(2) s(1) page_struct_frame [OF bi b(1)] by (simp add: drop_old_def vm_free_page_def free_page_def)
  moreover have "pt_inv ?v (A - {(b, 0)}) root"
  proof -
    have "tab ?v root p = tab v root p" for p using tab_ram [of ?v v] s(4) by simp
    then show ?thesis using inv nt s(2,3) unfolding pt_inv_def table_ok_def by auto
  qed
  ultimately show ?thesis using s(3,4) by simp
qed

lemma remap_frees:
  assumes inv: "pt_inv v A root" and pt: "tab v root (rpath va 0) = Some pt"
    and e: "has (tbl_get v pt (idx 0 va)) PTE_PRESENT" "entry_addr (tbl_get v pt (idx 0 va)) = frame_addr b"
    and b: "(b, 0) \<in> A" "pg_ref_count (page_array (phys v) b) = 1" and nt: "\<And>p. tab v root p \<noteq> Some (frame_addr b)"
    and pa: "unat (pa AND PTE_ADDR_MASK) = frame_addr b"
  shows "\<exists>v' w. map_page root va pa flags v = Some (v', 0) \<and> walk v' root va = Some w \<and> w_page w = frame_addr b \<and> b \<in> free_frames (phys v')"
proof -
  obtain v4 where v4: "drop_old (tbl_get v pt (idx 0 va)) v = Some v4" "pt_inv v4 (A - {(b, 0)}) root" "b \<in> free_frames (phys v4)"
    "ram (phys v4) = ram (phys v)"
    using drop_last [OF inv e b nt] by blast
  have pt4: "tab v4 root (rpath va 0) = Some pt" using pt tab_ram [OF v4(4)] by simp
  let ?v = "set_mapping pt va pa flags v4"
  have "map_page root va pa flags v = Some (?v, 0)"
    using descend_present [OF inv pt] pt_inv_virt [OF inv pt] v4(1) by (simp add: map_page_split set_mapping_def)
  moreover have "b \<in> free_frames (phys ?v)" using v4(3) by (simp add: set_mapping_def page_ref_inc_keeps)
  moreover obtain w where "walk ?v root va = Some w" "w_page w = frame_addr b"
    using set_mapping_ok(3) [OF v4(2) pt4, of pa flags] pa by auto
  ultimately show ?thesis by blast
qed

section \<open>The user bit\<close>

lemma walk_from_user: "walk_from v l t va u r = Some w \<Longrightarrow> w_user w \<Longrightarrow> u"
  by (induction l arbitrary: t u r) (auto simp: Let_def walk_from_Suc split: if_splits)

lemma walk_user_entry:
  assumes "walk v root va = Some w" "w_user w"
  shows "has (tbl_get v root (idx 3 va)) PTE_USER"
proof -
  have "walk_from v (Suc 2) root va True True = Some w" using assms(1) by (simp add: walk_def eval_nat_numeral)
  then show ?thesis using walk_from_user assms(2) unfolding walk_from_Suc by (auto simp: eval_nat_numeral split: if_splits)
qed

lemma user_blocked:
  assumes inv: "pt_inv v A root" and none: "walk v root va = None"
    and e: "has (tbl_get v root (idx 3 va)) PTE_PRESENT" "\<not> has (tbl_get v root (idx 3 va)) PTE_USER"
  shows "\<exists>v' r. map_user_page root va pa flags v = Some (v', r) \<and>
    (if r = 0 then \<exists>w. walk v' root va = Some w \<and> w_page w = unat (pa AND PTE_ADDR_MASK) \<and> \<not> w_user w else walk v' root va = None)"
proof -
  obtain v' r where m: "map_page root va pa (flags OR PTE_USER) v = Some (v', r)" "kept_entries v root v'"
    "if r = 0 then mapped v root va pa (flags OR PTE_USER) v' else r = - 1 \<and> walk v' root va = None \<and> free_blocks (phys v') = {}"
    using map_page_ok [OF inv none] by blast
  have "tab v root [] = Some root" by simp
  then have "tbl_get v' root (idx 3 va) = tbl_get v root (idx 3 va)" using m(2) e(1) idx_less unfolding kept_entries_def by blast
  then have "\<not> w_user w" if "walk v' root va = Some w" for w using walk_user_entry [OF that] e(2) by auto
  then show ?thesis using m(1,3) by (auto simp: map_user_page_def mapped_def split: if_splits)
qed

end
