(* ===== verification/AddressSpace.thy ===== *)
theory AddressSpace
  imports PageTableProps HeapClient
begin

text \<open>
  The contract of an address space as a locale: mapping a page that is not mapped and removing a mapping change the
  translation of that page only. The lemmas about any run of the two operations are proved from the contract and
  reach the kernel through the interpretation on \<open>map_page\<close> and \<open>unmap_page\<close>.
\<close>

section \<open>Runs\<close>

datatype ('a, 'p) map_event = MapPage 'a 'p | UnmapPage 'a

fun event_page :: "('a, 'p) map_event \<Rightarrow> 'a" where
  "event_page (MapPage a p) = a"
| "event_page (UnmapPage a) = a"

inductive space_run :: "('a \<Rightarrow> 'p \<Rightarrow> 's \<Rightarrow> ('s \<times> int) option) \<Rightarrow> ('a \<Rightarrow> 's \<Rightarrow> 's option) \<Rightarrow> ('s \<Rightarrow> 'a \<Rightarrow> 'w option) \<Rightarrow>
    's \<Rightarrow> ('a, 'p) map_event list \<Rightarrow> 's \<Rightarrow> bool"
  for mp um tr where
  space_nil: "space_run mp um tr s [] s"
| space_map: "tr s a = None \<Longrightarrow> mp a p s = Some (s1, r) \<Longrightarrow> space_run mp um tr s1 es s2 \<Longrightarrow> space_run mp um tr s (MapPage a p # es) s2"
| space_unmap: "um a s = Some s1 \<Longrightarrow> space_run mp um tr s1 es s2 \<Longrightarrow> space_run mp um tr s (UnmapPage a # es) s2"

section \<open>The contract\<close>

locale address_space =
  fixes ainv :: "'s \<Rightarrow> bool" and tr :: "'s \<Rightarrow> 'a \<Rightarrow> 'w option" and same :: "'a \<Rightarrow> 'a \<Rightarrow> bool" and huge :: "'s \<Rightarrow> 'a \<Rightarrow> bool"
    and mp :: "'a \<Rightarrow> 'p \<Rightarrow> 's \<Rightarrow> ('s \<times> int) option" and um :: "'a \<Rightarrow> 's \<Rightarrow> 's option"
  assumes map_law: "ainv s \<Longrightarrow> tr s a = None \<Longrightarrow> \<exists>s' r. mp a p s = Some (s', r) \<and> ainv s' \<and>
      (\<forall>a'. \<not> same a' a \<longrightarrow> tr s' a' = tr s a') \<and> (if r = 0 then tr s' a \<noteq> None \<and> \<not> huge s' a else tr s' a = None)"
    and unmap_law: "ainv s \<Longrightarrow> \<exists>s'. um a s = Some s' \<and> ainv s' \<and>
      (\<forall>a'. \<not> same a' a \<longrightarrow> tr s' a' = tr s a') \<and> (\<not> huge s a \<longrightarrow> tr s' a = None)"
    and same_law: "same a' a \<Longrightarrow> tr s a' = tr s a"
begin

lemma run_frame:
  assumes "space_run mp um tr s es s'" "ainv s"
  shows "ainv s' \<and> (\<forall>a. (\<forall>e \<in> set es. \<not> same a (event_page e)) \<longrightarrow> tr s' a = tr s a)"
  using assms
proof (induction rule: space_run.induct)
  case (space_map s a p s1 r es s2)
  then have "ainv s1" "\<And>a'. \<not> same a' a \<Longrightarrow> tr s1 a' = tr s a'" using map_law [of s a p] by auto
  then show ?case using space_map.IH by auto
next
  case (space_unmap a s s1 es s2)
  then have "ainv s1" "\<And>a'. \<not> same a' a \<Longrightarrow> tr s1 a' = tr s a'" using unmap_law [of s a] by auto
  then show ?case using space_unmap.IH by auto
qed simp

lemma run_progress:
  assumes "space_run mp um tr s es s'" "ainv s"
  shows "um a s' \<noteq> None" "tr s' a = None \<Longrightarrow> mp a p s' \<noteq> None"
  using run_frame [OF assms] unmap_law [of s' a] map_law [of s' a p] by auto

lemma roundtrip:
  assumes "ainv s" "tr s a = None"
  shows "\<exists>s1 r s2. mp a p s = Some (s1, r) \<and> um a s1 = Some s2 \<and> ainv s2 \<and> (r = 0 \<longrightarrow> (\<forall>a'. tr s2 a' = tr s a'))"
proof -
  obtain s1 r where 1: "mp a p s = Some (s1, r)" "ainv s1" "\<And>a'. \<not> same a' a \<Longrightarrow> tr s1 a' = tr s a'" "r = 0 \<Longrightarrow> \<not> huge s1 a"
    using map_law [OF assms, of p] by auto
  obtain s2 where 2: "um a s1 = Some s2" "ainv s2" "\<And>a'. \<not> same a' a \<Longrightarrow> tr s2 a' = tr s1 a'" "\<not> huge s1 a \<Longrightarrow> tr s2 a = None"
    using unmap_law [OF 1(2), of a] by auto
  have "tr s2 a' = tr s a'" if "r = 0" for a'
    using that 1(3,4) 2(3,4) assms(2) same_law [of a' a s2] same_law [of a' a s] by (cases "same a' a") auto
  then show ?thesis using 1(1) 2(1,2) by blast
qed

end

section \<open>The kernel's page tables\<close>

definition space_ok :: "nat \<Rightarrow> vm \<Rightarrow> bool" where
  "space_ok root v \<longleftrightarrow> (\<exists>A. pt_inv v A root)"

definition map_op :: "nat \<Rightarrow> u64 \<Rightarrow> u64 \<times> u64 \<Rightarrow> vm \<Rightarrow> (vm \<times> int) option" where
  "map_op root va p v = map_page root va (fst p) (snd p) v"

lemma same_page_idx: "same_page va' va \<Longrightarrow> k \<le> 3 \<Longrightarrow> idx k va' = idx k va"
proof -
  assume s: "same_page va' va" and k: "k \<le> 3"
  have "k = 0 \<or> k = 1 \<or> k = 2 \<or> k = 3" using k by linarith
  then show ?thesis using s by (auto simp: same_page_def rpaths)
qed

lemma walk_from_idx:
  assumes "\<And>k. k \<le> l \<Longrightarrow> idx k va' = idx k va"
  shows "walk_from v l t va' u r = walk_from v l t va u r"
  using assms by (induction l arbitrary: t u r) (auto simp: walk_from_Suc)

lemma mapped_not_huge: "mapped v root va pa flags v' \<Longrightarrow> walk v' root va \<noteq> None \<and> \<not> maps_huge v' root va"
  by (auto simp: mapped_def maps_huge_def rpaths rpaths(1,2) [unfolded One_nat_def] child_def Let_def split: if_splits bind_splits)

interpretation asp: address_space "space_ok root" "\<lambda>v. walk v root" same_page "\<lambda>v. maps_huge v root" "map_op root" "unmap_page root" for root
proof
  show "\<exists>s' r. map_op root a p s = Some (s', r) \<and> space_ok root s' \<and> (\<forall>a'. \<not> same_page a' a \<longrightarrow> walk s' root a' = walk s root a') \<and>
      (if r = 0 then walk s' root a \<noteq> None \<and> \<not> maps_huge s' root a else walk s' root a = None)"
    if o: "space_ok root s" "walk s root a = None" for s a p
  proof -
    obtain A where i: "pt_inv s A root" using o(1) by (auto simp: space_ok_def)
    obtain s' r A' where m: "map_page root a (fst p) (snd p) s = Some (s', r)" "pt_inv s' A' root"
      "\<forall>va'. \<not> same_page va' a \<longrightarrow> walk s' root va' = walk s root va'"
      "if r = 0 then mapped s root a (fst p) (snd p) s' else r = - 1 \<and> walk s' root a = None \<and> free_blocks (phys s') = {}"
      using map_page_ok [OF i o(2)] by blast
    then have "if r = 0 then walk s' root a \<noteq> None \<and> \<not> maps_huge s' root a else walk s' root a = None"
      using mapped_not_huge [of s root a "fst p" "snd p" s'] by presburger
    then show ?thesis using m(1,2,3) unfolding map_op_def space_ok_def by blast
  qed
  show "\<exists>s'. unmap_page root a s = Some s' \<and> space_ok root s' \<and> (\<forall>a'. \<not> same_page a' a \<longrightarrow> walk s' root a' = walk s root a') \<and>
      (\<not> maps_huge s root a \<longrightarrow> walk s' root a = None)" if o: "space_ok root s" for s a
  proof -
    obtain A where i: "pt_inv s A root" using o by (auto simp: space_ok_def)
    show ?thesis using unmap_page_ok [OF i, of a] unfolding space_ok_def by (metis (no_types))
  qed
  show "walk s root a' = walk s root a" if "same_page a' a" for a' a s
    unfolding walk_def using same_page_idx [OF that] by (rule walk_from_idx)
qed

section \<open>Properties\<close>

text \<open>C6: \<open>map_page\<close> of a page that is not mapped always returns and keeps the tables a tree of frames that are in use. On success the processor translates the
  address to the frame, with the entry the flags ask for; user mode and writes are allowed only as the flags say, and exactly so if the upper
  levels that existed allow them. On failure the page is still not mapped and the page allocator is empty. The translation of every other page is what it was.\<close>

theorem map_page_correct:
  assumes "pt_inv v A root" "walk v root va = None"
  shows "\<exists>v' r A'. map_page root va pa flags v = Some (v', r) \<and> pt_inv v' A' root \<and>
    (\<forall>va'. \<not> same_page va' va \<longrightarrow> walk v' root va' = walk v root va') \<and>
    (if r = 0 then mapped v root va pa flags v' else r = - 1 \<and> walk v' root va = None \<and> free_blocks (phys v') = {})"
  using map_page_ok [OF assms] by blast

text \<open>C19: \<open>unmap_page\<close> always returns and keeps the tables well formed. Afterwards the page is not mapped, and if it was, its translation
  has been flushed; no other page is affected. Only for an address inside a 2 MiB page nothing happens at all.\<close>

theorem unmap_page_correct:
  assumes "pt_inv v A root"
  shows "\<exists>v'. unmap_page root va v = Some v' \<and> pt_inv v' A root \<and> (\<forall>va'. \<not> same_page va' va \<longrightarrow> walk v' root va' = walk v root va') \<and>
    (if maps_huge v root va then v' = v else walk v' root va = None \<and> (walk v root va \<noteq> None \<longrightarrow> va \<in> set (flushed v')))"
  by (rule unmap_page_ok [OF assms])



text \<open>Mapping a page again at the address where it is already mapped, with one reference to it, first releases the page to the page
  allocator and then maps it: it ends up mapped and free at once, so that the next allocation can hand it out again.\<close>

theorem map_page_remap_frees:
  assumes "pt_inv v A root" "tab v root (rpath va 0) = Some pt"
    and "has (tbl_get v pt (idx 0 va)) PTE_PRESENT" "entry_addr (tbl_get v pt (idx 0 va)) = frame_addr b"
    and "(b, 0) \<in> A" "pg_ref_count (page_array (phys v) b) = 1" "\<And>p. tab v root p \<noteq> Some (frame_addr b)"
    and "unat (pa AND PTE_ADDR_MASK) = frame_addr b"
  shows "\<exists>v' w. map_page root va pa flags v = Some (v', 0) \<and> walk v' root va = Some w \<and> w_page w = frame_addr b \<and> b \<in> free_frames (phys v')"
  by (rule remap_frees [OF assms])

text \<open>Where the top level entry for an address exists without the user bit, as the boot code leaves the one for the lowest 512 GiB, \<open>map_user_page\<close>
  reports success but the page is not accessible from user mode.\<close>

theorem user_mapping_blocked:
  assumes "pt_inv v A root" "walk v root va = None"
    and "has (tbl_get v root (idx 3 va)) PTE_PRESENT" "\<not> has (tbl_get v root (idx 3 va)) PTE_USER"
  shows "\<exists>v' r. map_user_page root va pa flags v = Some (v', r) \<and>
    (if r = 0 then \<exists>w. walk v' root va = Some w \<and> w_page w = unat (pa AND PTE_ADDR_MASK) \<and> \<not> w_user w else walk v' root va = None)"
  by (rule user_blocked [OF assms])

section \<open>Instances\<close>

definition empty_space :: vm where
  "empty_space = \<lparr> hp = small_heap\<lparr> pm := one_used \<rparr>, cr3 = 0x1000, vm_kernel_cr3 = 0x1000, flushed = [], page_fault_count = 0, segv_sent = 0 \<rparr>"

definition space1 :: vm where "space1 = tbl_set 0x1000 0 0x2003 empty_space"
definition space2 :: vm where "space2 = tbl_set 0x2000 0 0x3003 space1"
definition space3 :: vm where "space3 = tbl_set 0x3000 0 0x4003 space2"
definition space4 :: vm where "space4 = tbl_set 0x4000 0 0x300007 space3"

lemma one_used_facts: "ram one_used = (\<lambda>_. 0)" "free_frames one_used = {}" "pg_ref_count (page_array one_used 512) = 1"
proof -
  have z: "ram one_frame = (\<lambda>_. 0)" by (simp add: one_frame_def mark_available_page_def list_add_def set_head_def set_page_def boot_state_def)
  show "ram one_used = (\<lambda>_. 0)" "free_frames one_used = {}"
    using one_used_success(2) z by (auto simp: alloc_success_def free_frames_def one_frame_inv)
  show "pg_ref_count (page_array one_used 512) = 1" by (rule alloc_ref_one [OF one_used_success(1) one_frame_inv(1)])
qed

lemma low_table: "t mod 4096 = 0 \<Longrightarrow> t < 0x100000 \<Longrightarrow> table_ok v t"
  by (auto simp: table_ok_def KERNEL_PHYS_MAX_def frame_addr_def)

lemma link_at:
  assumes inv: "pt_inv v A root" and p0: "tab v root p0 = Some t0" "length p0 < 3" and i0: "i0 < 512" "\<not> has (tbl_get v t0 i0) PTE_PRESENT"
    and e: "has e PTE_PRESENT" "\<not> has e PTE_PS" "entry_addr e = nf" and z: "\<And>j. j < 512 \<Longrightarrow> tbl_get v nf j = 0"
    and nf: "nf mod 4096 = 0" "nf < 0x100000" "\<And>q. tab v root q \<noteq> Some nf"
  shows "pt_inv (tbl_set t0 i0 e v) A root" "tab (tbl_set t0 i0 e v) root q = (if q = i0 # p0 then Some nf else tab v root q)"
proof -
  have al: "x mod 4096 = 0" if "tab v root p = Some x" for p x using pt_inv_table [OF inv that] by (simp add: table_ok_def)
  note g = tbl_get_set [OF al [OF p0(1)] _ i0(1)]
  have E: "same_entries v root (t0, i0) (tbl_set t0 i0 e v)" unfolding same_entries_def using g [OF al] by auto
  have n: "nf \<noteq> t0" using nf(3) p0(1) by blast
  have s: "tbl_get (tbl_set t0 i0 e v) t0 i0 = e" "\<And>j. j < 512 \<Longrightarrow> tbl_get (tbl_set t0 i0 e v) nf j = 0"
    using g [OF al [OF p0(1)] i0(1)] g [OF nf(1)] n z by simp_all
  have b: "buddy_inv (phys (tbl_set t0 i0 e v)) A" "free_frames (phys (tbl_set t0 i0 e v)) \<subseteq> free_frames (phys v)"
    using inv by (simp_all add: pt_inv_def)
  note l = inv p0 i0 E
  show "tab (tbl_set t0 i0 e v) root q = (if q = i0 # p0 then Some nf else tab v root q)"
    by (rule tab_link [OF l]) (use s e in simp_all)
  show "pt_inv (tbl_set t0 i0 e v) A root"
    by (rule link_table(1) [OF l, of nf]) (use s e b nf low_table in simp_all)
qed

lemma zero_entry: "ram (phys v) = (\<lambda>_. 0) \<Longrightarrow> tbl_get v t j = 0"
  by (simp add: tbl_get_def load64_def bytes_val_zero)

lemma has_zero: "\<not> has 0 f"
  by (simp add: has_def)

lemma empty_space_entry: "tbl_get empty_space t j = 0"
  by (rule zero_entry) (simp add: empty_space_def one_used_facts)

lemma empty_space_tab: "tab empty_space 0x1000 p = (if p = [] then Some 0x1000 else None)"
  by (induction p) (auto simp: child_def empty_space_entry has_def)

lemma empty_space_inv: "pt_inv empty_space {(512, 0)} 0x1000"
  using one_used_inv low_table [of "0x1000"] by (auto simp: pt_inv_def empty_space_tab split: if_splits) (simp add: empty_space_def)

lemma space_bits:
  "has 0x2003 PTE_PRESENT" "\<not> has 0x2003 PTE_PS" "\<not> has 0x2003 PTE_USER" "entry_addr 0x2003 = 0x2000"
  "has 0x3003 PTE_PRESENT" "\<not> has 0x3003 PTE_PS" "entry_addr 0x3003 = 0x3000"
  "has 0x4003 PTE_PRESENT" "\<not> has 0x4003 PTE_PS" "entry_addr 0x4003 = 0x4000"
  "has 0x300007 PTE_PRESENT" "entry_addr 0x300007 = 0x300000"
  by (simp_all add: has_def entry_addr_def PTE_PRESENT_def PTE_PS_def PTE_USER_def PTE_ADDR_MASK_def)

lemma space_entries:
  assumes "t mod 4096 = 0" "j < 512"
  shows "tbl_get space1 t j = (if t = 0x1000 \<and> j = 0 then 0x2003 else 0)"
    "tbl_get space2 t j = (if t = 0x2000 \<and> j = 0 then 0x3003 else tbl_get space1 t j)"
    "tbl_get space3 t j = (if t = 0x3000 \<and> j = 0 then 0x4003 else tbl_get space2 t j)"
    "tbl_get space4 t j = (if t = 0x4000 \<and> j = 0 then 0x300007 else tbl_get space3 t j)"
  unfolding space1_def space2_def space3_def space4_def
  by (subst tbl_get_set; use assms empty_space_entry in simp)+

lemma space1_ok: "pt_inv space1 {(512, 0)} 0x1000" "tab space1 0x1000 q = (if q = [0] then Some 0x2000 else if q = [] then Some 0x1000 else None)"
proof -
  note l = link_at [OF empty_space_inv, of "[]" "0x1000" 0 "0x2003" "0x2000", folded space1_def]
  show "pt_inv space1 {(512, 0)} 0x1000" by (rule l(1)) (simp_all add: empty_space_tab empty_space_entry space_bits has_zero del: tab.simps)
  show "tab space1 0x1000 q = (if q = [0] then Some 0x2000 else if q = [] then Some 0x1000 else None)"
    by (subst l(2)) (simp_all add: empty_space_tab empty_space_entry space_bits has_zero del: tab.simps)
qed

lemma space2_ok: "pt_inv space2 {(512, 0)} 0x1000" "tab space2 0x1000 q = (if q = [0, 0] then Some 0x3000 else tab space1 0x1000 q)"
proof -
  note l = link_at [OF space1_ok(1), of "[0]" "0x2000" 0 "0x3003" "0x3000", folded space2_def]
  show "pt_inv space2 {(512, 0)} 0x1000" by (rule l(1)) (simp_all add: space1_ok space_entries space_bits has_zero del: tab.simps)
  show "tab space2 0x1000 q = (if q = [0, 0] then Some 0x3000 else tab space1 0x1000 q)"
    by (subst l(2)) (simp_all add: space1_ok space_entries space_bits has_zero del: tab.simps)
qed

lemma space3_ok: "pt_inv space3 {(512, 0)} 0x1000" "tab space3 0x1000 q = (if q = [0, 0, 0] then Some 0x4000 else tab space2 0x1000 q)"
proof -
  note l = link_at [OF space2_ok(1), of "[0, 0]" "0x3000" 0 "0x4003" "0x4000", folded space3_def]
  show "pt_inv space3 {(512, 0)} 0x1000" by (rule l(1)) (simp_all add: space1_ok space2_ok space_entries space_bits has_zero del: tab.simps)
  show "tab space3 0x1000 q = (if q = [0, 0, 0] then Some 0x4000 else tab space2 0x1000 q)"
    by (subst l(2)) (simp_all add: space1_ok space2_ok space_entries space_bits has_zero del: tab.simps)
qed

lemma space4_ok: "pt_inv space4 {(512, 0)} 0x1000" "tab space4 0x1000 q = tab space3 0x1000 q"
proof -
  have t: "tab space3 0x1000 [0, 0, 0] = Some 0x4000" "length [0, 0, 0 :: nat] = 3" by (simp_all add: space3_ok del: tab.simps)
  have E: "same_entries space3 0x1000 (0x4000, 0) space4" unfolding same_entries_def
  proof (intro allI impI)
    fix p x j assume x: "tab space3 0x1000 p = Some x" "j < 512" "(x, j) \<noteq> (0x4000, 0 :: nat)"
    have "x mod 4096 = 0" using pt_inv_table [OF space3_ok(1) x(1)] by (simp add: table_ok_def)
    then show "tbl_get space4 x j = tbl_get space3 x j" using x by (auto simp: space_entries(4))
  qed
  have b: "buddy_inv (phys space4) {(512, 0)}" "free_frames (phys space4) \<subseteq> free_frames (phys space3)"
    using space3_ok(1) by (simp_all add: space4_def pt_inv_def)
  show "pt_inv space4 {(512, 0)} 0x1000" by (rule set_leaf(1) [OF space3_ok(1) t E b])
  show "tab space4 0x1000 q = tab space3 0x1000 q" by (rule tab_leaf [OF space3_ok(1) t E])
qed

lemma idx_zero [simp]: "idx k 0 = 0"
  by (simp add: idx_def)

lemma space4_leaf:
  "tab space4 0x1000 (rpath 0 0) = Some 0x4000" "has (tbl_get space4 0x4000 (idx 0 0)) PTE_PRESENT"
  "entry_addr (tbl_get space4 0x4000 (idx 0 0)) = frame_addr 512" "tab space4 0x1000 p \<noteq> Some (frame_addr 512)"
  "pg_ref_count (page_array (phys space4) 512) = 1" "unat (0x300000 AND PTE_ADDR_MASK) = frame_addr 512"
proof -
  show "tab space4 0x1000 (rpath 0 0) = Some 0x4000" by (simp add: space4_ok space3_ok rpaths del: tab.simps)
  show "has (tbl_get space4 0x4000 (idx 0 0)) PTE_PRESENT" "entry_addr (tbl_get space4 0x4000 (idx 0 0)) = frame_addr 512"
    by (simp_all add: space_entries space_bits frame_addr_def PAGE_SIZE_def)
  show "tab space4 0x1000 p \<noteq> Some (frame_addr 512)" by (simp add: space4_ok space3_ok space2_ok space1_ok frame_addr_def PAGE_SIZE_def)
  show "pg_ref_count (page_array (phys space4) 512) = 1"
    using one_used_facts(3) by (simp add: space4_def space3_def space2_def space1_def empty_space_def)
  show "unat (0x300000 AND PTE_ADDR_MASK) = frame_addr 512" by (simp add: PTE_ADDR_MASK_def frame_addr_def PAGE_SIZE_def)
qed

lemma space3_walk: "walk space3 0x1000 0 = None" "walk space1 0x1000 0 = None"
proof -
  show "walk space3 0x1000 0 = None"
    by (rule walk_absent [of 0 _ _ _ "0x4000"]) (simp_all add: rpaths space3_ok space_entries has_zero del: tab.simps)
  show "walk space1 0x1000 0 = None"
    by (rule walk_absent [of 2 _ _ _ "0x2000"]) (simp_all add: rpaths space1_ok space_entries has_zero del: tab.simps)
qed

theorem map_page_correct_witness:
  "\<exists>v' r A'. map_page 0x1000 0 0x300000 PTE_RW space3 = Some (v', r) \<and> pt_inv v' A' 0x1000"
  using map_page_correct [OF space3_ok(1) space3_walk(1), of "0x300000" PTE_RW] by blast

theorem unmap_page_correct_witness:
  "\<exists>v'. unmap_page 0x1000 0 space4 = Some v' \<and> walk v' 0x1000 0 = None"
proof -
  have "\<not> maps_huge space4 0x1000 0"
    by (simp add: maps_huge_def rpaths rpaths(2) [unfolded One_nat_def] space4_ok space3_ok space2_ok space_entries space_bits del: tab.simps)
  then show ?thesis using unmap_page_correct [OF space4_ok(1), of 0] by auto
qed



theorem map_page_remap_frees_witness:
  "\<exists>v' w. map_page 0x1000 0 0x300000 PTE_RW space4 = Some (v', 0) \<and> walk v' 0x1000 0 = Some w \<and> w_page w = frame_addr 512 \<and> 512 \<in> free_frames (phys v')"
  by (rule map_page_remap_frees [OF space4_ok(1) space4_leaf(1,2,3) _ space4_leaf(5,4,6)]) simp

theorem user_mapping_blocked_witness:
  "\<exists>v' r. map_user_page 0x1000 0 0x300000 PTE_RW space1 = Some (v', r) \<and> (walk v' 0x1000 0 = None \<or> (\<exists>w. walk v' 0x1000 0 = Some w \<and> \<not> w_user w))"
proof -
  have "has (tbl_get space1 0x1000 (idx 3 0)) PTE_PRESENT" "\<not> has (tbl_get space1 0x1000 (idx 3 0)) PTE_USER"
    by (simp_all add: space_entries space_bits)
  then obtain v' r where "map_user_page 0x1000 0 0x300000 PTE_RW space1 = Some (v', r)"
    "if r = 0 then \<exists>w. walk v' 0x1000 0 = Some w \<and> w_page w = unat (0x300000 AND PTE_ADDR_MASK) \<and> \<not> w_user w else walk v' 0x1000 0 = None"
    using user_mapping_blocked [OF space1_ok(1) space3_walk(2)] by blast
  then show ?thesis by (auto split: if_splits)
qed

end
