(* ===== verification/PageTableClone.thy ===== *)
theory PageTableClone
  imports AddressSpace
begin

text \<open>
  The copy of an address space for \<open>fork\<close>. One step of the three nested loops allocates a table, links it into the copy and
  fills it; the argument that this disturbs neither the source nor the part already copied is the same at each level and is
  made once, in the locale \<open>clone_level\<close>, which is then interpreted on the loops of \<open>clone_current_pml4\<close>.
\<close>

section \<open>Copied entries\<close>

definition cow1 :: "u64 \<Rightarrow> u64" where
  "cow1 e = (if has e PTE_PRESENT then cow_entry e else e)"

definition cow0 :: "u64 \<Rightarrow> u64" where
  "cow0 e = (if has e PTE_PRESENT then cow_entry e else 0)"

lemma cow_entry_bit: "bit (cow_entry e) n \<longleftrightarrow> (bit e n \<and> n \<noteq> 1) \<or> n = 0"
  unfolding cow_entry_def Let_def
  by (auto simp: has_bits bit_or_iff bit_and_iff bit_not_iff bit_addr_mask bit_consts dest: bit_imp_le_length)

lemma cow_entry_facts:
  "has (cow_entry e) PTE_PRESENT" "\<not> has (cow_entry e) PTE_RW" "has (cow_entry e) PTE_USER = has e PTE_USER" "entry_addr (cow_entry e) = entry_addr e"
proof -
  show "has (cow_entry e) PTE_PRESENT" "\<not> has (cow_entry e) PTE_RW" "has (cow_entry e) PTE_USER = has e PTE_USER"
    by (simp_all add: has_bits cow_entry_bit)
  have "cow_entry e AND PTE_ADDR_MASK = e AND PTE_ADDR_MASK"
    by (rule bit_eqI) (auto simp: bit_and_iff cow_entry_bit bit_addr_mask)
  then show "entry_addr (cow_entry e) = entry_addr e" by (simp add: entry_addr_def)
qed

lemma cow_idem: "cow1 (cow1 e) = cow1 e" "cow0 (cow1 e) = cow0 e"
proof -
  have "cow_entry (cow_entry e) = cow_entry e" by (rule bit_eqI) (auto simp: cow_entry_bit)
  then show "cow1 (cow1 e) = cow1 e" "cow0 (cow1 e) = cow0 e" by (simp_all add: cow1_def cow0_def cow_entry_facts)
qed

section \<open>What a part of the copy may change\<close>

definition outside :: "vm \<Rightarrow> nat \<Rightarrow> nat \<Rightarrow> bool" where
  "outside v src d \<longleftrightarrow> d mod 4096 = 0 \<and> d \<notin> frame_addr ` free_frames (phys v) \<and> (\<forall>q. tab v src q \<noteq> Some d)"

definition cow_leaf :: "vm \<Rightarrow> nat \<Rightarrow> nat list set \<Rightarrow> nat \<Rightarrow> bool" where
  "cow_leaf v src Q t \<longleftrightarrow> (\<exists>q \<in> Q. length q = 3 \<and> tab v src q = Some t)"

text \<open>
  From \<open>v\<close> to \<open>v'\<close> only the table \<open>d\<close>, frames that were free and the leaf tables of the source at the paths in \<open>Q\<close> change, the latter
  to read-only entries.
\<close>

definition frame :: "nat \<Rightarrow> nat \<Rightarrow> nat list set \<Rightarrow> vm \<Rightarrow> vm \<Rightarrow> bool" where
  "frame src d Q v v' \<longleftrightarrow> (\<exists>A'. pt_inv v' A' src) \<and> free_frames (phys v') \<subseteq> free_frames (phys v) \<and> (\<forall>q. tab v' src q = tab v src q) \<and>
     cr3 v' = cr3 v \<and> vm_kernel_cr3 v' = vm_kernel_cr3 v \<and>
     (\<forall>t x. t mod 4096 = 0 \<longrightarrow> x < 512 \<longrightarrow> t \<notin> frame_addr ` free_frames (phys v) \<longrightarrow> t \<noteq> d \<longrightarrow>
       tbl_get v' t x = (if cow_leaf v src Q t then cow1 (tbl_get v t x) else tbl_get v t x))"

lemma frame_entry:
  assumes "frame src d Q v v'" "t mod 4096 = 0" "x < 512" "t \<notin> frame_addr ` free_frames (phys v)" "t \<noteq> d"
  shows "tbl_get v' t x = (if cow_leaf v src Q t then cow1 (tbl_get v t x) else tbl_get v t x)"
  using assms unfolding frame_def by simp

lemma frame_outside: "frame src d Q v v' \<Longrightarrow> outside v src t \<Longrightarrow> outside v' src t"
  unfolding frame_def outside_def by auto

lemma outside_not_leaf: "outside v src t \<Longrightarrow> \<not> cow_leaf v src Q t"
  by (auto simp: outside_def cow_leaf_def)

lemma frame_outside_entry: "frame src d Q v v' \<Longrightarrow> outside v src t \<Longrightarrow> t \<noteq> d \<Longrightarrow> x < 512 \<Longrightarrow> tbl_get v' t x = tbl_get v t x"
  using frame_entry [of src d Q v v' t x] outside_not_leaf [of v src t Q] by (simp add: outside_def)

lemma frame_trans:
  assumes 1: "frame src d Q v v1" and 2: "frame src d' Q' v1 v2" and d': "d' = d \<or> d' \<in> frame_addr ` free_frames (phys v)"
  shows "frame src d (Q \<union> Q') v v2"
proof -
  have f: "free_frames (phys v1) \<subseteq> free_frames (phys v)" "free_frames (phys v2) \<subseteq> free_frames (phys v1)"
    "\<And>q. tab v1 src q = tab v src q" "\<And>q. tab v2 src q = tab v1 src q" using 1 2 unfolding frame_def by blast+
  have "tbl_get v2 t x = (if cow_leaf v src (Q \<union> Q') t then cow1 (tbl_get v t x) else tbl_get v t x)"
    if t: "t mod 4096 = 0" "x < 512" "t \<notin> frame_addr ` free_frames (phys v)" "t \<noteq> d" for t x
  proof -
    have "t \<notin> frame_addr ` free_frames (phys v1)" "t \<noteq> d'" using t(3,4) f(1) d' by auto
    then have "tbl_get v2 t x = (if cow_leaf v1 src Q' t then cow1 (tbl_get v1 t x) else tbl_get v1 t x)"
      by (intro frame_entry [OF 2 t(1,2)])
    moreover have "cow_leaf v1 src Q' t = cow_leaf v src Q' t" by (simp add: cow_leaf_def f(3))
    moreover have "cow_leaf v src (Q \<union> Q') t \<longleftrightarrow> cow_leaf v src Q t \<or> cow_leaf v src Q' t" by (auto simp: cow_leaf_def)
    ultimately show ?thesis using frame_entry [OF 1 t] by (auto simp: cow_idem)
  qed
  then show ?thesis using 1 2 f unfolding frame_def by auto
qed

lemma frame_cong:
  assumes "frame src d Q v v'" "\<And>q t. length q = 3 \<Longrightarrow> tab v src q = Some t \<Longrightarrow> q \<in> Q \<longleftrightarrow> q \<in> Q'"
  shows "frame src d Q' v v'"
proof -
  have "cow_leaf v src Q t = cow_leaf v src Q' t" for t using assms(2) unfolding cow_leaf_def by blast
  then show ?thesis using assms(1) unfolding frame_def by simp
qed

lemma frame_refl: "pt_inv v A src \<Longrightarrow> frame src d {} v v"
  unfolding frame_def cow_leaf_def by auto

text \<open>Changes outside the tables of the source keep the invariant.\<close>

lemma tab_entries:
  assumes "\<And>p t j. tab v src p = Some t \<Longrightarrow> length p < 3 \<Longrightarrow> j < 512 \<Longrightarrow> tbl_get v' t j = tbl_get v t j"
  shows "tab v' src q = tab v src q"
proof (induction q)
  case (Cons i q)
  show ?case
  proof (cases "tab v src q")
    case (Some t)
    have "child v' (3 - length q) t i = child v (3 - length q) t i"
    proof (cases "length q < 3")
      case True
      then show ?thesis using assms [OF Some] by (intro child_cong) simp
    qed (simp add: child_def)
    then show ?thesis using Cons Some by simp
  qed (use Cons in simp)
qed simp

lemma frameI:
  assumes inv: "pt_inv v A src" and b: "buddy_inv (phys v') A'" "free_frames (phys v') \<subseteq> free_frames (phys v)"
    and c: "cr3 v' = cr3 v" "vm_kernel_cr3 v' = vm_kernel_cr3 v" and d: "\<And>q. tab v src q \<noteq> Some d" and Q: "\<And>q. q \<in> Q \<Longrightarrow> length q = 3"
    and e: "\<And>t x. t mod 4096 = 0 \<Longrightarrow> x < 512 \<Longrightarrow> t \<notin> frame_addr ` free_frames (phys v) \<Longrightarrow> t \<noteq> d \<Longrightarrow>
       tbl_get v' t x = (if cow_leaf v src Q t then cow1 (tbl_get v t x) else tbl_get v t x)"
  shows "frame src d Q v v'"
proof -
  have ok: "t mod 4096 = 0" "t \<notin> frame_addr ` free_frames (phys v)" "t \<noteq> d" if "tab v src p = Some t" for p t
    using pt_inv_table [OF inv that] d that by (auto simp: table_ok_def)
  have t: "tab v' src q = tab v src q" for q
  proof (rule tab_entries)
    fix p t j assume p: "tab v src p = Some t" "length p < 3" "j < (512 :: nat)"
    have "\<not> cow_leaf v src Q t" using pt_inv_tree [OF inv p(1)] p(2) unfolding cow_leaf_def by auto
    then show "tbl_get v' t j = tbl_get v t j" using e [OF ok(1) [OF p(1)] p(3) ok(2,3) [OF p(1)]] by simp
  qed
  have "pt_inv v' A' src" using inv b unfolding pt_inv_def t table_ok_def by blast
  then show ?thesis unfolding frame_def using b c t e by blast
qed

section \<open>The steps of a loop\<close>

lemma write_dst:
  assumes inv: "pt_inv v A src" and d: "outside v src d" and k: "k < 512"
  shows "frame src d {} v (tbl_set d k e v)" "x < 512 \<Longrightarrow> tbl_get (tbl_set d k e v) d x = (if x = k then e else tbl_get v d x)"
proof -
  have al: "d mod 4096 = 0" using d by (simp add: outside_def)
  show "tbl_get (tbl_set d k e v) d x = (if x = k then e else tbl_get v d x)" if "x < 512"
    using tbl_get_set [OF al al k that] by simp
  show "frame src d {} v (tbl_set d k e v)"
  proof (rule frameI [OF inv, of _ A])
    fix t x assume "t mod 4096 = 0" "x < (512 :: nat)" "t \<noteq> d"
    then show "tbl_get (tbl_set d k e v) t x = (if cow_leaf v src {} t then cow1 (tbl_get v t x) else tbl_get v t x)"
      using tbl_get_set [OF al _ k, of t x] by (simp add: cow_leaf_def)
  qed (use inv d in \<open>simp_all add: pt_inv_def outside_def tbl_set_def\<close>)
qed

lemma fresh_frame:
  assumes inv: "pt_inv v A src" and fr: "fresh_table v A b v1"
  shows "frame src (frame_addr b) {} v v1" "outside v1 src (frame_addr b)" "pt_inv v1 (insert (b, 0) A) src"
proof -
  have bi: "buddy_inv (phys v) A" using inv by (simp add: pt_inv_def)
  note f = fresh_tableD [OF fr bi]
  have nt: "tab v src q \<noteq> Some (frame_addr b)" for q using pt_inv_table [OF inv, of q] f(2) by (auto simp: table_ok_def)
  show fr: "frame src (frame_addr b) {} v v1"
    by (rule frameI [OF inv f(1)]) (use f nt in \<open>auto simp: cow_leaf_def\<close>)
  then have t: "tab v1 src q = tab v src q" for q by (simp add: frame_def)
  have "frame_addr b \<notin> frame_addr ` (free_frames (phys v) - {b})" by (auto simp: frame_inj)
  then show "outside v1 src (frame_addr b)" using nt t f(3) frame_props [OF f(4)] by (simp add: outside_def)
  show "pt_inv v1 (insert (b, 0) A) src" using inv f(1,3) unfolding pt_inv_def t table_ok_def by blast
qed

lemma link_dst:
  fixes e :: u64
  assumes inv: "pt_inv v A src" and d: "outside v src d" and k: "k < 512" and fr: "fresh_table v A b v1"
  defines "v2 \<equiv> tbl_set d k e v1"
  shows "frame src d {} v v2" "outside v2 src (frame_addr b)" "pt_inv v2 (insert (b, 0) A) src" "frame_addr b \<noteq> d"
    "b \<in> free_frames (phys v)" "b \<notin> free_frames (phys v2)" "x < 512 \<Longrightarrow> tbl_get v2 d x = (if x = k then e else tbl_get v d x)"
proof -
  have bi: "buddy_inv (phys v) A" using inv by (simp add: pt_inv_def)
  note f = fresh_tableD [OF fr bi] and ff = fresh_frame [OF inv fr]
  show bd: "frame_addr b \<noteq> d" "b \<in> free_frames (phys v)" using d f(2) by (auto simp: outside_def)
  have d1: "outside v1 src d" using frame_outside [OF ff(1) d] .
  note w = write_dst [OF ff(3) d1 k, where e = e, folded v2_def]
  have "t \<notin> frame_addr ` free_frames (phys v1)" if "t \<notin> frame_addr ` free_frames (phys v)" for t using that f(3) by auto
  then have "tbl_get v2 t x = (if cow_leaf v src {} t then cow1 (tbl_get v t x) else tbl_get v t x)"
    if "t mod 4096 = 0" "x < 512" "t \<notin> frame_addr ` free_frames (phys v)" "t \<noteq> d" for t x
    using frame_entry [OF w(1) that(1,2) _ that(4)] frame_entry [OF ff(1) that(1,2,3)] that(3) bd(2) by (auto simp: cow_leaf_def)
  then show "frame src d {} v v2"
    by (intro frameI [OF inv, of _ "insert (b, 0) A"]) (use f d in \<open>auto simp: v2_def outside_def tbl_set_def\<close>)
  show "outside v2 src (frame_addr b)" by (rule frame_outside [OF w(1) ff(2)])
  show "pt_inv v2 (insert (b, 0) A) src"
    using ff(3) w(1) unfolding pt_inv_def table_ok_def frame_def by (simp add: v2_def)
  show "b \<notin> free_frames (phys v2)" using f(3) by (simp add: v2_def)
  show "tbl_get v2 d x = (if x = k then e else tbl_get v d x)" if "x < 512"
    using w(2) [OF that] frame_outside_entry [OF ff(1) d _ that] bd(1) by simp
qed

section \<open>Copies of tables\<close>

text \<open>The table \<open>d\<close> of state \<open>v'\<close> is a copy of the table \<open>s\<close> of state \<open>v\<close> on level \<open>l\<close>, made of frames that were free in \<open>v\<close>.\<close>

primrec copied :: "nat \<Rightarrow> vm \<Rightarrow> vm \<Rightarrow> nat \<Rightarrow> nat \<Rightarrow> nat \<Rightarrow> bool" where
  "copied 0 v v' s d x \<longleftrightarrow> tbl_get v' d x = cow0 (tbl_get v s x)"
| "copied (Suc l) v v' s d x \<longleftrightarrow> (if \<not> has (tbl_get v s x) PTE_PRESENT \<or> (l = 0 \<and> has (tbl_get v s x) PTE_PS) then tbl_get v' d x = 0
     else \<exists>f. f \<in> free_frames (phys v) \<and> f \<notin> free_frames (phys v') \<and> tbl_get v' d x = of_nat (frame_addr f) OR PTE_STRUCT_FLAGS \<and>
       (\<forall>y < 512. copied l v v' (entry_addr (tbl_get v s x)) (frame_addr f) y))"

lemma taken_outside:
  assumes inv: "pt_inv v A src" and t: "\<And>q. tab v1 src q = tab v src q" and f: "f \<in> free_frames (phys v)" "f \<notin> free_frames (phys v1)"
  shows "outside v1 src (frame_addr f)"
proof -
  have "f < BUDDY_MAX_PAGES" using free_frames_bound [OF _ f(1)] inv unfolding pt_inv_def by blast
  moreover have "tab v1 src q \<noteq> Some (frame_addr f)" for q using pt_inv_table [OF inv, of q] f(1) by (auto simp: t table_ok_def)
  moreover have "frame_addr f \<notin> frame_addr ` free_frames (phys v1)" using f(2) by (auto simp: frame_inj)
  ultimately show ?thesis using frame_props by (simp add: outside_def)
qed

lemma copied_later:
  assumes inv: "pt_inv v A src" and t: "\<And>q. tab v1 src q = tab v src q" and fr: "frame src d' Q v1 v2"
    and d': "d' \<notin> frame_addr ` (free_frames (phys v) - free_frames (phys v1))"
  shows "copied l v v1 s d x \<Longrightarrow> outside v1 src d \<Longrightarrow> d \<noteq> d' \<Longrightarrow> x < 512 \<Longrightarrow> copied l v v2 s d x"
proof (induction l arbitrary: s d x)
  case 0
  then show ?case using frame_outside_entry [OF fr 0(2,3,4)] by simp
next
  case (Suc l)
  let ?e = "tbl_get v s x"
  note same = frame_outside_entry [OF fr Suc.prems(2,3,4)]
  have sub: "free_frames (phys v2) \<subseteq> free_frames (phys v1)" using fr by (simp add: frame_def)
  show ?case
  proof (cases "\<not> has ?e PTE_PRESENT \<or> (l = 0 \<and> has ?e PTE_PS)")
    case True
    then show ?thesis using Suc.prems(1) same by simp
  next
    case False
    then obtain f where f: "f \<in> free_frames (phys v)" "f \<notin> free_frames (phys v1)" "tbl_get v1 d x = of_nat (frame_addr f) OR PTE_STRUCT_FLAGS"
      "\<And>y. y < 512 \<Longrightarrow> copied l v v1 (entry_addr ?e) (frame_addr f) y" using Suc.prems(1) by auto
    have "outside v1 src (frame_addr f)" by (rule taken_outside [OF inv t f(1,2)])
    moreover have "frame_addr f \<noteq> d'" using d' f(1,2) by auto
    ultimately have "copied l v v2 (entry_addr ?e) (frame_addr f) y" if "y < 512" for y using Suc.IH f(4) that by blast
    then show ?thesis using False f same sub by auto
  qed
qed

lemma copied_earlier:
  assumes inv: "pt_inv v A src" and fr: "frame src d0 Q v v1" and d0: "\<And>q. tab v src q \<noteq> Some d0"
  shows "copied l v1 v2 s d x \<Longrightarrow> tab v src p = Some s \<Longrightarrow> length p = 3 - l \<Longrightarrow> l \<le> 3 \<Longrightarrow> x < 512 \<Longrightarrow> copied l v v2 s d x"
proof (induction l arbitrary: s d x p)
  case 0
  have "s mod 4096 = 0" "s \<notin> frame_addr ` free_frames (phys v)" "s \<noteq> d0" using pt_inv_table [OF inv 0(2)] d0 0(2) by (auto simp: table_ok_def)
  then show ?case using frame_entry [OF fr _ 0(5), of s] 0(1) by (simp add: cow_idem)
next
  case (Suc l)
  have s: "s mod 4096 = 0" "s \<notin> frame_addr ` free_frames (phys v)" "s \<noteq> d0" using pt_inv_table [OF inv Suc.prems(2)] d0 Suc.prems(2) by (auto simp: table_ok_def)
  have "\<not> cow_leaf v src Q s" using pt_inv_tree [OF inv Suc.prems(2)] Suc.prems(3) unfolding cow_leaf_def by auto
  then have e: "tbl_get v1 s x = tbl_get v s x" using frame_entry [OF fr s(1) Suc.prems(5) s(2,3)] by simp
  let ?e = "tbl_get v s x"
  have sub: "free_frames (phys v1) \<subseteq> free_frames (phys v)" using fr by (simp add: frame_def)
  show ?case
  proof (cases "\<not> has ?e PTE_PRESENT \<or> (l = 0 \<and> has ?e PTE_PS)")
    case True
    then show ?thesis using Suc.prems(1) e by simp
  next
    case False
    have "tab v src (x # p) = Some (entry_addr ?e)" using Suc.prems False by (auto simp: child_def Let_def)
    then have "copied l v v2 (entry_addr ?e) f y" if "copied l v1 v2 (entry_addr ?e) f y" "y < 512" for f y
      using Suc.IH [OF that(1), of "x # p"] that(2) Suc.prems(3,4) by (simp add: Suc_diff_le)
    moreover obtain f where "f \<in> free_frames (phys v1)" "f \<notin> free_frames (phys v2)" "tbl_get v2 d x = of_nat (frame_addr f) OR PTE_STRUCT_FLAGS"
      "\<forall>y < 512. copied l v1 v2 (entry_addr ?e) (frame_addr f) y" using Suc.prems(1) False unfolding copied.simps(2) e by auto
    ultimately have "\<exists>f. f \<in> free_frames (phys v) \<and> f \<notin> free_frames (phys v2) \<and> tbl_get v2 d x = of_nat (frame_addr f) OR PTE_STRUCT_FLAGS \<and>
        (\<forall>y < 512. copied l v v2 (entry_addr ?e) (frame_addr f) y)" using sub by (intro exI [of _ f]) auto
    then show ?thesis using False unfolding copied.simps(2) by presburger
  qed
qed

section \<open>The loops\<close>

definition pte_step :: "nat \<Rightarrow> nat \<Rightarrow> u64 \<Rightarrow> nat \<Rightarrow> vm \<Rightarrow> vm" where
  "pte_step s d va l v = (if \<not> has (tbl_get v s l) PTE_PRESENT then tbl_set d l 0 v
     else invlpg va (tbl_set d l (cow_entry (tbl_get v s l)) (tbl_set s l (cow_entry (tbl_get v s l)) (page_ref_inc (entry_addr (tbl_get v s l)) v))))"

lemma clone_ptes_step: "clone_ptes s d i j k (l # ls) v = clone_ptes s d i j k ls (pte_step s d (table_va i j k l) l v)"
  by (simp add: pte_step_def Let_def)

lemma pte_step_keeps:
  "buddy_inv (phys (pte_step s d va l v)) A = buddy_inv (phys v) A" "free_frames (phys (pte_step s d va l v)) = free_frames (phys v)"
  "cr3 (pte_step s d va l v) = cr3 v" "vm_kernel_cr3 (pte_step s d va l v) = vm_kernel_cr3 v"
proof -
  have k: "vm_kernel_cr3 (page_ref_inc pa v) = vm_kernel_cr3 v" for pa by (simp add: page_ref_inc_def set_ref_def split: option.split)
  show "buddy_inv (phys (pte_step s d va l v)) A = buddy_inv (phys v) A" "free_frames (phys (pte_step s d va l v)) = free_frames (phys v)"
    "cr3 (pte_step s d va l v) = cr3 v" "vm_kernel_cr3 (pte_step s d va l v) = vm_kernel_cr3 v"
    by (simp_all add: pte_step_def page_ref_inc_keeps k tbl_set_def invlpg_def)
qed

lemma pte_step_entry:
  assumes al: "s mod 4096 = 0" "d mod 4096 = 0" "s \<noteq> d" "l < 512" and t: "t mod 4096 = 0" "x < 512"
  shows "tbl_get (pte_step s d va l v) t x = (if x = l \<and> t = d then cow0 (tbl_get v s x) else if x = l \<and> t = s then cow1 (tbl_get v t x) else tbl_get v t x)"
proof (cases "has (tbl_get v s l) PTE_PRESENT")
  case True
  have r: "tbl_get (page_ref_inc pa v) t x = tbl_get v t x" for pa by (rule tbl_get_cong) (simp add: page_ref_inc_keeps)
  have "tbl_get (pte_step s d va l v) t x =
      tbl_get (tbl_set d l (cow_entry (tbl_get v s l)) (tbl_set s l (cow_entry (tbl_get v s l)) (page_ref_inc (entry_addr (tbl_get v s l)) v))) t x"
    using True by (simp add: pte_step_def tbl_get_def)
  then show ?thesis unfolding tbl_get_set [OF al(2) t(1) al(4) t(2)] tbl_get_set [OF al(1) t(1) al(4) t(2)] r
    using True al(3) by (auto simp: cow0_def cow1_def)
next
  case False
  then show ?thesis by (auto simp: pte_step_def tbl_get_set [OF al(2) t(1) al(4) t(2)] cow0_def cow1_def)
qed

lemma clone_ptes_keeps:
  "buddy_inv (phys (clone_ptes s d i j k ls v)) A = buddy_inv (phys v) A" "free_frames (phys (clone_ptes s d i j k ls v)) = free_frames (phys v)"
  "cr3 (clone_ptes s d i j k ls v) = cr3 v" "vm_kernel_cr3 (clone_ptes s d i j k ls v) = vm_kernel_cr3 v"
  by (induction ls arbitrary: v) (simp_all add: clone_ptes_step pte_step_keeps del: clone_ptes.simps(2))

lemma clone_ptes_entry:
  assumes "s mod 4096 = 0" "d mod 4096 = 0" "s \<noteq> d" "t mod 4096 = 0" "x < 512"
  shows "distinct ls \<Longrightarrow> set ls \<subseteq> {..<512} \<Longrightarrow> tbl_get (clone_ptes s d i j k ls v) t x =
    (if x \<in> set ls \<and> t = d then cow0 (tbl_get v s x) else if x \<in> set ls \<and> t = s then cow1 (tbl_get v t x) else tbl_get v t x)"
proof (induction ls arbitrary: v)
  case (Cons l ls)
  then have l: "l < 512" by simp
  note e = pte_step_entry [OF assms(1,2,3) l _ assms(5)]
  show ?case using Cons e [OF assms(4)] e [OF assms(1)] assms(3) by (auto simp: clone_ptes_step cow_idem simp del: clone_ptes.simps(2))
qed simp

definition below :: "nat list \<Rightarrow> nat list set" where
  "below p = {q. \<exists>r. q = r @ p}"

lemma below_tab: "q \<in> below p \<Longrightarrow> tab v src q = Some t \<Longrightarrow> \<exists>t'. tab v src p = Some t'"
proof -
  have "tab v src (r @ p) = Some t \<Longrightarrow> \<exists>t'. tab v src p = Some t'" for r t
    by (induction r arbitrary: t) (auto split: bind_splits)
  then show "q \<in> below p \<Longrightarrow> tab v src q = Some t \<Longrightarrow> \<exists>t'. tab v src p = Some t'" by (auto simp: below_def)
qed

text \<open>What a loop over all entries of a table of level \<open>l\<close> achieves.\<close>

definition clone_spec :: "nat \<Rightarrow> (nat \<Rightarrow> nat \<Rightarrow> nat list \<Rightarrow> vm \<Rightarrow> (vm \<times> bool) option) \<Rightarrow> bool" where
  "clone_spec l f \<longleftrightarrow> (\<forall>src v A s d p. pt_inv v A src \<longrightarrow> tab v src p = Some s \<longrightarrow> length p = 3 - l \<longrightarrow> outside v src d \<longrightarrow>
     (\<exists>v' ok. f s d [0..<512] v = Some (v', ok) \<and>
       (if ok then frame src d (below p) v v' \<and> (\<forall>x < 512. copied l v v' s d x) else free_blocks (phys v') = {})))"

lemma clone_specD:
  assumes "clone_spec l f" "pt_inv v A src" "tab v src p = Some s" "length p = 3 - l" "outside v src d"
  obtains v' where "f s d [0..<512] v = Some (v', True)" "frame src d (below p) v v'" "\<And>x. x < 512 \<Longrightarrow> copied l v v' s d x"
  | v' where "f s d [0..<512] v = Some (v', False)" "free_blocks (phys v') = {}"
proof -
  obtain v' ok where "f s d [0..<512] v = Some (v', ok)"
    "if ok then frame src d (below p) v v' \<and> (\<forall>x < 512. copied l v v' s d x) else free_blocks (phys v') = {}"
    using assms unfolding clone_spec_def by blast
  then show thesis using that by (cases ok) auto
qed

lemma leaf_spec: "clone_spec 0 (\<lambda>s d ls v. Some (clone_ptes s d i j k ls v, True))"
  unfolding clone_spec_def
proof (intro allI impI)
  fix src v A s d p
  assume inv: "pt_inv v A src" and s: "tab v src p = Some s" "length p = 3 - 0" and d: "outside v src d"
  let ?v = "clone_ptes s d i j k [0..<512] v"
  have al: "s mod 4096 = 0" "d mod 4096 = 0" "s \<noteq> d" using pt_inv_table [OF inv s(1)] d s(1) by (auto simp: table_ok_def outside_def)
  have e: "tbl_get ?v t x = (if t = d then cow0 (tbl_get v s x) else if t = s then cow1 (tbl_get v t x) else tbl_get v t x)"
    if "t mod 4096 = 0" "x < 512" for t x using clone_ptes_entry [OF al that, of "[0..<512]"] that(2) by (simp add: subset_eq)
  have p: "cow_leaf v src {p} t \<longleftrightarrow> t = s" for t using s by (auto simp: cow_leaf_def)
  have "frame src d {p} v ?v"
  proof (rule frameI [OF inv, of _ A])
    fix t x assume "t mod 4096 = 0" "x < (512 :: nat)" "t \<noteq> d"
    then show "tbl_get ?v t x = (if cow_leaf v src {p} t then cow1 (tbl_get v t x) else tbl_get v t x)" using e [of t x] unfolding p by simp
  qed (use inv d s(2) in \<open>simp_all add: pt_inv_def outside_def clone_ptes_keeps\<close>)
  moreover have "q \<in> {p} \<longleftrightarrow> q \<in> below p" if "length q = 3" for q using that s(2) by (auto simp: below_def)
  ultimately have "frame src d (below p) v ?v" by (rule frame_cong) simp
  moreover have "copied 0 v ?v s d x" if "x < 512" for x using e [OF al(2) that] by simp
  ultimately show "\<exists>v' ok. Some (?v, True) = Some (v', ok) \<and>
      (if ok then frame src d (below p) v v' \<and> (\<forall>x < 512. copied 0 v v' s d x) else free_blocks (phys v') = {})" by auto
qed

locale clone_level =
  fixes l :: nat and inner :: "nat \<Rightarrow> nat \<Rightarrow> nat \<Rightarrow> nat list \<Rightarrow> vm \<Rightarrow> (vm \<times> bool) option"
    and outer :: "nat \<Rightarrow> nat \<Rightarrow> nat list \<Rightarrow> vm \<Rightarrow> (vm \<times> bool) option"
  assumes level: "l \<le> 2" and inner_ok: "clone_spec l (inner k)"
    and outer_nil: "outer s d [] v = Some (v, True)"
    and outer_cons: "outer s d (k # ks) v =
      (let e = tbl_get v s k
       in if \<not> has e PTE_PRESENT \<or> (l = 0 \<and> has e PTE_PS) then outer s d ks (tbl_set d k 0 v)
          else do {
            (v1, p) \<leftarrow> alloc_table_page v;
            if p = 0 then Some (v1, False)
            else do {
              s' \<leftarrow> phys_to_virt (entry_addr e);
              d' \<leftarrow> phys_to_virt p;
              (v2, ok) \<leftarrow> inner k s' d' [0..<512] (tbl_set d k (of_nat p OR PTE_STRUCT_FLAGS) v1);
              if \<not> ok then Some (v2, False) else outer s d ks v2 } })"
begin

text \<open>A step that does not run out of memory.\<close>

definition stepped_to :: "nat \<Rightarrow> nat list \<Rightarrow> nat \<Rightarrow> nat \<Rightarrow> nat \<Rightarrow> vm \<Rightarrow> vm \<Rightarrow> bool" where
  "stepped_to src p s d k v v' \<longleftrightarrow> frame src d (below (k # p)) v v' \<and> (\<forall>x < 512. x \<noteq> k \<longrightarrow> tbl_get v' d x = tbl_get v d x) \<and>
     (if \<not> has (tbl_get v s k) PTE_PRESENT \<or> (l = 0 \<and> has (tbl_get v s k) PTE_PS) then tbl_get v' d k = 0
      else \<exists>f. f \<in> free_frames (phys v) \<and> f \<notin> free_frames (phys v') \<and> tbl_get v' d k = of_nat (frame_addr f) OR PTE_STRUCT_FLAGS \<and>
        (\<forall>y < 512. copied l v v' (entry_addr (tbl_get v s k)) (frame_addr f) y))"

lemma skip_step:
  assumes inv: "pt_inv v A src" and s: "tab v src p = Some s" "length p = 2 - l" and d: "outside v src d" and k: "k < 512"
    and e: "\<not> has (tbl_get v s k) PTE_PRESENT \<or> (l = 0 \<and> has (tbl_get v s k) PTE_PS)"
  shows "stepped_to src p s d k v (tbl_set d k 0 v)"
proof -
  note w = write_dst [OF inv d k, where e = 0]
  have n: "tab v src (k # p) = None" using s e level by (auto simp: child_def Let_def)
  have "frame src d (below (k # p)) v (tbl_set d k 0 v)"
  proof (rule frame_cong [OF w(1)])
    show "q \<in> {} \<longleftrightarrow> q \<in> below (k # p)" if "tab v src q = Some t" for q t using below_tab [OF _ that, of "k # p"] n by auto
  qed
  then show ?thesis using w(2) k e by (auto simp: stepped_to_def)
qed

lemma new_step:
  assumes inv: "pt_inv v A src" and s: "tab v src p = Some s" "length p = 2 - l" and d: "outside v src d" and k: "k < 512"
    and e: "\<not> (\<not> has (tbl_get v s k) PTE_PRESENT \<or> (l = 0 \<and> has (tbl_get v s k) PTE_PS))"
  obtains v' where "outer s d (k # ks) v = Some (v', False)" "free_blocks (phys v') = {}"
  | v' where "outer s d (k # ks) v = outer s d ks v'" "stepped_to src p s d k v v'"
proof -
  let ?s = "entry_addr (tbl_get v s k)"
  have bi: "buddy_inv (phys v) A" using inv by (simp add: pt_inv_def)
  have s': "tab v src (k # p) = Some ?s" using s e level k by (auto simp: child_def Let_def)
  have len: "length (k # p) = 3 - l" using s(2) level by simp
  note vs = pt_inv_virt [OF inv s']
  consider (no) "alloc_table_page v = Some (v, 0)" "free_blocks (phys v) = {}"
    | (ok) b v1 where "alloc_table_page v = Some (v1, frame_addr b)" "fresh_table v A b v1" using alloc_page_cases [OF bi] by blast
  then show thesis
  proof cases
    case no
    then show thesis using that(1) e by (auto simp: outer_cons Let_def)
  next
    case ok
    define v2 where "v2 = tbl_set d k (of_nat (frame_addr b) OR PTE_STRUCT_FLAGS) v1"
    note li = link_dst(1,2,3,6,7) [OF inv d k ok(2), where e = "of_nat (frame_addr b) OR PTE_STRUCT_FLAGS", folded v2_def]
    note lb = link_dst(4,5) [OF inv d k ok(2)]
    have t2: "tab v2 src q = tab v src q" for q using li(1) by (simp add: frame_def)
    have fb: "frame_addr b \<noteq> 0" "phys_to_virt (frame_addr b) = Some (frame_addr b)"
      using frame_props [OF fresh_tableD(4) [OF ok(2) bi]] by (auto simp: phys_to_virt_def)
    have c: "outer s d (k # ks) v = do { (v3, o3) \<leftarrow> inner k ?s (frame_addr b) [0..<512] v2; if \<not> o3 then Some (v3, False) else outer s d ks v3 }"
      using e ok(1) fb vs by (auto simp: outer_cons Let_def v2_def)
    have s2: "tab v2 src (k # p) = Some ?s" using s' t2 by (simp del: tab.simps)
    show thesis
    proof (rule clone_specD [OF inner_ok li(3) s2 len li(2), of k])
      fix v3 assume "inner k ?s (frame_addr b) [0..<512] v2 = Some (v3, False)" "free_blocks (phys v3) = {}"
      then show thesis using that(1) c by simp
    next
      fix v3 assume i: "inner k ?s (frame_addr b) [0..<512] v2 = Some (v3, True)" "frame src (frame_addr b) (below (k # p)) v2 v3"
        "\<And>x. x < 512 \<Longrightarrow> copied l v2 v3 ?s (frame_addr b) x"
      have f3: "frame src d (below (k # p)) v v3" using frame_trans [OF li(1) i(2)] lb(2) by simp
      have d3: "tbl_get v3 d x = tbl_get v2 d x" if "x < 512" for x
        using frame_outside_entry [OF i(2) frame_outside [OF li(1) d] _ that] lb(1) by simp
      have "copied l v v3 ?s (frame_addr b) y" if "y < 512" for y
        using copied_earlier [OF inv li(1) _ i(3) [OF that] s' len _ that] d level by (auto simp: outside_def)
      moreover have "b \<notin> free_frames (phys v3)" using li(4) i(2) by (auto simp: frame_def)
      ultimately have "stepped_to src p s d k v v3" using f3 d3 lb(2) li(5) e k unfolding stepped_to_def by auto
      then show thesis using that(2) c i(1) by simp
    qed
  qed
qed

text \<open>A copied entry stays copied during the rest of the loop.\<close>

lemma copied_step:
  assumes inv: "pt_inv v A src" and s: "tab v src p = Some s" "length p = 2 - l" and d: "outside v src d" and k: "k < 512"
    and st: "stepped_to src p s d k v v1" and fr: "frame src d Q v1 v'" and e: "tbl_get v' d k = tbl_get v1 d k"
  shows "copied (Suc l) v v' s d k"
proof (cases "\<not> has (tbl_get v s k) PTE_PRESENT \<or> (l = 0 \<and> has (tbl_get v s k) PTE_PS)")
  case True
  then show ?thesis using st e unfolding stepped_to_def by auto
next
  case False
  let ?s = "entry_addr (tbl_get v s k)"
  obtain f where f: "f \<in> free_frames (phys v)" "f \<notin> free_frames (phys v1)" "tbl_get v1 d k = of_nat (frame_addr f) OR PTE_STRUCT_FLAGS"
    "\<And>y. y < 512 \<Longrightarrow> copied l v v1 ?s (frame_addr f) y" using st False unfolding stepped_to_def by auto
  have f1: "frame src d (below (k # p)) v v1" using st by (simp add: stepped_to_def)
  then have t: "tab v1 src q = tab v src q" for q by (simp add: frame_def)
  have d': "d \<notin> frame_addr ` (free_frames (phys v) - free_frames (phys v1))" using d by (auto simp: outside_def)
  have "outside v1 src (frame_addr f)" by (rule taken_outside [OF inv t f(1,2)])
  moreover have "frame_addr f \<noteq> d" using d f(1) by (auto simp: outside_def)
  ultimately have "copied l v v' ?s (frame_addr f) y" if "y < 512" for y
    using copied_later [OF inv t fr d' f(4) [OF that]] that by blast
  moreover have "f \<notin> free_frames (phys v')" using f(2) fr by (auto simp: frame_def)
  ultimately show ?thesis using False f(1,3) e by auto
qed

lemma outer_ok:
  assumes "distinct ks" "set ks \<subseteq> {..<512}" "pt_inv v A src" "tab v src p = Some s" "length p = 2 - l" "outside v src d"
  shows "\<exists>v' ok. outer s d ks v = Some (v', ok) \<and>
    (if ok then frame src d (\<Union>k \<in> set ks. below (k # p)) v v' \<and> (\<forall>x \<in> set ks. copied (Suc l) v v' s d x) \<and>
       (\<forall>x < 512. x \<notin> set ks \<longrightarrow> tbl_get v' d x = tbl_get v d x)
     else free_blocks (phys v') = {})"
  using assms
proof (induction ks arbitrary: v A)
  case Nil
  then show ?case using frame_refl [OF Nil(3)] by (auto simp: outer_nil)
next
  case (Cons k ks)
  have k: "k < 512" "k \<notin> set ks" "distinct ks" "set ks \<subseteq> {..<512}" using Cons.prems(1,2) by auto
  note pre = Cons.prems(3-6) k(1)
  let ?e = "tbl_get v s k"
  consider (fail) v1 where "outer s d (k # ks) v = Some (v1, False)" "free_blocks (phys v1) = {}"
    | (step) v1 where "outer s d (k # ks) v = outer s d ks v1" "stepped_to src p s d k v v1"
  proof (cases "\<not> has ?e PTE_PRESENT \<or> (l = 0 \<and> has ?e PTE_PS)")
    case True
    then have "outer s d (k # ks) v = outer s d ks (tbl_set d k 0 v)" by (auto simp: outer_cons Let_def)
    then show ?thesis using that(2) skip_step [OF pre True] by blast
  next
    case False
    show ?thesis by (rule new_step [OF pre False, of ks]) (use that in blast)+
  qed
  then show ?case
  proof cases
    case fail
    then show ?thesis by auto
  next
    case step
    note st = step(2) [unfolded stepped_to_def]
    have f1: "frame src d (below (k # p)) v v1" using st by blast
    obtain A1 where A1: "pt_inv v1 A1 src" "tab v1 src p = Some s" "outside v1 src d"
      using f1 Cons.prems(4) frame_outside [OF f1 Cons.prems(6)] unfolding frame_def by auto
    obtain v' ok where v': "outer s d ks v1 = Some (v', ok)"
      "if ok then frame src d (\<Union>k \<in> set ks. below (k # p)) v1 v' \<and> (\<forall>x \<in> set ks. copied (Suc l) v1 v' s d x) \<and>
         (\<forall>x < 512. x \<notin> set ks \<longrightarrow> tbl_get v' d x = tbl_get v1 d x) else free_blocks (phys v') = {}"
      using Cons.IH [OF k(3,4) A1(1,2) Cons.prems(5) A1(3)] by blast
    show ?thesis
    proof (cases ok)
      case True
      then have r: "frame src d (\<Union>k \<in> set ks. below (k # p)) v1 v'" "\<And>x. x \<in> set ks \<Longrightarrow> copied (Suc l) v1 v' s d x"
        "\<And>x. x < 512 \<Longrightarrow> x \<notin> set ks \<Longrightarrow> tbl_get v' d x = tbl_get v1 d x" using v'(2) by auto
      have "frame src d (\<Union>k \<in> set (k # ks). below (k # p)) v v'" using frame_trans [OF f1 r(1)] by simp
      moreover have "copied (Suc l) v v' s d x" if "x \<in> set (k # ks)" for x
        using that copied_step [OF pre step(2) r(1) r(3) [OF k(1,2)]] copied_earlier [OF Cons.prems(3) f1 _ r(2), of x p] pre level k(4)
        by (auto simp: outside_def)
      moreover have "tbl_get v' d x = tbl_get v d x" if "x < 512" "x \<notin> set (k # ks)" for x using that r(3) st by auto
      ultimately show ?thesis using step(1) v'(1) True by auto
    next
      case False
      then show ?thesis using step(1) v' by auto
    qed
  qed
qed

lemma outer_spec: "clone_spec (Suc l) outer"
  unfolding clone_spec_def
proof (intro allI impI)
  fix src v A s d p
  assume inv: "pt_inv v A src" and s: "tab v src p = Some s" "length p = 3 - Suc l" and d: "outside v src d"
  have len: "length p = 2 - l" using s(2) by simp
  have Q: "q \<in> (\<Union>k \<in> set [0..<512]. below (k # p)) \<longleftrightarrow> q \<in> below p" if q: "length q = 3" "tab v src q = Some t" for q t
  proof
    assume "q \<in> below p"
    then obtain r where r: "q = r @ p" by (auto simp: below_def)
    then have "r \<noteq> []" using q(1) len level by auto
    then obtain r' k where r': "r = r' @ [k]" by (metis rev_exhaust)
    then have b: "q \<in> below (k # p)" using r by (auto simp: below_def)
    obtain t' where "tab v src (k # p) = Some t'" using below_tab [OF b q(2)] by blast
    then have "k < 512" by (auto simp: child_def Let_def split: bind_splits if_splits)
    then show "q \<in> (\<Union>k \<in> set [0..<512]. below (k # p))" using b by auto
  qed (auto simp: below_def)
  obtain v' ok where v': "outer s d [0..<512] v = Some (v', ok)"
    "if ok then frame src d (\<Union>k \<in> set [0..<512]. below (k # p)) v v' \<and> (\<forall>x \<in> set [0..<512]. copied (Suc l) v v' s d x) \<and>
       (\<forall>x < 512. x \<notin> set [0..<512] \<longrightarrow> tbl_get v' d x = tbl_get v d x) else free_blocks (phys v') = {}"
    using outer_ok [of "[0..<512]" v A src p s d, OF _ _ inv s(1) len d] by (auto simp: subset_eq)
  moreover have "frame src d (below p) v v'" if ok using v'(2) that frame_cong [OF _ Q] by auto
  ultimately show "\<exists>v' ok. outer s d [0..<512] v = Some (v', ok) \<and>
      (if ok then frame src d (below p) v v' \<and> (\<forall>x < 512. copied (Suc l) v v' s d x) else free_blocks (phys v') = {})"
    by (intro exI [of _ v'] exI [of _ ok]) auto
qed

end

interpretation cl0: clone_level 0 "\<lambda>k s d ls v. Some (clone_ptes s d i j k ls v, True)" "\<lambda>s d. clone_pdes s d i j" for i j
  by unfold_locales (simp_all add: leaf_spec Let_def cong: if_cong)

interpretation cl1: clone_level 1 "\<lambda>j s d. clone_pdes s d i j" "\<lambda>s d. clone_pdptes s d i" for i
  by unfold_locales (use cl0.outer_spec in \<open>simp_all add: Let_def\<close>)

interpretation cl2: clone_level 2 "\<lambda>i s d. clone_pdptes s d i" clone_pml4es
  by unfold_locales (use cl1.outer_spec in \<open>simp_all add: Let_def numeral_2_eq_2\<close>)

end
