(* ===== verification/ForkSpace.thy ===== *)
theory ForkSpace
  imports PageTableClone
begin

text \<open>
  What \<open>clone_current_pml4\<close> gives the child and does to the parent, in terms of the processor's walk.
\<close>

declare upt_rec_numeral [simp del]

section \<open>The walk over a copy\<close>

lemma taken_entry:
  assumes "pt_inv v A src" "f \<in> free_frames (phys v)"
  shows "entry_addr (of_nat (frame_addr f) OR PTE_STRUCT_FLAGS) = frame_addr f" "has (of_nat (frame_addr f) OR PTE_STRUCT_FLAGS) PTE_PRESENT"
    "\<not> has (of_nat (frame_addr f) OR PTE_STRUCT_FLAGS) PTE_PS" "\<not> has (of_nat (frame_addr f) OR PTE_STRUCT_FLAGS) PTE_USER"
proof -
  have "f < BUDDY_MAX_PAGES" using free_frames_bound assms unfolding pt_inv_def by blast
  note e = struct_entry [OF _ this, of PTE_STRUCT_FLAGS]
  have "struct_flags_ok PTE_STRUCT_FLAGS" "\<not> has PTE_STRUCT_FLAGS PTE_USER" by (simp_all add: struct_flags_ok_def has_bits bit_struct_flags)
  then show "entry_addr (of_nat (frame_addr f) OR PTE_STRUCT_FLAGS) = frame_addr f" "has (of_nat (frame_addr f) OR PTE_STRUCT_FLAGS) PTE_PRESENT"
    "\<not> has (of_nat (frame_addr f) OR PTE_STRUCT_FLAGS) PTE_PS" "\<not> has (of_nat (frame_addr f) OR PTE_STRUCT_FLAGS) PTE_USER"
    using e by simp_all
qed

lemma copied_cases:
  assumes "copied (Suc l) v v' s d x"
  obtains (skip) "\<not> has (tbl_get v s x) PTE_PRESENT \<or> (l = 0 \<and> has (tbl_get v s x) PTE_PS)" "tbl_get v' d x = 0"
  | (copy) f where "has (tbl_get v s x) PTE_PRESENT" "\<not> (l = 0 \<and> has (tbl_get v s x) PTE_PS)" "f \<in> free_frames (phys v)"
      "tbl_get v' d x = of_nat (frame_addr f) OR PTE_STRUCT_FLAGS" "\<And>y. y < 512 \<Longrightarrow> copied l v v' (entry_addr (tbl_get v s x)) (frame_addr f) y"
  using assms by (cases "\<not> has (tbl_get v s x) PTE_PRESENT \<or> (l = 0 \<and> has (tbl_get v s x) PTE_PS)") auto

text \<open>The copy translates to the same pages, none of them writable; 2 MiB pages are missing from it.\<close>

lemma copied_walk:
  assumes inv: "pt_inv v A src"
  shows "copied l v v' s d (idx l va) \<Longrightarrow> tab v src (rpath va l) = Some s \<Longrightarrow> l \<le> 3 \<Longrightarrow>
    map_option w_page (walk_from v' l d va u' r') = (if maps_huge v src va \<and> l \<noteq> 0 then None else map_option w_page (walk_from v l s va u r)) \<and>
    (\<forall>w. walk_from v' l d va u' r' = Some w \<longrightarrow> \<not> w_rw w \<and> (l \<noteq> 0 \<longrightarrow> \<not> w_user w))"
proof (induction l arbitrary: s d u r u' r')
  case 0
  then show ?case by (auto simp: cow0_def cow_entry_facts Let_def has_def [of 0])
next
  case (Suc l)
  let ?e = "tbl_get v s (idx (Suc l) va)" and ?e' = "tbl_get v' d (idx (Suc l) va)"
  from Suc.prems(1) show ?case
  proof (cases rule: copied_cases)
    case skip
    then have "walk_from v' (Suc l) d va u' r' = None" by (simp add: walk_from_Suc has_def)
    moreover have "maps_huge v src va" if "has ?e PTE_PRESENT" using skip(1) that Suc.prems(2) by (auto simp: maps_huge_def)
    ultimately show ?thesis using skip(1) by (auto simp: walk_from_Suc)
  next
    case (copy f)
    note t = taken_entry [OF inv copy(3)]
    have w: "walk_from v (Suc l) s va u r = walk_from v l (entry_addr ?e) va (u \<and> has ?e PTE_USER) (r \<and> has ?e PTE_RW)" for u r
      using copy(1,2) by (auto simp: walk_from_Suc)
    have w': "walk_from v' (Suc l) d va u' r' = walk_from v' l (frame_addr f) va False (r' \<and> has ?e' PTE_RW)"
      using t copy(4) by (auto simp: walk_from_Suc)
    have s: "tab v src (rpath va l) = Some (entry_addr ?e)" using Suc.prems(2,3) copy(1,2) by (auto simp: rpath_simps child_def Let_def)
    have "\<not> (maps_huge v src va \<and> l = 0)" using copy(2) Suc.prems(2) by (auto simp: maps_huge_def)
    then show ?thesis using Suc.IH [OF copy(5) [OF idx_less] s] Suc.prems(3) walk_from_user [of v' l "frame_addr f" va False] unfolding w w' by auto
  qed
qed

section \<open>The walk of the parent\<close>

lemma parent_walk:
  assumes up: "\<And>k t. 1 \<le> k \<Longrightarrow> k \<le> 3 \<Longrightarrow> tab v src (rpath va k) = Some t \<Longrightarrow> tbl_get v' t (idx k va) = tbl_get v t (idx k va)"
    and leaf: "\<And>t. tab v src (rpath va 0) = Some t \<Longrightarrow> tbl_get v' t (idx 0 va) = cow1 (tbl_get v t (idx 0 va))"
  shows "tab v src (rpath va l) = Some t \<Longrightarrow> l \<le> 3 \<Longrightarrow> walk_from v' l t va u r =
    (if maps_huge v src va \<and> l \<noteq> 0 then walk_from v l t va u r else map_option (w_rw_update (\<lambda>_. False)) (walk_from v l t va u r))"
proof (induction l arbitrary: t u r)
  case 0
  then show ?case using leaf [of t] by (simp add: Let_def cow1_def cow_entry_facts)
next
  case (Suc l)
  let ?e = "tbl_get v t (idx (Suc l) va)"
  have e: "tbl_get v' t (idx (Suc l) va) = ?e" using up [OF _ _ Suc.prems(1)] Suc.prems(2) by simp
  show ?case
  proof (cases "has ?e PTE_PRESENT \<and> \<not> (l = 0 \<and> has ?e PTE_PS)")
    case True
    have t: "tab v src (rpath va l) = Some (entry_addr ?e)" using Suc.prems True by (auto simp: rpath_simps child_def Let_def)
    have "\<not> (maps_huge v src va \<and> l = 0)" using True Suc.prems(1) by (auto simp: maps_huge_def)
    then show ?thesis using True Suc.IH [OF t] Suc.prems(2) unfolding walk_from_Suc e by auto
  next
    case False
    moreover have "maps_huge v src va" if "has ?e PTE_PRESENT" using False that Suc.prems(1) by (auto simp: maps_huge_def)
    ultimately show ?thesis unfolding walk_from_Suc e by auto
  qed
qed

section \<open>clone_current_pml4\<close>

lemma root_table: "pt_inv v A src \<Longrightarrow> src mod 4096 = 0 \<and> src \<notin> frame_addr ` free_frames (phys v) \<and> phys_to_virt src = Some src"
  using pt_inv_table [of v A src "[]" src] pt_inv_virt [of v A src "[]" src] by (simp add: table_ok_def)

lemma copy_entries_ok:
  assumes "pt_inv v A src" "outside v src d" "set is \<subseteq> {..<512}"
  shows "frame src d {} v (copy_entries src d is v) \<and>
    (\<forall>x < 512. tbl_get (copy_entries src d is v) d x = (if x \<in> set is then tbl_get v src x else tbl_get v d x))"
  using assms
proof (induction "is" arbitrary: v A)
  case Nil
  then show ?case using frame_refl by auto
next
  case (Cons i js)
  let ?v = "tbl_set d i (tbl_get v src i) v"
  have i: "i < 512" "set js \<subseteq> {..<512}" using Cons.prems(3) by auto
  note w = write_dst [OF Cons.prems(1,2) i(1), where e = "tbl_get v src i"]
  obtain A1 where A1: "pt_inv ?v A1 src" using w(1) unfolding frame_def by blast
  note IH = Cons.IH [OF A1 frame_outside [OF w(1) Cons.prems(2)] i(2)]
  have ne: "src \<noteq> d" using Cons.prems(2) tab.simps(1) [of v src] unfolding outside_def by metis
  have s: "tbl_get ?v src x = tbl_get v src x" if "x < 512" for x
    using frame_entry [OF w(1) _ that, of src] root_table [OF Cons.prems(1)] ne by (simp add: cow_leaf_def)
  have "frame src d {} v (copy_entries src d js ?v)" using frame_trans [OF w(1), of d "{}"] IH by simp
  then show ?case using IH w(2) s i by auto
qed

definition user_half :: "u64 \<Rightarrow> bool" where
  "user_half va \<longleftrightarrow> 1 \<le> idx 3 va \<and> idx 3 va < 256"

text \<open>The tables of the copy: a copy of the user part, and the entries of the kernel part.\<close>

definition cloned :: "vm \<Rightarrow> nat \<Rightarrow> vm \<Rightarrow> nat \<Rightarrow> bool" where
  "cloned v src v' c \<longleftrightarrow> frame src c (\<Union>k \<in> set [1..<256]. below [k]) v v' \<and> (\<forall>x \<in> set [1..<256]. copied 3 v v' src c x) \<and>
     (\<forall>x < 512. x \<notin> set [1..<256] \<longrightarrow> tbl_get v' c x = tbl_get v src x) \<and> (\<exists>b \<in> free_frames (phys v). c = frame_addr b)"

text \<open>The new top level table before the loop.\<close>

lemma clone_start:
  assumes inv: "pt_inv v A (cr3 v)" and new: "vm_alloc_page v = Some (v1, frame_addr b)" "fresh_table v A b v1"
  obtains v3 where "frame (cr3 v) (frame_addr b) {} v v3" "outside v3 (cr3 v) (frame_addr b)"
    "\<And>x. x < 512 \<Longrightarrow> x \<notin> set [1..<256] \<Longrightarrow> tbl_get v3 (frame_addr b) x = tbl_get v (cr3 v) x"
    "clone_fill v = do { (v4, o4) \<leftarrow> clone_pml4es (cr3 v) (frame_addr b) [1..<256] v3; Some (v4, frame_addr b, o4) }"
proof -
  let ?src = "cr3 v" and ?d = "frame_addr b"
  have bi: "buddy_inv (phys v) A" using inv by (simp add: pt_inv_def)
  note f = fresh_tableD [OF new(2) bi] and ff = fresh_frame [OF inv new(2)]
  define v2 where "v2 = copy_entries ?src ?d [256..<512] v1"
  define v3 where "v3 = tbl_set ?d 0 (tbl_get v2 ?src 0) v2"
  have c2: "frame ?src ?d {} v1 v2" "\<And>x. x < 512 \<Longrightarrow> tbl_get v2 ?d x = (if x \<in> set [256..<512] then tbl_get v1 ?src x else tbl_get v1 ?d x)"
    using copy_entries_ok [OF ff(3,2), of "[256..<512]"] by (auto simp: v2_def subset_eq)
  then obtain A2 where A2: "pt_inv v2 A2 ?src" unfolding frame_def by blast
  note w = write_dst [OF A2 frame_outside [OF c2(1) ff(2)], where k = 0 and e = "tbl_get v2 ?src 0", folded v3_def]
  have s: "tbl_get v1 ?src x = tbl_get v ?src x" "tbl_get v2 ?src x = tbl_get v ?src x" if "x < 512" for x
    using frame_entry [OF ff(1) _ that, of ?src] frame_entry [OF frame_trans [OF ff(1) c2(1)] _ that, of ?src] root_table [OF inv] f(2)
    by (auto simp: cow_leaf_def)
  have nz: "?d \<noteq> 0" "cr3 v1 = ?src" using frame_props [OF f(4)] f(7) by auto
  show thesis
  proof
    show "frame ?src ?d {} v v3" using frame_trans [OF frame_trans [OF ff(1) c2(1)] w(1)] by simp
    show "outside v3 ?src ?d" using frame_outside [OF w(1) frame_outside [OF c2(1) ff(2)]] by simp
    show "tbl_get v3 ?d x = tbl_get v ?src x" if "x < 512" "x \<notin> set [1..<256]" for x
      using w(2) [of x] c2(2) [OF that(1)] that s by auto
    show "clone_fill v = do { (v4, o4) \<leftarrow> clone_pml4es ?src ?d [1..<256] v3; Some (v4, ?d, o4) }"
      using new(1) nz root_table [OF inv] by (simp add: clone_fill_def v2_def v3_def Let_def)
  qed
qed

lemma clone_tables:
  assumes inv: "pt_inv v A (cr3 v)"
  obtains (fail) v4 c where "clone_fill v = Some (v4, c, False)" "free_blocks (phys v4) = {}"
  | (ok) v' c where "clone_fill v = Some (v', c, True)" "cloned v (cr3 v) v' c"
proof -
  let ?src = "cr3 v"
  have bi: "buddy_inv (phys v) A" using inv by (simp add: pt_inv_def)
  consider (no) "vm_alloc_page v = Some (v, 0)" "free_blocks (phys v) = {}"
    | (new) b v1 where "vm_alloc_page v = Some (v1, frame_addr b)" "fresh_table v A b v1" using alloc_page_cases [OF bi] by blast
  then show thesis
  proof cases
    case no
    then show thesis using fail by (simp add: clone_fill_def)
  next
    case new
    let ?d = "frame_addr b"
    obtain v3 where v3: "frame ?src ?d {} v v3" "outside v3 ?src ?d" "\<And>x. x < 512 \<Longrightarrow> x \<notin> set [1..<256] \<Longrightarrow> tbl_get v3 ?d x = tbl_get v ?src x"
      and cl: "clone_fill v = do { (v4, o4) \<leftarrow> clone_pml4es ?src ?d [1..<256] v3; Some (v4, ?d, o4) }"
      by (rule clone_start [OF inv new]) (rule that)
    obtain A3 where A3: "pt_inv v3 A3 ?src" using v3(1) unfolding frame_def by blast
    have three: "Suc 2 = 3" by simp
    obtain v4 o4 where o4: "clone_pml4es ?src ?d [1..<256] v3 = Some (v4, o4)"
      "if o4 then frame ?src ?d (\<Union>k \<in> set [1..<256]. below [k]) v3 v4 \<and> (\<forall>x \<in> set [1..<256]. copied 3 v3 v4 ?src ?d x) \<and>
         (\<forall>x < 512. x \<notin> set [1..<256] \<longrightarrow> tbl_get v4 ?d x = tbl_get v3 ?d x) else free_blocks (phys v4) = {}"
      using cl2.outer_ok [of "[1..<256]" v3 A3 ?src "[]" ?src ?d, OF distinct_upt _ A3 _ _ v3(2), unfolded three]
      by (auto simp: subset_eq simp del: One_nat_def)
    show thesis
    proof (cases o4)
      case True
      then have r: "frame ?src ?d (\<Union>k \<in> set [1..<256]. below [k]) v3 v4" "\<And>x. x \<in> set [1..<256] \<Longrightarrow> copied 3 v3 v4 ?src ?d x"
        "\<And>x. x < 512 \<Longrightarrow> x \<notin> set [1..<256] \<Longrightarrow> tbl_get v4 ?d x = tbl_get v3 ?d x" using o4(2) by auto
      have b: "b \<in> free_frames (phys v)" using fresh_tableD(2) [OF new(2) bi] .
      then have nt: "tab v ?src q \<noteq> Some ?d" for q using pt_inv_table [OF inv, of q] by (auto simp: table_ok_def)
      have "copied 3 v v4 ?src ?d x" if "x \<in> set [1..<256]" for x
        by (rule copied_earlier [OF inv v3(1) nt r(2) [OF that], of "[]"]) (use that in simp_all)
      then have "cloned v ?src v4 ?d" using frame_trans [OF v3(1) r(1)] r(3) v3(3) b by (auto simp: cloned_def)
      then show thesis using ok cl o4(1) True by simp
    next
      case False
      then show thesis using fail cl o4 by simp
    qed
  qed
qed

section \<open>Parent and child\<close>

definition forked :: "vm \<Rightarrow> nat \<Rightarrow> vm \<Rightarrow> nat \<Rightarrow> u64 \<Rightarrow> bool" where
  "forked v src v' c va \<longleftrightarrow>
     (if user_half va \<and> \<not> maps_huge v src va
      then map_option w_page (walk v' c va) = map_option w_page (walk v src va) \<and> (\<forall>w. walk v' c va = Some w \<longrightarrow> \<not> w_rw w) \<and>
        walk v' src va = map_option (w_rw_update (\<lambda>_. False)) (walk v src va)
      else walk v' src va = walk v src va \<and> walk v' c va = (if user_half va then None else walk v src va))"

lemma cow_leaf_user:
  assumes inv: "pt_inv v A src" and t: "tab v src (rpath va k) = Some t" "k \<le> 3"
  shows "cow_leaf v src (\<Union>i \<in> set [1..<256]. below [i]) t \<longleftrightarrow> k = 0 \<and> user_half va"
proof -
  have "cow_leaf v src (\<Union>i \<in> set [1..<256]. below [i]) t \<longleftrightarrow> length (rpath va k) = 3 \<and> rpath va k \<in> (\<Union>i \<in> set [1..<256]. below [i])"
    using pt_inv_tree [OF inv t(1)] t(1) unfolding cow_leaf_def by blast
  moreover have "rpath va 0 \<in> below [i] \<longleftrightarrow> i = idx 3 va" for i by (auto simp: below_def rpaths Cons_eq_append_conv)
  moreover have "length (rpath va k) = 3 \<longleftrightarrow> k = 0" using rpath_simps(3) [OF t(2)] t(2) by auto
  ultimately show ?thesis by (auto simp: user_half_def)
qed

lemma cloned_entry:
  assumes inv: "pt_inv v A src" and c: "cloned v src v' c" and t: "tab v src (rpath va k) = Some t" "k \<le> 3"
  shows "tbl_get v' t (idx k va) = (if k = 0 \<and> user_half va then cow1 (tbl_get v t (idx k va)) else tbl_get v t (idx k va))"
proof -
  have fr: "frame src c (\<Union>i \<in> set [1..<256]. below [i]) v v'" "c \<in> frame_addr ` free_frames (phys v)" using c by (auto simp: cloned_def)
  have "t mod 4096 = 0" "t \<notin> frame_addr ` free_frames (phys v)" "t \<noteq> c" using pt_inv_table [OF inv t(1)] fr(2) by (auto simp: table_ok_def)
  then show ?thesis using frame_entry [OF fr(1) _ idx_less] cow_leaf_user [OF inv t] by simp
qed

lemma cloned_forked:
  assumes inv: "pt_inv v A src" and c: "cloned v src v' c"
  shows "forked v src v' c va" "user_half va \<Longrightarrow> walk v' c va = Some w \<Longrightarrow> \<not> w_user w"
proof -
  note e = cloned_entry [OF inv c]
  have root: "tab v src (rpath va 3) = Some src" by (simp add: rpaths)
  have pw: "walk v' src va = (if maps_huge v src va then walk v src va else map_option (w_rw_update (\<lambda>_. False)) (walk v src va))" if "user_half va"
    unfolding walk_def using parent_walk [of v src va v' 3 src True True] e that root by simp
  have cw: "map_option w_page (walk v' c va) = (if maps_huge v src va then None else map_option w_page (walk v src va)) \<and>
      (\<forall>w. walk v' c va = Some w \<longrightarrow> \<not> w_rw w \<and> \<not> w_user w)" if u: "user_half va"
  proof -
    have "copied 3 v v' src c (idx 3 va)" using c u by (auto simp: cloned_def user_half_def)
    from copied_walk [OF inv this root, of True True True True] show ?thesis by (simp add: walk_def)
  qed
  show "\<not> w_user w" if "user_half va" "walk v' c va = Some w" using cw that by blast
  show "forked v src v' c va"
  proof (cases "user_half va")
    case True
    then show ?thesis using pw cw by (auto simp: forked_def)
  next
    case False
    have p: "walk v' src va = walk v src va" unfolding walk_def by (rule walk_from_same [OF _ root]) (use e False in auto)
    have r: "tbl_get v' c (idx 3 va) = tbl_get v' src (idx 3 va)" using c e [OF root] False by (auto simp: cloned_def user_half_def)
    have three: "Suc 2 = 3" by simp
    have "walk v' c va = walk v' src va"
      using walk_from_Suc [of v' 2 c va True True] walk_from_Suc [of v' 2 src va True True] r unfolding three walk_def by simp
    then show ?thesis using p False by (simp add: forked_def)
  qed
qed

section \<open>Properties\<close>


text \<open>When \<open>clone_current_pml4\<close> succeeds, no page of the user part of the child is accessible from user mode, whatever the
  parent's rights: the entries that link the tables of the copy lack the user bit.\<close>

theorem clone_child_no_user:
  assumes "pt_inv v A (cr3 v)"
  shows "\<exists>v' c ok. clone_fill v = Some (v', c, ok) \<and>
    (if ok then clone_current_pml4 v = Some (v', c) \<and> (\<forall>va w. user_half va \<and> walk v' c va = Some w \<longrightarrow> \<not> w_user w) else free_blocks (phys v') = {})"
proof (rule clone_tables [OF assms])
  fix v' c assume c: "clone_fill v = Some (v', c, True)" "cloned v (cr3 v) v' c"
  then show ?thesis using cloned_forked(2) [OF assms c(2)] by (auto simp: clone_current_pml4_def)
qed auto

section \<open>Instances\<close>

definition idle_space :: vm where
  "idle_space = empty_space\<lparr> hp := small_heap \<rparr>"

lemma idle_space_inv: "pt_inv idle_space {} (cr3 idle_space)"
proof -
  have z: "ram (phys idle_space) = (\<lambda>_. 0)"
    by (simp add: idle_space_def small_heap_def one_frame_def mark_available_page_def list_add_def set_head_def set_page_def boot_state_def)
  have r: "cr3 idle_space = 0x1000" by (simp add: idle_space_def empty_space_def)
  have t: "tab idle_space 0x1000 p = (if p = [] then Some 0x1000 else None)" for p
    by (induction p) (auto simp: child_def zero_entry [OF z] has_zero)
  show ?thesis unfolding pt_inv_def r t using low_table [of "0x1000"] small_heap_start(1) by (auto simp: idle_space_def split: if_splits)
qed

text \<open>An address space without user part is copied with a single frame.\<close>

lemma clone_empty:
  assumes "pt_inv v A src" "outside v src d" "set is \<subseteq> {..<512}" "\<And>i. i \<in> set is \<Longrightarrow> \<not> has (tbl_get v src i) PTE_PRESENT"
  shows "\<exists>v'. clone_pml4es src d is v = Some (v', True)"
  using assms
proof (induction "is" arbitrary: v A)
  case (Cons i js)
  have i: "i < 512" using Cons.prems(3) by auto
  note w = write_dst [OF Cons.prems(1,2) i, where e = 0]
  obtain A1 where A1: "pt_inv (tbl_set d i 0 v) A1 src" using w(1) unfolding frame_def by blast
  have ne: "src \<noteq> d" using Cons.prems(2) tab.simps(1) [of v src] unfolding outside_def by metis
  have "tbl_get (tbl_set d i 0 v) src x = tbl_get v src x" if "x < 512" for x
    using frame_entry [OF w(1) _ that, of src] root_table [OF Cons.prems(1)] ne by (simp add: cow_leaf_def)
  then have "\<exists>v'. clone_pml4es src d js (tbl_set d i 0 v) = Some (v', True)"
    using Cons.prems(3,4) by (intro Cons.IH [OF A1 frame_outside [OF w(1) Cons.prems(2)]]) (auto simp: subset_eq)
  then show ?case using Cons.prems(4) [of i] by (simp add: Let_def)
qed simp

lemma idle_space_entry: "tbl_get idle_space t j = 0"
  by (rule zero_entry) (simp add: idle_space_def small_heap_def one_frame_def mark_available_page_def list_add_def set_head_def set_page_def boot_state_def)

lemma idle_space_clones: "\<exists>v' c. clone_fill idle_space = Some (v', c, True)"
proof -
  let ?v = idle_space
  have bi: "buddy_inv (phys ?v) {}" using idle_space_inv by (simp add: pt_inv_def)
  have "free_blocks (phys ?v) \<noteq> {}" by (simp add: idle_space_def small_heap_def one_frame_inv)
  then obtain b v1 where new: "vm_alloc_page ?v = Some (v1, frame_addr b)" "fresh_table ?v {} b v1" using alloc_page_cases [OF bi] by blast
  note f = fresh_tableD [OF new(2) bi] and r = root_table [OF idle_space_inv]
  show ?thesis
  proof (rule clone_start [OF idle_space_inv new])
    fix v3 assume v3: "frame (cr3 ?v) (frame_addr b) {} ?v v3" "outside v3 (cr3 ?v) (frame_addr b)"
      "clone_fill ?v = do { (v4, o4) \<leftarrow> clone_pml4es (cr3 ?v) (frame_addr b) [1..<256] v3; Some (v4, frame_addr b, o4) }"
    obtain A3 where A3: "pt_inv v3 A3 (cr3 ?v)" using v3(1) unfolding frame_def by blast
    have "tbl_get v3 (cr3 ?v) x = 0" if "x < 512" for x
      using frame_entry [OF v3(1) _ that, of "cr3 ?v"] r f(2) idle_space_entry by (auto simp: cow_leaf_def)
    then have "\<exists>v'. clone_pml4es (cr3 ?v) (frame_addr b) [1..<256] v3 = Some (v', True)"
      by (intro clone_empty [OF A3 v3(2)]) (auto simp: subset_eq has_zero)
    then show ?thesis using v3(3) by auto
  qed
qed


theorem clone_child_no_user_witness:
  "\<exists>v' c. clone_current_pml4 idle_space = Some (v', c) \<and> (walk v' c 0x8000000000 = None \<or> (\<exists>w. walk v' c 0x8000000000 = Some w \<and> \<not> w_user w))"
proof -
  have "user_half 0x8000000000" by (simp add: user_half_def idx_def drop_bit_eq_div)
  moreover obtain v' c where "clone_current_pml4 idle_space = Some (v', c)" "\<forall>va w. user_half va \<and> walk v' c va = Some w \<longrightarrow> \<not> w_user w"
    using clone_child_no_user [OF idle_space_inv] idle_space_clones by auto
  ultimately show ?thesis by (intro exI [of _ v'] exI [of _ c]) (cases "walk v' c 0x8000000000", auto)
qed

end
