(* ===== verification/CowFault.thy ===== *)
theory CowFault
  imports ForkSpace
begin

text \<open>
  Write faults on shared pages: after the fault handler the faulting process has the page, with its contents, for itself and may
  write it, and nobody else notices.
\<close>

section \<open>Setting a leaf\<close>

lemma rpath_below: "l \<le> 3 \<Longrightarrow> rpath va 0 \<in> below (rpath va l)"
proof -
  assume "l \<le> 3"
  then have "[Suc 0..<4] = [Suc 0..<Suc l] @ [Suc l..<4]" using upt_add_eq_append [of "Suc 0" "Suc l" "3 - l"] by simp
  then have "rpath va 0 = map (\<lambda>k. idx k va) [Suc 0..<Suc l] @ rpath va l" unfolding rpath_def by (simp only: map_append)
  then show ?thesis unfolding below_def by blast
qed

text \<open>Every upper level allows writes.\<close>

definition rw_path :: "vm \<Rightarrow> nat \<Rightarrow> u64 \<Rightarrow> bool" where
  "rw_path v root va \<longleftrightarrow> (\<forall>k t. 1 \<le> k \<longrightarrow> k \<le> 3 \<longrightarrow> tab v root (rpath va k) = Some t \<longrightarrow> has (tbl_get v t (idx k va)) PTE_RW)"

lemma walk_two:
  assumes up: "\<And>k t. 1 \<le> k \<Longrightarrow> k \<le> 3 \<Longrightarrow> tab v root (rpath va k) = Some t \<Longrightarrow> tbl_get v' t (idx k va) = tbl_get v t (idx k va)"
    and pt: "tab v root (rpath va 0) = Some pt"
  shows "tab v root (rpath va l) = Some t \<Longrightarrow> l \<le> 3 \<Longrightarrow>
    \<exists>u' r'. walk_from v l t va u r = walk_from v 0 pt va u' r' \<and> walk_from v' l t va u r = walk_from v' 0 pt va u' r' \<and>
      (rw_path v root va \<longrightarrow> r' = r)"
proof (induction l arbitrary: t u r)
  case 0
  then show ?case using pt by auto
next
  case (Suc l)
  let ?e = "tbl_get v t (idx (Suc l) va)"
  have e: "tbl_get v' t (idx (Suc l) va) = ?e" using up [OF _ _ Suc.prems(1)] Suc.prems(2) by simp
  obtain t' where "tab v root (rpath va l) = Some t'" using below_tab [OF rpath_below [of l va] pt] Suc.prems(2) by auto
  then have c: "has ?e PTE_PRESENT" "\<not> (l = 0 \<and> has ?e PTE_PS)" "tab v root (rpath va l) = Some (entry_addr ?e)"
    using Suc.prems by (auto simp: rpath_simps child_def Let_def split: if_splits)
  have l: "l \<le> 3" using Suc.prems(2) by simp
  have rw: "has ?e PTE_RW" if "rw_path v root va" using that Suc.prems unfolding rw_path_def by auto
  have w: "walk_from x (Suc l) t va u r = walk_from x l (entry_addr ?e) va (u \<and> has ?e PTE_USER) (r \<and> has ?e PTE_RW)"
    if "tbl_get x t (idx (Suc l) va) = ?e" for x using c(1,2) unfolding walk_from_Suc that by auto
  obtain u' r' where "walk_from v l (entry_addr ?e) va (u \<and> has ?e PTE_USER) (r \<and> has ?e PTE_RW) = walk_from v 0 pt va u' r'"
    "walk_from v' l (entry_addr ?e) va (u \<and> has ?e PTE_USER) (r \<and> has ?e PTE_RW) = walk_from v' 0 pt va u' r'"
    "rw_path v root va \<longrightarrow> r' = (r \<and> has ?e PTE_RW)" using Suc.IH [OF c(3) l] by blast
  then show ?case using w [OF refl] w [OF e] rw by (intro exI [of _ u'] exI [of _ r']) simp
qed

lemma put_leaf:
  fixes e :: u64
  assumes inv: "pt_inv v A root" and pt: "tab v root (rpath va 0) = Some pt"
  defines "v' \<equiv> tbl_set pt (idx 0 va) e v"
  shows "pt_inv v' A root" "\<not> same_page va' va \<Longrightarrow> walk v' root va' = walk v root va'" "tbl_get v' pt (idx 0 va) = e"
    "\<exists>u r. walk v root va = walk_from v 0 pt va u r \<and> walk v' root va = walk_from v' 0 pt va u r \<and> (rw_path v root va \<longrightarrow> r)"
proof -
  have al: "x mod 4096 = 0" if "tab v root p = Some x" for p x using pt_inv_table [OF inv that] by (simp add: table_ok_def)
  have g: "tbl_get v' x j = (if x = pt \<and> j = idx 0 va then e else tbl_get v x j)" if "tab v root p = Some x" "j < 512" for p x j
    unfolding v'_def by (rule tbl_get_set [OF al [OF pt] al [OF that(1)] idx_less that(2)])
  have E: "same_entries v root (pt, idx 0 va) v'" unfolding same_entries_def using g by auto
  have len: "length (rpath va 0) = 3" by (simp add: rpath_simps)
  have b: "buddy_inv (phys v') A" "free_frames (phys v') \<subseteq> free_frames (phys v)" using inv by (simp_all add: v'_def pt_inv_def)
  note sl = set_leaf [OF inv pt len E b]
  show "pt_inv v' A root" by (rule sl(1))
  show "\<not> same_page va' va \<Longrightarrow> walk v' root va' = walk v root va'" using sl(2) by (auto simp: same_page_def)
  show "tbl_get v' pt (idx 0 va) = e" using g [OF pt, of "idx 0 va"] by simp
  have up: "tbl_get v' t (idx k va) = tbl_get v t (idx k va)" if k: "1 \<le> k" "k \<le> 3" "tab v root (rpath va k) = Some t" for k t
  proof -
    have "length (rpath va k) \<noteq> length (rpath va 0)" using rpath_simps(3) [OF k(2), of va] len k(1,2) by linarith
    then have "rpath va k \<noteq> rpath va 0" by force
    then have "t \<noteq> pt" using pt_inv_tree [OF inv k(3), of "rpath va 0"] pt by blast
    then show ?thesis using g [OF k(3), of "idx k va"] by simp
  qed
  have root: "tab v root (rpath va 3) = Some root" by (simp add: rpaths)
  obtain u r where "walk v root va = walk_from v 0 pt va u r" "walk v' root va = walk_from v' 0 pt va u r" "rw_path v root va \<longrightarrow> r = True"
    using walk_two [OF up pt root order_refl, of True True] unfolding walk_def by blast
  then show "\<exists>u r. walk v root va = walk_from v 0 pt va u r \<and> walk v' root va = walk_from v' 0 pt va u r \<and> (rw_path v root va \<longrightarrow> r)" by blast
qed

section \<open>Memory outside the tables\<close>

lemma walk_ram: "ram (phys v') = ram (phys v) \<Longrightarrow> walk v' root va = walk v root va"
proof -
  assume "ram (phys v') = ram (phys v)"
  then have t: "tbl_get v' = tbl_get v" by (intro ext) (simp add: tbl_get_def)
  have "walk_from v' l t va u r = walk_from v l t va u r" for l t u r
    by (induction l arbitrary: t u r) (auto simp: t walk_from_Suc)
  then show ?thesis by (simp add: walk_def)
qed

lemma pt_inv_ram: "pt_inv v A root \<Longrightarrow> ram (phys v') = ram (phys v) \<Longrightarrow> buddy_inv (phys v') A' \<Longrightarrow> free_frames (phys v') = free_frames (phys v) \<Longrightarrow> pt_inv v' A' root"
  using tab_ram [of v' v root] by (simp add: pt_inv_def table_ok_def)

lemma pt_inv_phys:
  assumes "pt_inv v A root" "phys v' = phys v"
  shows "pt_inv v' A root"
  using pt_inv_ram [OF assms(1), of v' A] assms by (simp add: pt_inv_def [of v])

lemma frame_walk:
  assumes inv: "pt_inv v A root" and fr: "frame root d {} v v'" and d: "\<And>q. tab v root q \<noteq> Some d"
  shows "walk v' root va = walk v root va"
proof -
  have "tbl_get v' t (idx k va) = tbl_get v t (idx k va)" if "tab v root (rpath va k) = Some t" for k t
  proof -
    have "t mod 4096 = 0" "t \<notin> frame_addr ` free_frames (phys v)" "t \<noteq> d" using pt_inv_table [OF inv that] that d by (auto simp: table_ok_def)
    then show ?thesis using frame_entry [OF fr _ idx_less] by (simp add: cow_leaf_def)
  qed
  then show ?thesis unfolding walk_def by (intro walk_from_same) (simp_all add: rpaths)
qed

lemma page_apart: "p mod 4096 = 0 \<Longrightarrow> q mod 4096 = 0 \<Longrightarrow> p \<noteq> q \<Longrightarrow> disjoint_regions p 4096 q (4096 :: nat)"
proof -
  assume a: "p mod 4096 = 0" "q mod 4096 = 0" "p \<noteq> q"
  have "p div 4096 < q div 4096 \<or> q div 4096 < p div 4096" using a by (metis div_mult_mod_eq linorder_neqE_nat)
  moreover have "p = p div 4096 * 4096" "q = q div 4096 * 4096" using a by auto
  ultimately have "p + 4096 \<le> q \<or> q + 4096 \<le> p" by linarith
  then show ?thesis by (auto simp: disjoint_regions_def)
qed

text \<open>The copy of a page into a fresh frame.\<close>

definition copy_page :: "nat \<Rightarrow> nat \<Rightarrow> vm \<Rightarrow> vm" where
  "copy_page dst src v = set_phys (ram_update (\<lambda>m. fst (memcpy m dst src PAGE_SIZE))) v"

lemma copy_page_ram:
  assumes "d mod 4096 = 0" "p mod 4096 = 0" "d \<noteq> p"
  shows "ram (phys (copy_page d p v)) = (\<lambda>x. if d \<le> x \<and> x < d + 4096 then ram (phys v) (p + (x - d)) else ram (phys v) x)"
  using memcpy_eq [OF page_apart [OF assms], of "ram (phys v)"] by (simp add: copy_page_def PAGE_SIZE_def)

lemma copy_page_frame:
  assumes inv: "pt_inv v A root" and d: "outside v root d" and p: "p mod 4096 = 0" "d \<noteq> p"
  shows "frame root d {} v (copy_page d p v)" "pt_inv (copy_page d p v) A root"
proof -
  have al: "d mod 4096 = 0" using d by (simp add: outside_def)
  note r = copy_page_ram [OF al p, of v]
  have so: "same_outside d 4096 (ram (phys v)) (ram (phys (copy_page d p v)))" unfolding same_outside_def r by auto
  show fr: "frame root d {} v (copy_page d p v)"
  proof (rule frameI [OF inv, of _ A])
    fix t x assume t: "t mod 4096 = 0" "x < (512 :: nat)" "t \<noteq> d"
    then have "tbl_get (copy_page d p v) t x = tbl_get v t x" using tbl_get_frame [OF so al t(1) t(3) t(2)] by simp
    then show "tbl_get (copy_page d p v) t x = (if cow_leaf v root {} t then cow1 (tbl_get v t x) else tbl_get v t x)" by (simp add: cow_leaf_def)
  qed (use inv d in \<open>simp_all add: pt_inv_def outside_def copy_page_def\<close>)
  have "tab (copy_page d p v) root q = tab v root q" for q using fr by (simp add: frame_def)
  then show "pt_inv (copy_page d p v) A root" using inv by (simp add: pt_inv_def table_ok_def copy_page_def)
qed

section \<open>The fault\<close>

lemma cow_fault_leaf:
  assumes inv: "pt_inv v A (cr3 v)" and pt: "tab v (cr3 v) (rpath va 0) = Some pt" and e: "has (tbl_get v pt (idx 0 va)) PTE_PRESENT"
  shows "cow_fault va v =
    (if page_ref_get (entry_addr (tbl_get v pt (idx 0 va))) v \<le> 1
     then Some (invlpg va (tbl_set pt (idx 0 va) (tbl_get v pt (idx 0 va) OR PTE_RW) v)) else cow_copy pt va (tbl_get v pt (idx 0 va)) v)"
proof -
  obtain pd where pd: "tab v (cr3 v) (rpath va 1) = Some pd" "child v 1 pd (idx 1 va) = Some pt"
    using pt rpath_simps(3) [of 1 va] by (auto simp: rpath_simps(2) [of 0] split: bind_splits)
  note c = child_present [of v 0 pd "idx 1 va" pt]
  have "find_pd (cr3 v) va v = Some (Some pd)" using find_pd_eq [OF inv, of va] pd c by simp
  then show ?thesis using c pd(2) pt_inv_virt [OF inv pt] e by (simp add: cow_fault_def Let_def)
qed

text \<open>
  The outcome for the page \<open>p\<close> that the entry named, with \<open>r\<close> references: the process has the page at \<open>p'\<close>, writable, and apart
  from the entry and a new page nothing in memory changes.
\<close>

definition cow_done :: "vm \<Rightarrow> nat \<Rightarrow> u64 \<Rightarrow> nat \<Rightarrow> nat \<Rightarrow> vm \<Rightarrow> nat \<Rightarrow> bool" where
  "cow_done v root va pt p v' p' \<longleftrightarrow>
     (\<exists>w w'. walk v root va = Some w \<and> walk v' root va = Some w' \<and> w_page w = p \<and> w_page w' = p' \<and> w_user w' = w_user w \<and> (rw_path v root va \<longrightarrow> w_rw w')) \<and>
     (\<forall>va'. \<not> same_page va' va \<longrightarrow> walk v' root va' = walk v root va') \<and>
     (\<forall>x < PAGE_SIZE. ram (phys v') (p' + x) = ram (phys v) (p + x)) \<and>
     (\<forall>a. \<not> (pt + 8 * idx 0 va \<le> a \<and> a < pt + 8 * idx 0 va + 8) \<and> \<not> (p' \<le> a \<and> a < p' + PAGE_SIZE) \<longrightarrow> ram (phys v') a = ram (phys v) a) \<and>
     va \<in> set (flushed v')"

lemma or_rw: "has (e OR PTE_RW) PTE_PRESENT = has e PTE_PRESENT" "has (e OR PTE_RW) PTE_USER = has e PTE_USER" "has (e OR PTE_RW) PTE_RW"
  "entry_addr (e OR PTE_RW) = entry_addr e"
proof -
  show "has (e OR PTE_RW) PTE_PRESENT = has e PTE_PRESENT" "has (e OR PTE_RW) PTE_USER = has e PTE_USER" "has (e OR PTE_RW) PTE_RW"
    by (simp_all add: has_bits bit_or_iff bit_consts)
  have "(e OR PTE_RW) AND PTE_ADDR_MASK = e AND PTE_ADDR_MASK" by (rule bit_eqI) (auto simp: bit_and_iff bit_or_iff bit_consts bit_addr_mask)
  then show "entry_addr (e OR PTE_RW) = entry_addr e" by (simp add: entry_addr_def)
qed

lemma store_outside: "\<not> (a \<le> x \<and> x < a + 8) \<Longrightarrow> store64 m a e x = m x"
  by (auto simp: store64_def)

text \<open>The entry is not part of the page it names.\<close>

lemma entry_not_in_page:
  assumes "pt mod 4096 = 0" "p mod 4096 = 0" "pt \<noteq> p" "i < 512" "x < PAGE_SIZE"
  shows "\<not> (pt + 8 * i \<le> p + x \<and> p + x < pt + 8 * i + 8)"
  using page_apart [OF assms(1-3)] assms(4,5) by (auto simp: disjoint_regions_def PAGE_SIZE_def)

lemma cow_single:
  assumes inv: "pt_inv v A root" and pt: "tab v root (rpath va 0) = Some pt" and e: "has (tbl_get v pt (idx 0 va)) PTE_PRESENT"
    and p: "entry_addr (tbl_get v pt (idx 0 va)) = p" "p mod 4096 = 0" "pt \<noteq> p"
  defines "v' \<equiv> invlpg va (tbl_set pt (idx 0 va) (tbl_get v pt (idx 0 va) OR PTE_RW) v)"
  shows "pt_inv v' A root" "cow_done v root va pt p v' p"
proof -
  let ?v = "tbl_set pt (idx 0 va) (tbl_get v pt (idx 0 va) OR PTE_RW) v"
  note pl = put_leaf [OF inv pt, where e = "tbl_get v pt (idx 0 va) OR PTE_RW"]
  have r: "ram (phys v') = ram (phys ?v)" by (simp add: v'_def)
  show "pt_inv v' A root" by (rule pt_inv_ram [OF pl(1) r]) (use pl(1) in \<open>simp_all add: v'_def pt_inv_def\<close>)
  obtain u rr where w: "walk v root va = walk_from v 0 pt va u rr" "walk ?v root va = walk_from ?v 0 pt va u rr" "rw_path v root va \<longrightarrow> rr"
    using pl(4) by blast
  have "\<exists>w w'. walk v root va = Some w \<and> walk v' root va = Some w' \<and> w_page w = p \<and> w_page w' = p \<and> w_user w' = w_user w \<and> (rw_path v root va \<longrightarrow> w_rw w')"
    using w e p(1) unfolding walk_ram [OF r] by (simp add: pl(3) or_rw Let_def)
  moreover have "walk v' root va' = walk v root va'" if "\<not> same_page va' va" for va' using pl(2) [OF that] walk_ram [OF r] by simp
  moreover have o: "ram (phys v') a = ram (phys v) a" if "\<not> (pt + 8 * idx 0 va \<le> a \<and> a < pt + 8 * idx 0 va + 8)" for a
    using store_outside [OF that] by (simp add: r)
  moreover have "ram (phys v') (p + x) = ram (phys v) (p + x)" if "x < PAGE_SIZE" for x
    using pt_inv_table [OF inv pt] entry_not_in_page [OF _ p(2,3) idx_less that] by (intro o) (simp add: table_ok_def)
  moreover have "va \<in> set (flushed v')" by (simp add: v'_def invlpg_def)
  ultimately show "cow_done v root va pt p v' p" unfolding cow_done_def by auto
qed

text \<open>A fresh frame with a copy of the page.\<close>

definition private_copy :: "vm \<Rightarrow> nat \<Rightarrow> nat \<Rightarrow> nat \<Rightarrow> vm \<Rightarrow> bool" where
  "private_copy v root b0 b v' \<longleftrightarrow> (\<exists>A'. pt_inv v' A' root) \<and> (\<forall>va. walk v' root va = walk v root va) \<and> (\<forall>va. rw_path v root va \<longrightarrow> rw_path v' root va) \<and>
     (\<forall>q t. tab v root q = Some t \<longrightarrow> tab v' root q = Some t \<and> (\<forall>j < 512. tbl_get v' t j = tbl_get v t j)) \<and>
     ram (phys v') = (\<lambda>x. if frame_addr b \<le> x \<and> x < frame_addr b + 4096 then ram (phys v) (frame_addr b0 + (x - frame_addr b)) else ram (phys v) x)"

lemma frame_same:
  assumes inv: "pt_inv v A root" and fr: "frame root d {} v v'" and d: "\<And>q. tab v root q \<noteq> Some d"
  shows "rw_path v root va \<Longrightarrow> rw_path v' root va" "tab v root q = Some t \<Longrightarrow> j < 512 \<Longrightarrow> tbl_get v' t j = tbl_get v t j"
proof -
  show e: "tbl_get v' t j = tbl_get v t j" if "tab v root q = Some t" "j < 512" for q t j
  proof -
    have "t mod 4096 = 0" "t \<notin> frame_addr ` free_frames (phys v)" "t \<noteq> d" using pt_inv_table [OF inv that(1)] that(1) d by (auto simp: table_ok_def)
    then show ?thesis using frame_entry [OF fr _ that(2)] by (simp add: cow_leaf_def)
  qed
  have "tab v' root q = tab v root q" for q using fr by (simp add: frame_def)
  then show "rw_path v root va \<Longrightarrow> rw_path v' root va" using e unfolding rw_path_def by simp
qed

lemma frame_not_free: "buddy_inv (phys v) A \<Longrightarrow> (b0, 0) \<in> A \<Longrightarrow> b \<in> free_frames (phys v) \<Longrightarrow> frame_addr b \<noteq> frame_addr b0"
  using used_disjoint_free [of "phys v" A "(b0, 0)"] by (auto simp: frame_inj blk_def)

lemma private_copy_ok:
  assumes inv: "pt_inv v A root" and b0: "(b0, 0) \<in> A" and fr: "fresh_table v A b v1"
  shows "private_copy v root b0 b (set_ref b0 n (copy_page (frame_addr b) (frame_addr b0) v1))"
proof -
  let ?v2 = "copy_page (frame_addr b) (frame_addr b0) v1"
  let ?v3 = "set_ref b0 n ?v2"
  have bi: "buddy_inv (phys v) A" using inv by (simp add: pt_inv_def)
  note f = fresh_tableD [OF fr bi] and ff = fresh_frame [OF inv fr]
  have nt: "tab v root q \<noteq> Some (frame_addr b)" for q using pt_inv_table [OF inv, of q] f(2) by (auto simp: table_ok_def)
  have t1: "tab v1 root q = tab v root q" for q using ff(1) by (simp add: frame_def)
  have ne: "frame_addr b \<noteq> frame_addr b0" by (rule frame_not_free [OF bi b0 f(2)])
  have al: "frame_addr b mod 4096 = 0" "frame_addr b0 mod 4096 = 0" by (simp_all add: frame_addr_def PAGE_SIZE_def)
  note c = copy_page_frame [OF ff(3,2) al(2) ne]
  have nt1: "tab v1 root q \<noteq> Some (frame_addr b)" for q using nt t1 by simp
  have r3: "ram (phys ?v3) = ram (phys ?v2)" by (simp add: set_ref_def) (simp add: set_page_def)
  have "pt_inv ?v3 (insert (b, 0) A) root"
    by (rule pt_inv_ram [OF c(2) r3]) (use c(2) in \<open>simp_all add: set_ref_def pt_inv_def\<close>)
  moreover have "walk ?v3 root va = walk v root va" for va
    using walk_ram [OF r3] frame_walk [OF ff(3) c(1) nt1] frame_walk [OF inv ff(1) nt] by simp
  moreover have t3: "tab ?v3 root q = tab v root q" for q using tab_ram [OF r3] c(1) t1 by (simp add: frame_def)
  moreover have e3: "tbl_get ?v3 t j = tbl_get v t j" if t: "tab v root q = Some t" "j < 512" for q t j
    using frame_same(2) [OF inv ff(1) nt t] frame_same(2) [OF ff(3) c(1) nt1, of q t j] t t1 tbl_get_cong [OF r3] by simp
  moreover have "rw_path ?v3 root va" if "rw_path v root va" for va using that t3 e3 unfolding rw_path_def by simp
  moreover have "ram (phys ?v3) = (\<lambda>x. if frame_addr b \<le> x \<and> x < frame_addr b + 4096 then ram (phys v) (frame_addr b0 + (x - frame_addr b)) else ram (phys v) x)"
  proof -
    obtain s where s: "v1 = set_phys (\<lambda>_. s) v" "ram s = (\<lambda>x. if frame_addr b \<le> x \<and> x < frame_addr b + PAGE_SIZE then 0 else ram (phys v) x)"
      using fr unfolding fresh_table_def by blast
    have i: "ram (phys v1) (frame_addr b0 + y) = ram (phys v) (frame_addr b0 + y)" if "y < 4096" for y
      using page_apart [OF al ne] that by (auto simp: s PAGE_SIZE_def disjoint_regions_def)
    have o: "ram (phys v1) x = ram (phys v) x" if "\<not> (frame_addr b \<le> x \<and> x < frame_addr b + 4096)" for x
      using that by (auto simp: s PAGE_SIZE_def)
    show ?thesis unfolding r3 copy_page_ram [OF al ne]
    proof (intro ext)
      fix x
      show "(if frame_addr b \<le> x \<and> x < frame_addr b + 4096 then ram (phys v1) (frame_addr b0 + (x - frame_addr b)) else ram (phys v1) x) =
          (if frame_addr b \<le> x \<and> x < frame_addr b + 4096 then ram (phys v) (frame_addr b0 + (x - frame_addr b)) else ram (phys v) x)"
        using i [of "x - frame_addr b"] o [of x] by (cases "frame_addr b \<le> x \<and> x < frame_addr b + 4096") auto
    qed
  qed
  ultimately show ?thesis unfolding private_copy_def by auto
qed

definition cow_new_entry :: "u64 \<Rightarrow> nat \<Rightarrow> u64" where
  "cow_new_entry e p = (of_nat p AND PTE_ADDR_MASK) OR ((e AND (PTE_USER OR PTE_NX)) OR PTE_PRESENT OR PTE_RW)"

lemma cow_new_entry:
  assumes "b < BUDDY_MAX_PAGES"
  shows "has (cow_new_entry e (frame_addr b)) PTE_PRESENT" "has (cow_new_entry e (frame_addr b)) PTE_RW"
    "has (cow_new_entry e (frame_addr b)) PTE_USER = has e PTE_USER" "entry_addr (cow_new_entry e (frame_addr b)) = frame_addr b"
proof -
  let ?f = "(e AND (PTE_USER OR PTE_NX)) OR PTE_PRESENT OR PTE_RW"
  have b: "frame_addr b mod 4096 = 0" "frame_addr b < 2 ^ 52" using frame_props [OF assms] by (auto simp: KERNEL_PHYS_MAX_def)
  show "has (cow_new_entry e (frame_addr b)) PTE_PRESENT" "has (cow_new_entry e (frame_addr b)) PTE_RW"
    "has (cow_new_entry e (frame_addr b)) PTE_USER = has e PTE_USER"
    by (auto simp: cow_new_entry_def has_bits bit_or_iff bit_and_iff bit_consts bit_addr_mask)
  have m: "of_nat (frame_addr b) AND PTE_ADDR_MASK = (of_nat (frame_addr b) :: u64)"
  proof -
    have "of_nat (frame_addr b) OR 0 = (of_nat (frame_addr b) :: u64)" by simp
    then have "unat (of_nat (frame_addr b) AND PTE_ADDR_MASK) = frame_addr b" using entry_addr_eq [OF b, of 0] by (simp add: entry_addr_def)
    then show ?thesis by (metis of_nat_unat ucast_id)
  qed
  have "bit ?f n \<Longrightarrow> n < 12 \<or> 52 \<le> n" for n by (auto simp: bit_or_iff bit_and_iff bit_consts)
  then show "entry_addr (cow_new_entry e (frame_addr b)) = frame_addr b" unfolding cow_new_entry_def m by (rule entry_addr_eq [OF b])
qed

lemma cow_install:
  assumes inv: "pt_inv v A root" and pt: "tab v root (rpath va 0) = Some pt" and e: "has (tbl_get v pt (idx 0 va)) PTE_PRESENT"
    and p: "entry_addr (tbl_get v pt (idx 0 va)) = frame_addr b0" and b: "b \<in> free_frames (phys v)" and pc: "private_copy v root b0 b v3"
    and v': "ram (phys v') = ram (phys (tbl_set pt (idx 0 va) (cow_new_entry (tbl_get v pt (idx 0 va)) (frame_addr b)) v3))" "va \<in> set (flushed v')"
  shows "cow_done v root va pt (frame_addr b0) v' (frame_addr b)"
proof -
  let ?e = "tbl_get v pt (idx 0 va)" and ?i = "idx 0 va"
  let ?v = "tbl_set pt ?i (cow_new_entry ?e (frame_addr b)) v3"
  have B: "b < BUDDY_MAX_PAGES" using free_frames_bound b inv unfolding pt_inv_def by blast
  obtain A3 where A3: "pt_inv v3 A3 root" using pc by (auto simp: private_copy_def)
  have s: "walk v3 root x = walk v root x" "rw_path v root va \<Longrightarrow> rw_path v3 root va" "tab v3 root (rpath va 0) = Some pt" "tbl_get v3 pt ?i = ?e" for x
    using pc pt unfolding private_copy_def by (simp_all add: idx_less)
  note pl = put_leaf [OF A3 s(3), where e = "cow_new_entry ?e (frame_addr b)"]
  obtain u rr where w: "walk v3 root va = walk_from v3 0 pt va u rr" "walk ?v root va = walk_from ?v 0 pt va u rr" "rw_path v3 root va \<longrightarrow> rr"
    using pl(4) by blast
  have "\<exists>w w'. walk v root va = Some w \<and> walk v' root va = Some w' \<and> w_page w = frame_addr b0 \<and> w_page w' = frame_addr b \<and>
      w_user w' = w_user w \<and> (rw_path v root va \<longrightarrow> w_rw w')"
    using w s(1) [of va] s(2) e p unfolding walk_ram [OF v'(1)] by (auto simp: s(4) pl(3) cow_new_entry [OF B] Let_def)
  moreover have "walk v' root va' = walk v root va'" if "\<not> same_page va' va" for va' using pl(2) [OF that] walk_ram [OF v'(1)] s(1) by simp
  moreover have o: "ram (phys v') a = ram (phys v3) a" if "\<not> (pt + 8 * ?i \<le> a \<and> a < pt + 8 * ?i + 8)" for a
    using store_outside [OF that] v'(1) by simp
  moreover have r3: "ram (phys v3) = (\<lambda>x. if frame_addr b \<le> x \<and> x < frame_addr b + 4096 then ram (phys v) (frame_addr b0 + (x - frame_addr b)) else ram (phys v) x)"
    using pc by (simp add: private_copy_def)
  moreover have "ram (phys v') (frame_addr b + x) = ram (phys v) (frame_addr b0 + x)" if "x < PAGE_SIZE" for x
  proof -
    have "pt mod 4096 = 0" "pt \<noteq> frame_addr b" using pt_inv_table [OF inv pt] b by (auto simp: table_ok_def)
    then have "\<not> (pt + 8 * ?i \<le> frame_addr b + x \<and> frame_addr b + x < pt + 8 * ?i + 8)"
      using entry_not_in_page [of pt "frame_addr b" ?i x] that frame_props [OF B] by simp
    from o [OF this] show ?thesis using that by (simp add: r3 PAGE_SIZE_def)
  qed
  ultimately show ?thesis using v'(2) unfolding cow_done_def by (auto simp: PAGE_SIZE_def)
qed

abbreviation refs :: "vm \<Rightarrow> nat \<Rightarrow> nat" where
  "refs v q \<equiv> pg_ref_count (page_array (phys v) q)"

lemma fresh_refs:
  assumes fr: "fresh_table v A b v1" and bi: "buddy_inv (phys v) A" and b0: "(b0, 0) \<in> A"
  shows "refs v1 b0 = refs v b0" "refs v1 b = 1" "buddy_inv (phys v1) (insert (b, 0) A)" "b \<noteq> b0"
proof -
  have base: "pfn_to_phys (phys v) b = frame_addr b" using bi by (simp add: buddy_inv_def bounds_ok_def pfn_to_phys_def frame_addr_def)
  obtain s where s: "v1 = set_phys (\<lambda>_. s) v" "alloc_pages 0 (phys v) = Some (s, Some (frame_addr b))" "alloc_success (phys v) A 0 s b"
    using fr unfolding fresh_table_def by blast
  show "refs v1 b0 = refs v b0" using alloc_keeps [OF s(2) bi s(3)] base b0 by (auto simp: s(1))
  show "refs v1 b = 1" using alloc_ref_one [of 0 "phys v" s b A] s(2) bi base by (simp add: s(1))
  show "buddy_inv (phys v1) (insert (b, 0) A)" by (rule fresh_tableD(1) [OF fr bi])
  show "b \<noteq> b0" using frame_not_free [OF bi b0 fresh_tableD(2) [OF fr bi]] by auto
qed

lemma cow_copy_ok:
  assumes inv: "pt_inv v A root" and pt: "tab v root (rpath va 0) = Some pt" and e: "has (tbl_get v pt (idx 0 va)) PTE_PRESENT"
    and p: "entry_addr (tbl_get v pt (idx 0 va)) = frame_addr b0" and b0: "(b0, 0) \<in> A" "2 \<le> refs v b0" "refs v b0 < 2 ^ 32"
  shows "(cow_copy pt va (tbl_get v pt (idx 0 va)) v = Some (send_segv v) \<and> free_blocks (phys v) = {}) \<or>
    (\<exists>v' b A'. cow_copy pt va (tbl_get v pt (idx 0 va)) v = Some v' \<and> pt_inv v' A' root \<and> b \<in> free_frames (phys v) \<and>
      cow_done v root va pt (frame_addr b0) v' (frame_addr b) \<and> refs v' b0 = refs v b0 - 1 \<and> refs v' b = 1)"
proof -
  let ?e = "tbl_get v pt (idx 0 va)"
  have bi: "buddy_inv (phys v) A" using inv by (simp add: pt_inv_def)
  consider (no) "vm_alloc_page v = Some (v, 0)" "free_blocks (phys v) = {}"
    | (ok) b v1 where "vm_alloc_page v = Some (v1, frame_addr b)" "fresh_table v A b v1" using alloc_page_cases [OF bi] by blast
  then show ?thesis
  proof cases
    case no
    then show ?thesis by (simp add: cow_copy_def)
  next
    case ok
    let ?v2 = "copy_page (frame_addr b) (frame_addr b0) v1"
    let ?v3 = "set_ref b0 (refs v b0 - 1) ?v2"
    let ?v4 = "invlpg va (tbl_set pt (idx 0 va) (cow_new_entry ?e (frame_addr b)) ?v3)"
    let ?v' = "?v4\<lparr> hp := perf_inc PERF_COW_COUNT (hp ?v4) \<rparr>"
    note fr = fresh_refs [OF ok(2) bi b0(1)]
    have b: "b \<in> free_frames (phys v)" by (rule fresh_tableD(2) [OF ok(2) bi])
    have nz: "frame_addr b \<noteq> 0" by (simp add: frame_addr_def)
    have r2: "refs ?v2 b0 = refs v b0" using fr(1) by (simp add: copy_page_def)
    have "buddy_inv (phys ?v2) (insert (b, 0) A)" using fr(3) by (simp add: copy_page_def)
    from page_struct_frame [OF this, of b0 0] have g: "get_page_struct (phys ?v2) (frame_addr b0) = Some b0" using b0(1) by simp
    have n: "(refs v b0 + (2 ^ 32 - 1)) mod 2 ^ 32 = refs v b0 - 1"
    proof -
      obtain m where m: "refs v b0 = Suc m" using b0(2) by (cases "refs v b0") auto
      have "Suc m + (2 ^ 32 - 1) = m + 2 ^ 32" by simp
      then have "(Suc m + (2 ^ 32 - 1)) mod 2 ^ 32 = m mod 2 ^ 32" by (simp only: mod_add_self2)
      then show ?thesis using b0(3) m by simp
    qed
    have c: "cow_copy pt va ?e v = Some ?v'"
      using ok(1) nz g r2 n b0(2) p unfolding cow_copy_def copy_page_def [symmetric] by (simp add: Let_def cow_new_entry_def)
    have pc: "private_copy v root b0 b ?v3" by (rule private_copy_ok [OF inv b0(1) ok(2)])
    have ph: "phys ?v' = phys (tbl_set pt (idx 0 va) (cow_new_entry ?e (frame_addr b)) ?v3)" by (simp add: perf_inc_def)
    have "cow_done v root va pt (frame_addr b0) ?v' (frame_addr b)"
      by (rule cow_install [OF inv pt e p b pc]) (use ph in \<open>simp_all add: invlpg_def\<close>)
    moreover have "refs ?v' b0 = refs v b0 - 1" "refs ?v' b = 1"
      using fr(2,4) unfolding ph by (simp_all add: set_ref_def copy_page_def) (simp_all add: set_page_def)
    moreover obtain A3 where A3: "pt_inv ?v3 A3 root" "tab ?v3 root (rpath va 0) = Some pt" using pc pt by (auto simp: private_copy_def)
    have "pt_inv ?v' A3 root" by (rule pt_inv_phys [OF put_leaf(1) [OF A3] ph])
    ultimately show ?thesis using c b by blast
  qed
qed

section \<open>Property\<close>



end
