(* ===== verification/Files.thy ===== *)
theory Files
  imports Prelude
begin

text \<open>
  Open files and descriptor tables: \<open>kernel/file.c\<close>, the reference counting of \<open>kernel/vfs.c\<close>
  (\<open>vfs_open\<close>, \<open>vfs_close\<close>, \<open>vfs_file_dup\<close>) and \<open>kernel/capability.c\<close>.

  The two descriptor systems share one table per task, whose entries are raw pointers; a table entry
  is therefore unused, a \<open>struct file *\<close> or a \<open>struct cap_entry *\<close>. Objects live in partial maps
  from addresses, so using an object after \<open>kfree\<close>, or a capability entry as a file, is the value
  \<^const>\<open>None\<close>. The address \<open>kmalloc\<close> returns is an argument of the operations that allocate. The
  file system's own \<open>close\<close> callback is recorded in \<open>close_log\<close>, the sequence of inodes it was called
  on. Reading the \<open>magic\<close> word distinguishes the two kinds of entries.
\<close>

section \<open>State\<close>

definition MAX_FDS :: nat where "MAX_FDS = 16"

datatype task_state = TASK_RUNNING | TASK_READY | TASK_BLOCKED | TASK_ZOMBIE | TASK_DEAD

datatype slot = Unused | File_ptr nat | Cap_ptr nat

record open_file =
  f_inode :: "nat option"
  f_offset :: int
  f_flags :: int
  f_refcount :: int

record cap_entry =
  ce_file :: nat
  ce_caps :: u32

record fstate =
  fd_table :: "nat \<Rightarrow> slot list"
  files :: "nat \<rightharpoonup> open_file"
  cap_entries :: "nat \<rightharpoonup> cap_entry"
  inode_dentry :: "nat \<rightharpoonup> nat"
  dentry_refs :: "nat \<Rightarrow> int"
  close_log :: "nat list"

definition set_slot :: "nat \<Rightarrow> nat \<Rightarrow> slot \<Rightarrow> fstate \<Rightarrow> fstate" where
  "set_slot t i v s = s\<lparr> fd_table := (fd_table s)(t := (fd_table s t)[i := v]) \<rparr>"

section \<open>Open file descriptions\<close>

text \<open>\<open>vfs_open\<close> from the inode the path lookup found; the last argument is whether the file system's
  \<open>open\<close> callback succeeds.\<close>

definition vfs_open :: "nat option \<Rightarrow> int \<Rightarrow> nat option \<Rightarrow> bool \<Rightarrow> fstate \<Rightarrow> fstate \<times> nat option" where
  "vfs_open inode flags mem open_ok s =
     (case (inode, mem) of
        (Some i, Some p) \<Rightarrow>
          if \<not> open_ok then (s, None)
          else let s1 = s\<lparr> files := (files s)(p \<mapsto>
                     \<lparr> f_inode = Some i, f_offset = 0, f_flags = flags, f_refcount = 1 \<rparr>) \<rparr>
               in (case inode_dentry s i of
                     None \<Rightarrow> s1
                   | Some d \<Rightarrow> s1\<lparr> dentry_refs := (dentry_refs s1)(d := dentry_refs s1 d + 1) \<rparr>, Some p)
      | _ \<Rightarrow> (s, None))"

definition set_refcount :: "nat \<Rightarrow> int \<Rightarrow> fstate \<Rightarrow> fstate" where
  "set_refcount p n s = s\<lparr> files := (files s)(p := map_option (f_refcount_update (\<lambda>_. n)) (files s p)) \<rparr>"

definition vfs_release :: "nat \<Rightarrow> open_file \<Rightarrow> fstate \<Rightarrow> fstate" where
  "vfs_release p f s =
     (let s1 = (case f_inode f of
                  None \<Rightarrow> s
                | Some i \<Rightarrow>
                    let s2 = s\<lparr> close_log := close_log s @ [i] \<rparr>
                    in case inode_dentry s2 i of
                         None \<Rightarrow> s2
                       | Some d \<Rightarrow> if dentry_refs s2 d > 0
                                   then s2\<lparr> dentry_refs := (dentry_refs s2)(d := dentry_refs s2 d - 1) \<rparr>
                                   else s2)
      in s1\<lparr> files := (files s1)(p := None) \<rparr>)"

definition vfs_close :: "nat \<Rightarrow> fstate \<Rightarrow> (fstate \<times> int) option" where
  "vfs_close p s =
     (case files s p of
        None \<Rightarrow> None
      | Some f \<Rightarrow>
          if f_refcount f \<le> 0 then Some (s, - 1)
          else let n = f_refcount f - 1
               in if n > 0 then Some (set_refcount p n s, 0)
                  else Some (vfs_release p f (set_refcount p n s), 0))"

definition vfs_file_dup :: "nat \<Rightarrow> fstate \<Rightarrow> (fstate \<times> int) option" where
  "vfs_file_dup p s =
     (case files s p of
        None \<Rightarrow> None
      | Some f \<Rightarrow> if f_refcount f \<le> 0 then Some (s, - 1)
                  else Some (set_refcount p (f_refcount f + 1) s, 0))"

section \<open>Descriptor tables\<close>

definition fd_table_init :: "nat \<Rightarrow> fstate \<Rightarrow> fstate" where
  "fd_table_init t s = s\<lparr> fd_table := (fd_table s)(t := replicate MAX_FDS Unused) \<rparr>"

text \<open>The first unused index of a table, if any.\<close>

fun free_slot :: "slot list \<Rightarrow> nat option" where
  "free_slot [] = None"
| "free_slot (v # vs) = (if v = Unused then Some 0 else map_option Suc (free_slot vs))"

definition slot_alloc :: "nat \<Rightarrow> slot \<Rightarrow> fstate \<Rightarrow> fstate \<times> int" where
  "slot_alloc t v s = (case free_slot (fd_table s t) of None \<Rightarrow> (s, - 1) | Some i \<Rightarrow> (set_slot t i v s, int i))"

definition fd_alloc :: "nat option \<Rightarrow> nat option \<Rightarrow> fstate \<Rightarrow> fstate \<times> int" where
  "fd_alloc t filp s = (case (t, filp) of (Some t', Some p) \<Rightarrow> slot_alloc t' (File_ptr p) s | _ \<Rightarrow> (s, - 1))"

definition fd_slot :: "nat option \<Rightarrow> int \<Rightarrow> fstate \<Rightarrow> slot" where
  "fd_slot t fd s = (case t of None \<Rightarrow> Unused
     | Some t' \<Rightarrow> if fd < 0 \<or> fd \<ge> int MAX_FDS then Unused else fd_table s t' ! nat fd)"

text \<open>\<open>fd_get\<close> returns the entry as a file pointer; a capability entry is not one.\<close>

definition fd_get :: "nat option \<Rightarrow> int \<Rightarrow> fstate \<Rightarrow> nat option option" where
  "fd_get t fd s = (case fd_slot t fd s of Unused \<Rightarrow> Some None | File_ptr p \<Rightarrow> Some (Some p) | Cap_ptr _ \<Rightarrow> None)"

definition fd_close :: "nat option \<Rightarrow> int \<Rightarrow> fstate \<Rightarrow> (fstate \<times> int) option" where
  "fd_close t fd s = do {
     f \<leftarrow> fd_get t fd s;
     case f of
       None \<Rightarrow> Some (s, - 1)
     | Some p \<Rightarrow> do { (s', _) \<leftarrow> vfs_close p s; Some (set_slot (the t) (nat fd) Unused s', 0) } }"

definition fd_open_path :: "nat option \<Rightarrow> nat option \<Rightarrow> nat option \<Rightarrow> bool \<Rightarrow> fstate \<Rightarrow> (fstate \<times> int) option" where
  "fd_open_path t inode mem open_ok s =
     (let (s1, f) = vfs_open inode 0 mem open_ok s
      in case f of
           None \<Rightarrow> Some (s1, - 1)
         | Some p \<Rightarrow>
             let (s2, fd) = fd_alloc t (Some p) s1
             in if fd < 0 then do { (s3, _) \<leftarrow> vfs_close p s2; Some (s3, - 1) } else Some (s2, fd))"

primrec close_slots :: "nat \<Rightarrow> nat \<Rightarrow> nat \<Rightarrow> fstate \<Rightarrow> fstate option" where
  "close_slots t i 0 s = Some s"
| "close_slots t i (Suc n) s =
     (case fd_table s t ! i of
        Unused \<Rightarrow> close_slots t (Suc i) n s
      | File_ptr p \<Rightarrow> do { (s', _) \<leftarrow> vfs_close p s; close_slots t (Suc i) n (set_slot t i Unused s') }
      | Cap_ptr _ \<Rightarrow> None)"

definition fd_close_all :: "nat option \<Rightarrow> fstate \<Rightarrow> fstate option" where
  "fd_close_all t s = (case t of None \<Rightarrow> Some s | Some t' \<Rightarrow> close_slots t' 0 MAX_FDS s)"

definition fd_dup :: "nat option \<Rightarrow> int \<Rightarrow> fstate \<Rightarrow> (fstate \<times> int) option" where
  "fd_dup t oldfd s =
     (if t = None then Some (s, - 1)
      else do {
        f \<leftarrow> fd_get t oldfd s;
        case f of
          None \<Rightarrow> Some (s, - 1)
        | Some p \<Rightarrow> do {
            (s1, _) \<leftarrow> vfs_file_dup p s;
            (let (s2, newfd) = fd_alloc t (Some p) s1
             in if newfd < 0 then do { (s3, _) \<leftarrow> vfs_close p s2; Some (s3, newfd) } else Some (s2, newfd)) } })"

definition fd_dup2 :: "nat option \<Rightarrow> int \<Rightarrow> int \<Rightarrow> fstate \<Rightarrow> (fstate \<times> int) option" where
  "fd_dup2 t oldfd newfd s =
     (if t = None then Some (s, - 1)
      else if oldfd < 0 \<or> oldfd \<ge> int MAX_FDS then Some (s, - 1)
      else if newfd < 0 \<or> newfd \<ge> int MAX_FDS then Some (s, - 1)
      else if oldfd = newfd then Some (s, newfd)
      else do {
        f \<leftarrow> fd_get t oldfd s;
        case f of
          None \<Rightarrow> Some (s, - 1)
        | Some p \<Rightarrow> do {
            (s1, _) \<leftarrow> (if fd_slot t newfd s \<noteq> Unused then fd_close t newfd s else Some (s, 0));
            (s2, _) \<leftarrow> vfs_file_dup p s1;
            Some (set_slot (the t) (nat newfd) (File_ptr p) s2, newfd) } })"

section \<open>Capability entries\<close>

definition CAP_SEND :: u32 where "CAP_SEND = 8"

definition cap_fd_alloc :: "nat option \<Rightarrow> nat option \<Rightarrow> u32 \<Rightarrow> nat option \<Rightarrow> fstate \<Rightarrow> fstate \<times> int" where
  "cap_fd_alloc t filp caps mem s =
     (case (t, filp, mem) of
        (Some t', Some p, Some e) \<Rightarrow>
          (case free_slot (fd_table s t') of
             Some i \<Rightarrow> (set_slot t' i (Cap_ptr e) (s\<lparr> cap_entries := (cap_entries s)(e \<mapsto> \<lparr> ce_file = p, ce_caps = caps \<rparr>) \<rparr>),
                        int i)
           | None \<Rightarrow> (s\<lparr> cap_entries := (cap_entries s)(e := None) \<rparr>, - 1))
      | _ \<Rightarrow> (s, - 1))"

text \<open>\<open>cap_get\<close>: NULL for an unused entry and, by the magic word, for a file pointer. A dangling entry
  is undefined behaviour.\<close>

definition cap_get :: "nat option \<Rightarrow> int \<Rightarrow> fstate \<Rightarrow> (nat \<times> cap_entry) option option" where
  "cap_get t fd s = (case fd_slot t fd s of
     Cap_ptr e \<Rightarrow> map_option (\<lambda>c. Some (e, c)) (cap_entries s e)
   | _ \<Rightarrow> Some None)"

definition cap_fd_get_file :: "nat option \<Rightarrow> int \<Rightarrow> fstate \<Rightarrow> nat option option" where
  "cap_fd_get_file t fd s = map_option (map_option (\<lambda>(e, c). ce_file c)) (cap_get t fd s)"

definition cap_fd_close :: "nat option \<Rightarrow> int \<Rightarrow> fstate \<Rightarrow> (fstate \<times> int) option" where
  "cap_fd_close t fd s = do {
     g \<leftarrow> cap_get t fd s;
     case g of
       None \<Rightarrow> Some (s, - 1)
     | Some (e, c) \<Rightarrow> do {
         (s', _) \<leftarrow> vfs_close (ce_file c) s;
         Some (set_slot (the t) (nat fd) Unused (s'\<lparr> cap_entries := (cap_entries s')(e := None) \<rparr>), 0) } }"

primrec cap_close_slots :: "nat \<Rightarrow> nat \<Rightarrow> nat \<Rightarrow> fstate \<Rightarrow> fstate option" where
  "cap_close_slots t i 0 s = Some s"
| "cap_close_slots t i (Suc n) s =
     (case fd_table s t ! i of
        Cap_ptr e \<Rightarrow>
          (case cap_entries s e of
             None \<Rightarrow> None
           | Some c \<Rightarrow> do {
               (s', _) \<leftarrow> vfs_close (ce_file c) (set_slot t i Unused s);
               cap_close_slots t (Suc i) n (s'\<lparr> cap_entries := (cap_entries s')(e := None) \<rparr>) })
      | _ \<Rightarrow> cap_close_slots t (Suc i) n s)"

definition cap_fd_close_all :: "nat option \<Rightarrow> fstate \<Rightarrow> fstate option" where
  "cap_fd_close_all t s = (case t of None \<Rightarrow> Some s | Some t' \<Rightarrow> cap_close_slots t' 0 MAX_FDS s)"

definition fd_check_cap :: "nat option \<Rightarrow> int \<Rightarrow> u32 \<Rightarrow> fstate \<Rightarrow> int option" where
  "fd_check_cap cur fd required s = do {
     g \<leftarrow> cap_get cur fd s;
     Some (case g of None \<Rightarrow> - 1 | Some (e, c) \<Rightarrow> if ce_caps c AND required \<noteq> required then - 1 else 0) }"

definition fd_derive :: "nat option \<Rightarrow> int \<Rightarrow> u32 \<Rightarrow> nat option \<Rightarrow> fstate \<Rightarrow> (fstate \<times> int) option" where
  "fd_derive cur old_fd new_caps mem s = do {
     g \<leftarrow> cap_get cur old_fd s;
     case g of
       None \<Rightarrow> Some (s, - 1)
     | Some (e, c) \<Rightarrow>
         if new_caps AND NOT (ce_caps c) \<noteq> 0 then Some (s, - 1)
         else do { (s1, _) \<leftarrow> vfs_file_dup (ce_file c) s;
                   Some (cap_fd_alloc cur (Some (ce_file c)) new_caps mem s1) } }"

text \<open>The target is the task \<open>find_task_by_pid\<close> returns for the given pid.\<close>

definition fd_send :: "nat option \<Rightarrow> int \<Rightarrow> nat option \<Rightarrow> nat option \<Rightarrow> fstate \<Rightarrow> (fstate \<times> int) option" where
  "fd_send cur fd target mem s = do {
     g \<leftarrow> cap_get cur fd s;
     case g of
       None \<Rightarrow> Some (s, - 1)
     | Some (e, c) \<Rightarrow>
         if ce_caps c AND CAP_SEND = 0 then Some (s, - 1)
         else case target of
                None \<Rightarrow> Some (s, - 1)
              | Some _ \<Rightarrow>
                  let (s1, new_fd) = cap_fd_alloc target (Some (ce_file c)) (ce_caps c) mem s
                  in if new_fd < 0 then Some (s1, - 1)
                     else Some (set_slot (the cur) (nat fd) Unused (s1\<lparr> cap_entries := (cap_entries s1)(e := None) \<rparr>), 0) }"

section \<open>The reference counting invariant\<close>

definition points :: "fstate \<Rightarrow> slot \<Rightarrow> nat option" where
  "points s v = (case v of Unused \<Rightarrow> None | File_ptr p \<Rightarrow> Some p | Cap_ptr e \<Rightarrow> map_option ce_file (cap_entries s e))"

definition refs :: "fstate \<Rightarrow> nat \<Rightarrow> (nat \<times> nat) set" where
  "refs s p = {(t, i). i < MAX_FDS \<and> points s (fd_table s t ! i) = Some p}"

definition tables_ok :: "fstate \<Rightarrow> bool" where
  "tables_ok s \<longleftrightarrow> (\<forall>t. length (fd_table s t) = MAX_FDS)"

text \<open>Every capability entry in a table is live and is in one table entry only.\<close>

definition caps_ok :: "fstate \<Rightarrow> bool" where
  "caps_ok s \<longleftrightarrow> (\<forall>t i e. i < MAX_FDS \<longrightarrow> fd_table s t ! i = Cap_ptr e \<longrightarrow> cap_entries s e \<noteq> None \<and>
     (\<forall>t' i'. i' < MAX_FDS \<longrightarrow> fd_table s t' ! i' = Cap_ptr e \<longrightarrow> t' = t \<and> i' = i))"

definition file_ok :: "fstate \<Rightarrow> nat \<Rightarrow> bool" where
  "file_ok s p \<longleftrightarrow> (case files s p of
     None \<Rightarrow> refs s p = {}
   | Some f \<Rightarrow> finite (refs s p) \<and> refs s p \<noteq> {} \<and> f_refcount f = int (card (refs s p)))"

definition file_inv :: "fstate \<Rightarrow> bool" where
  "file_inv s \<longleftrightarrow> tables_ok s \<and> caps_ok s \<and> (\<forall>p. file_ok s p)"

section \<open>Lemmas\<close>

lemma set_slot_fields [simp]:
  "files (set_slot t i v s) = files s" "cap_entries (set_slot t i v s) = cap_entries s"
  "close_log (set_slot t i v s) = close_log s" "points (set_slot t i v s) = points s"
  by (simp_all add: set_slot_def points_def fun_eq_iff split: slot.split)

lemma set_slot_tables: "tables_ok s \<Longrightarrow> tables_ok (set_slot t i v s)"
  by (simp add: tables_ok_def set_slot_def)

lemma slot_set_slot:
  "tables_ok s \<Longrightarrow> i < MAX_FDS \<Longrightarrow>
    fd_table (set_slot t i v s) t' ! j = (if t' = t \<and> j = i then v else fd_table s t' ! j)"
  by (simp add: tables_ok_def set_slot_def nth_list_update)

lemma refs_set_slot:
  assumes "tables_ok s" "i < MAX_FDS"
  shows "refs (set_slot t i v s) p = (if points s v = Some p then insert (t, i) (refs s p) else refs s p - {(t, i)})"
  using assms(2) by (auto simp: refs_def slot_set_slot [OF assms] split: if_splits)

lemma caps_set_slot:
  assumes "caps_ok s" "tables_ok s" "i < MAX_FDS" "\<And>e. v \<noteq> Cap_ptr e"
  shows "caps_ok (set_slot t i v s)"
  using assms(1,4) by (auto simp: caps_ok_def slot_set_slot [OF assms(2,3)] split: if_splits)

lemma free_slot_Some:
  "free_slot vs = Some i \<Longrightarrow> i < length vs \<and> vs ! i = Unused \<and> (\<forall>j < i. vs ! j \<noteq> Unused)"
proof (induction vs arbitrary: i)
  case (Cons v vs)
  then show ?case by (auto simp: nth_Cons less_Suc_eq_0_disj split: if_splits nat.splits)
qed simp

lemma free_slot_None: "free_slot vs = None \<longleftrightarrow> Unused \<notin> set vs"
  by (induction vs) auto

text \<open>A file operation that keeps the tables and touches one file only.\<close>

definition same_tables :: "fstate \<Rightarrow> fstate \<Rightarrow> bool" where
  "same_tables s s' \<longleftrightarrow> fd_table s' = fd_table s \<and> cap_entries s' = cap_entries s"

lemma points_cong: "cap_entries s' = cap_entries s \<Longrightarrow> points s' = points s"
  by (simp add: points_def fun_eq_iff split: slot.split)

lemma same_tables_refs: "same_tables s s' \<Longrightarrow> refs s' p = refs s p"
  using points_cong [of s' s] by (simp add: same_tables_def refs_def)

lemma same_tables_ok: "same_tables s s' \<Longrightarrow> tables_ok s' = tables_ok s \<and> caps_ok s' = caps_ok s"
  by (simp add: same_tables_def tables_ok_def caps_ok_def)

lemma same_tables_slot: "same_tables s s' \<Longrightarrow> fd_slot t fd s' = fd_slot t fd s"
  by (simp add: same_tables_def fd_slot_def split: option.splits)

lemma vfs_close_live:
  assumes "files s p = Some f" "f_refcount f > 0"
  shows "\<exists>s'. vfs_close p s = Some (s', 0) \<and> same_tables s s' \<and>
    files s' = (files s)(p := if f_refcount f = 1 then None else Some (f\<lparr> f_refcount := f_refcount f - 1 \<rparr>)) \<and>
    close_log s' = close_log s @ (if f_refcount f = 1 then (case f_inode f of None \<Rightarrow> [] | Some i \<Rightarrow> [i]) else [])"
  using assms
  by (auto simp: vfs_close_def Let_def same_tables_def set_refcount_def vfs_release_def fun_eq_iff split: option.splits)

lemma vfs_file_dup_live:
  assumes "files s p = Some f" "f_refcount f > 0"
  shows "\<exists>s'. vfs_file_dup p s = Some (s', 0) \<and> same_tables s s' \<and> close_log s' = close_log s \<and>
    files s' = (files s)(p := Some (f\<lparr> f_refcount := f_refcount f + 1 \<rparr>))"
  using assms by (auto simp: vfs_file_dup_def same_tables_def set_refcount_def)

lemma file_inv_live:
  assumes "file_inv s" "(t, i) \<in> refs s p"
  shows "\<exists>f. files s p = Some f \<and> f_refcount f = int (card (refs s p)) \<and> f_refcount f > 0 \<and> finite (refs s p)"
proof -
  have "file_ok s p" using assms(1) by (simp add: file_inv_def)
  then show ?thesis using assms(2) by (auto simp: file_ok_def card_gt_0_iff split: option.splits)
qed

text \<open>Giving up one table entry: the close and the clearing of the entry keep the invariant.\<close>

lemma drop_ref:
  assumes inv: "file_inv s" and p: "(t, i) \<in> refs s p"
  shows "\<exists>s'. vfs_close p s = Some (s', 0) \<and> file_inv (set_slot t i Unused s') \<and> same_tables s s' \<and>
    (refs s p = {(t, i)} \<longrightarrow> files s' p = None) \<and>
    close_log s' = close_log s @ (if refs s p = {(t, i)} then (case f_inode (the (files s p)) of None \<Rightarrow> [] | Some j \<Rightarrow> [j]) else [])"
proof -
  obtain f where f: "files s p = Some f" "f_refcount f = int (card (refs s p))" "f_refcount f > 0" "finite (refs s p)"
    using file_inv_live [OF assms] by blast
  have one: "f_refcount f = 1 \<longleftrightarrow> refs s p = {(t, i)}" using f(2) p by (auto simp: card_1_singleton_iff)
  obtain s' where s': "vfs_close p s = Some (s', 0)" "same_tables s s'"
      "files s' = (files s)(p := if f_refcount f = 1 then None else Some (f\<lparr> f_refcount := f_refcount f - 1 \<rparr>))"
      "close_log s' = close_log s @ (if f_refcount f = 1 then (case f_inode f of None \<Rightarrow> [] | Some i \<Rightarrow> [i]) else [])"
    using vfs_close_live [OF f(1,3)] by blast
  have ok: "tables_ok s'" "caps_ok s'" using inv same_tables_ok [OF s'(2)] by (simp_all add: file_inv_def)
  have i: "i < MAX_FDS" using p by (simp add: refs_def)
  let ?u = "set_slot t i Unused s'"
  have r: "refs ?u q = refs s q - {(t, i)}" for q
    using refs_set_slot [OF ok(1) i] same_tables_refs [OF s'(2)] by (simp add: points_def)
  have "file_ok ?u q" for q
  proof (cases "q = p")
    case True
    have "card (refs s p - {(t, i)}) = card (refs s p) - 1" using p f(4) by simp
    moreover have "card (refs s p) > 0" using p f(4) by (auto simp: card_gt_0_iff)
    ultimately show ?thesis
      using True f one s'(3) p by (auto simp: file_ok_def r of_nat_diff)
  next
    case False
    have "(t, i) \<notin> refs s q" using p False by (auto simp: refs_def)
    moreover have "file_ok s q" using inv by (simp add: file_inv_def)
    ultimately show ?thesis using False s'(3) by (simp add: file_ok_def r split: option.splits)
  qed
  then have "file_inv ?u" using set_slot_tables [OF ok(1)] caps_set_slot [OF ok(2,1)] i by (simp add: file_inv_def)
  with s' one f(1) show ?thesis by auto
qed

text \<open>Taking one more reference in an unused entry.\<close>

lemma add_ref:
  assumes inv: "file_inv s" and f: "files s p = Some f"
    and s': "same_tables s s'" "files s' = (files s)(p := Some (f\<lparr> f_refcount := f_refcount f + 1 \<rparr>))"
    and i: "i < MAX_FDS" "fd_table s t ! i = Unused"
  shows "file_inv (set_slot t i (File_ptr p) s')"
proof -
  have ok: "tables_ok s'" "caps_ok s'" using inv same_tables_ok [OF s'(1)] by (simp_all add: file_inv_def)
  let ?u = "set_slot t i (File_ptr p) s'"
  have new: "(t, i) \<notin> refs s q" for q using i by (simp add: refs_def points_def)
  have r: "refs ?u q = (if q = p then insert (t, i) (refs s q) else refs s q)" for q
    using refs_set_slot [OF ok(1) i(1)] same_tables_refs [OF s'(1)] new by (auto simp: points_def)
  have "file_ok ?u q" for q
  proof -
    have "file_ok s q" using inv by (simp add: file_inv_def)
    then show ?thesis using f s'(2) new [of q] by (cases "q = p") (simp_all add: file_ok_def r split: option.splits)
  qed
  then show ?thesis using set_slot_tables [OF ok(1)] caps_set_slot [OF ok(2,1)] i by (simp add: file_inv_def)
qed

text \<open>A new file in an unused entry, from a state in which its address is not in use.\<close>

lemma new_ref:
  assumes inv: "file_inv s" and fresh: "files s p = None"
    and s': "same_tables s s'" "files s' = (files s)(p \<mapsto> f)" "f_refcount f = 1"
    and i: "i < MAX_FDS" "fd_table s t ! i = Unused"
  shows "file_inv (set_slot t i (File_ptr p) s')"
proof -
  have ok: "tables_ok s'" "caps_ok s'" using inv same_tables_ok [OF s'(1)] by (simp_all add: file_inv_def)
  let ?u = "set_slot t i (File_ptr p) s'"
  have new: "(t, i) \<notin> refs s q" for q using i by (simp add: refs_def points_def)
  have r: "refs ?u q = (if q = p then insert (t, i) (refs s q) else refs s q)" for q
    using refs_set_slot [OF ok(1) i(1)] same_tables_refs [OF s'(1)] new by (auto simp: points_def)
  have "file_ok ?u q" for q
  proof -
    have "file_ok s q" using inv by (simp add: file_inv_def)
    then show ?thesis using fresh s'(2,3) new [of q] by (cases "q = p") (simp_all add: file_ok_def r split: option.splits)
  qed
  then show ?thesis using set_slot_tables [OF ok(1)] caps_set_slot [OF ok(2,1)] i by (simp add: file_inv_def)
qed

lemma same_files_inv:
  assumes "file_inv s" "same_tables s s'" "files s' = files s"
  shows "file_inv s'"
proof -
  have "file_ok s' = file_ok s"
    using assms(3) same_tables_refs [OF assms(2)] by (simp add: file_ok_def fun_eq_iff split: option.split)
  then show ?thesis using assms(1) same_tables_ok [OF assms(2)] by (simp add: file_inv_def)
qed

text \<open>The tables of the tasks that use the file layer only.\<close>

definition plain :: "fstate \<Rightarrow> bool" where
  "plain s \<longleftrightarrow> (\<forall>t i e. i < MAX_FDS \<longrightarrow> fd_table s t ! i \<noteq> Cap_ptr e)"

lemma plain_set_slot:
  "plain s \<Longrightarrow> tables_ok s \<Longrightarrow> i < MAX_FDS \<Longrightarrow> (\<And>e. v \<noteq> Cap_ptr e) \<Longrightarrow> plain (set_slot t i v s)"
  by (simp add: plain_def slot_set_slot)

lemma plain_same: "same_tables s s' \<Longrightarrow> plain s' = plain s"
  by (simp add: plain_def same_tables_def)

definition fd_inv :: "fstate \<Rightarrow> bool" where
  "fd_inv s \<longleftrightarrow> file_inv s \<and> plain s"

lemma fd_inv_drop:
  assumes inv: "fd_inv s" and p: "(t, i) \<in> refs s p"
  shows "\<exists>s'. vfs_close p s = Some (s', 0) \<and> fd_inv (set_slot t i Unused s') \<and> same_tables s s' \<and>
    (refs s p = {(t, i)} \<longrightarrow> files s' p = None) \<and>
    close_log s' = close_log s @ (if refs s p = {(t, i)} then (case f_inode (the (files s p)) of None \<Rightarrow> [] | Some j \<Rightarrow> [j]) else [])"
proof -
  have i: "i < MAX_FDS" using p by (simp add: refs_def)
  have f: "file_inv s" "plain s" using inv by (simp_all add: fd_inv_def)
  have "tables_ok s" using f(1) by (simp add: file_inv_def)
  then have "plain (set_slot t i Unused s')" if "same_tables s s'" for s'
    using plain_set_slot [of s'] plain_same [OF that] same_tables_ok [OF that] f(2) i by simp
  with drop_ref [OF f(1) p] show ?thesis unfolding fd_inv_def by blast
qed

lemma fd_slot_ref:
  assumes "fd_slot t fd s = File_ptr p"
  shows "\<exists>t'. t = Some t' \<and> 0 \<le> fd \<and> nat fd < MAX_FDS \<and> fd_table s t' ! nat fd = File_ptr p \<and> (t', nat fd) \<in> refs s p"
  using assms by (auto simp: fd_slot_def refs_def points_def split: option.splits if_splits)

lemma fd_slot_plain: "plain s \<Longrightarrow> fd_slot t fd s \<noteq> Cap_ptr e"
  by (auto simp: plain_def fd_slot_def split: option.splits)

lemma fd_get_plain:
  "plain s \<Longrightarrow> fd_get t fd s = Some (case fd_slot t fd s of File_ptr p \<Rightarrow> Some p | _ \<Rightarrow> None)"
  using fd_slot_plain [of s t fd] by (simp add: fd_get_def split: slot.split)

lemma fd_close_ok:
  assumes "fd_inv s"
  shows "\<exists>s' r. fd_close t fd s = Some (s', r) \<and> fd_inv s' \<and>
    (case fd_slot t fd s of
       File_ptr p \<Rightarrow> r = 0 \<and> s' = set_slot (the t) (nat fd) Unused (fst (the (vfs_close p s)))
     | _ \<Rightarrow> r = - 1 \<and> s' = s)"
proof (cases "fd_slot t fd s")
  case (File_ptr p)
  then obtain t' where t: "t = Some t'" "(t', nat fd) \<in> refs s p" using fd_slot_ref by blast
  from fd_inv_drop [OF assms t(2)] show ?thesis
    using t assms File_ptr fd_get_plain [of s] by (auto simp: fd_close_def fd_inv_def)
qed (use assms fd_get_plain [of s] fd_slot_plain [of s] in \<open>auto simp: fd_close_def fd_inv_def\<close>)

lemma close_slots_ok:
  assumes "fd_inv s" "i + n \<le> MAX_FDS"
  shows "\<exists>s'. close_slots t i n s = Some s' \<and> fd_inv s' \<and>
    (\<forall>j. i \<le> j \<and> j < i + n \<longrightarrow> fd_table s' t ! j = Unused) \<and>
    (\<forall>t' j. t' \<noteq> t \<or> j < i \<longrightarrow> fd_table s' t' ! j = fd_table s t' ! j)"
  using assms
proof (induction n arbitrary: i s)
  case (Suc n)
  have i: "i < MAX_FDS" using Suc.prems by simp
  show ?case
  proof (cases "fd_table s t ! i")
    case Unused
    obtain s' where "close_slots t (Suc i) n s = Some s'" "fd_inv s'"
        "\<forall>j. i < j \<and> j < Suc (i + n) \<longrightarrow> fd_table s' t ! j = Unused"
        "\<forall>t' j. t' \<noteq> t \<or> j < Suc i \<longrightarrow> fd_table s' t' ! j = fd_table s t' ! j"
      using Suc.IH [of s "Suc i"] Suc.prems by (auto simp: Suc_le_eq)
    then show ?thesis using Unused by (auto simp: le_eq_less_or_eq)
  next
    case (File_ptr p)
    have "(t, i) \<in> refs s p" using File_ptr i by (simp add: refs_def points_def)
    then obtain u where u: "vfs_close p s = Some (u, 0)" "fd_inv (set_slot t i Unused u)" "same_tables s u"
      using fd_inv_drop [OF Suc.prems(1)] by blast
    have ok: "tables_ok u" using Suc.prems(1) same_tables_ok [OF u(3)] by (simp add: fd_inv_def file_inv_def)
    obtain s' where "close_slots t (Suc i) n (set_slot t i Unused u) = Some s'" "fd_inv s'"
        "\<forall>j. i < j \<and> j < Suc (i + n) \<longrightarrow> fd_table s' t ! j = Unused"
        "\<forall>t' j. t' \<noteq> t \<or> j < Suc i \<longrightarrow> fd_table s' t' ! j = fd_table (set_slot t i Unused u) t' ! j"
      using Suc.IH [OF u(2), of "Suc i"] Suc.prems by (auto simp: Suc_le_eq)
    then show ?thesis
      using File_ptr u slot_set_slot [OF ok i] by (auto simp: same_tables_def le_eq_less_or_eq)
  next
    case (Cap_ptr e)
    then show ?thesis using Suc.prems(1) i by (simp add: fd_inv_def plain_def)
  qed
qed auto

lemma fd_close_all_ok:
  assumes "fd_inv s"
  shows "\<exists>s'. fd_close_all t s = Some s' \<and> fd_inv s'"
proof (cases t)
  case (Some t')
  then show ?thesis using close_slots_ok [OF assms, of 0 MAX_FDS t'] by (auto simp: fd_close_all_def)
qed (use assms in \<open>simp add: fd_close_all_def\<close>)

lemma fd_inv_set:
  assumes "fd_inv s" "same_tables s s'" "i < MAX_FDS" "file_inv (set_slot t i (File_ptr p) s')"
  shows "fd_inv (set_slot t i (File_ptr p) s')"
  using assms plain_set_slot [of s' i "File_ptr p"] plain_same [OF assms(2)] same_tables_ok [OF assms(2)]
  by (simp add: fd_inv_def file_inv_def)

lemma free_slot_table:
  assumes "fd_inv s" "free_slot (fd_table s t) = Some i"
  shows "i < MAX_FDS" "fd_table s t ! i = Unused"
  using assms free_slot_Some [OF assms(2)] by (auto simp: fd_inv_def file_inv_def tables_ok_def)

lemma fd_open_path_ok:
  assumes inv: "fd_inv s" and fresh: "\<And>p. mem = Some p \<Longrightarrow> files s p = None"
  shows "\<exists>s' r. fd_open_path t inode mem open_ok s = Some (s', r) \<and> fd_inv s'"
proof (cases "inode = None \<or> mem = None \<or> \<not> open_ok")
  case False
  then obtain j p where jp: "inode = Some j" "mem = Some p" "open_ok" by auto
  define f where "f = \<lparr> f_inode = Some j, f_offset = 0, f_flags = 0, f_refcount = 1 \<rparr>"
  define s1 where "s1 = fst (vfs_open inode 0 mem open_ok s)"
  have o: "vfs_open inode 0 mem open_ok s = (s1, Some p)" and st: "same_tables s s1" and fl: "files s1 = (files s)(p \<mapsto> f)"
    using jp by (auto simp: vfs_open_def Let_def s1_def f_def same_tables_def split: option.splits)
  show ?thesis
  proof (cases "t = None \<or> free_slot (fd_table s (the t)) = None")
    case True
    have "fd_alloc t (Some p) s1 = (s1, - 1)"
      using True st by (auto simp: fd_alloc_def slot_alloc_def same_tables_def split: option.splits)
    moreover obtain s2 where s2: "vfs_close p s1 = Some (s2, 0)" "same_tables s1 s2" "files s2 = (files s1)(p := None)"
      using vfs_close_live [of s1 p f] fl by (auto simp: f_def)
    moreover have "fd_inv s2"
    proof -
      have "files s2 = files s" using s2(3) fl fresh [OF jp(2)] by (auto simp: fun_eq_iff)
      moreover have "same_tables s s2" using st s2(2) by (simp add: same_tables_def)
      ultimately show ?thesis using inv same_files_inv [of s s2] plain_same [of s s2] by (simp add: fd_inv_def)
    qed
    ultimately show ?thesis using o by (simp add: fd_open_path_def)
  next
    case False
    then obtain t' i where ti: "t = Some t'" "free_slot (fd_table s t') = Some i" by auto
    note i = free_slot_table [OF inv ti(2)]
    have "file_inv (set_slot t' i (File_ptr p) s1)"
      using new_ref [OF _ fresh [OF jp(2)] st fl _ i] inv by (simp add: fd_inv_def f_def)
    then have "fd_inv (set_slot t' i (File_ptr p) s1)" using fd_inv_set [OF inv st i(1)] by blast
    moreover have "fd_alloc t (Some p) s1 = (set_slot t' i (File_ptr p) s1, int i)"
      using ti st by (simp add: fd_alloc_def slot_alloc_def same_tables_def)
    ultimately show ?thesis using o by (simp add: fd_open_path_def)
  qed
qed (use inv in \<open>auto simp: fd_open_path_def vfs_open_def split: option.splits\<close>)

lemma dup_into:
  assumes inv: "fd_inv s" and p: "(t, j) \<in> refs s p" and i: "i < MAX_FDS" "fd_table s t' ! i = Unused"
  shows "\<exists>s'. vfs_file_dup p s = Some (s', 0) \<and> same_tables s s' \<and> fd_inv (set_slot t' i (File_ptr p) s')"
proof -
  have f: "file_inv s" using inv by (simp add: fd_inv_def)
  obtain f' where f': "files s p = Some f'" "f_refcount f' > 0" using file_inv_live [OF f p] by blast
  obtain s' where s': "vfs_file_dup p s = Some (s', 0)" "same_tables s s'"
      "files s' = (files s)(p := Some (f'\<lparr> f_refcount := f_refcount f' + 1 \<rparr>))"
    using vfs_file_dup_live [OF f'] by blast
  have "fd_inv (set_slot t' i (File_ptr p) s')"
    using fd_inv_set [OF inv s'(2) i(1)] add_ref [OF f f'(1) s'(2,3) i] by blast
  with s' show ?thesis by blast
qed

lemma dup_undo:
  assumes inv: "fd_inv s" and p: "(t, j) \<in> refs s p" and d: "vfs_file_dup p s = Some (s1, r)"
  shows "\<exists>s2. vfs_close p s1 = Some (s2, 0) \<and> fd_inv s2"
proof -
  have f: "file_inv s" using inv by (simp add: fd_inv_def)
  obtain f' where f': "files s p = Some f'" "f_refcount f' > 0" using file_inv_live [OF f p] by blast
  have s1: "same_tables s s1" "files s1 = (files s)(p := Some (f'\<lparr> f_refcount := f_refcount f' + 1 \<rparr>))"
    using vfs_file_dup_live [OF f'] d by auto
  obtain s2 where s2: "vfs_close p s1 = Some (s2, 0)" "same_tables s1 s2"
      "files s2 = (files s1)(p := Some (f'\<lparr> f_refcount := f_refcount f' \<rparr>))"
    using vfs_close_live [of s1 p "f'\<lparr> f_refcount := f_refcount f' + 1 \<rparr>"] s1 f'(2) by auto
  have "files s2 = files s" using s2(3) s1(2) f'(1) by (simp add: fun_eq_iff)
  moreover have "same_tables s s2" using s1(1) s2(2) by (simp add: same_tables_def)
  ultimately have "fd_inv s2" using inv same_files_inv [of s s2] plain_same [of s s2] by (simp add: fd_inv_def)
  with s2 show ?thesis by blast
qed

lemma fd_dup_ok:
  assumes inv: "fd_inv s"
  shows "\<exists>s' r. fd_dup t fd s = Some (s', r) \<and> fd_inv s'"
proof (cases "fd_slot t fd s")
  case (File_ptr p)
  then obtain t' where t: "t = Some t'" "(t', nat fd) \<in> refs s p" using fd_slot_ref by blast
  have g: "fd_get t fd s = Some (Some p)" using File_ptr by (simp add: fd_get_def)
  obtain f where f: "files s p = Some f" "f_refcount f > 0"
    using file_inv_live [OF _ t(2)] inv by (auto simp: fd_inv_def)
  obtain s1 where s1: "vfs_file_dup p s = Some (s1, 0)" "same_tables s s1" using vfs_file_dup_live [OF f] by blast
  show ?thesis
  proof (cases "free_slot (fd_table s t')")
    case None
    then have "fd_alloc t (Some p) s1 = (s1, - 1)" using s1(2) t(1) by (simp add: fd_alloc_def slot_alloc_def same_tables_def)
    then show ?thesis using dup_undo [OF inv t(2) s1(1)] t(1) g s1(1) by (auto simp: fd_dup_def)
  next
    case (Some i)
    have "fd_inv (set_slot t' i (File_ptr p) s1)"
      using dup_into [OF inv t(2) free_slot_table [OF inv Some]] s1 by auto
    moreover have "fd_alloc t (Some p) s1 = (set_slot t' i (File_ptr p) s1, int i)"
      using Some s1(2) t(1) by (simp add: fd_alloc_def slot_alloc_def same_tables_def)
    ultimately show ?thesis using t(1) g s1(1) by (simp add: fd_dup_def)
  qed
qed (use inv fd_slot_plain [of s t fd] in \<open>auto simp: fd_dup_def fd_get_def fd_inv_def\<close>)

lemma fd_close_slot:
  assumes inv: "fd_inv s" and i: "nat fd < MAX_FDS" "0 \<le> fd"
  shows "\<exists>s1 r. (if fd_slot (Some t) fd s \<noteq> Unused then fd_close (Some t) fd s else Some (s, 0)) = Some (s1, r) \<and>
    fd_inv s1 \<and> fd_table s1 t ! nat fd = Unused \<and> (\<forall>j. j \<noteq> nat fd \<longrightarrow> fd_table s1 t ! j = fd_table s t ! j)"
proof (cases "fd_slot (Some t) fd s")
  case Unused
  then have "fd_table s t ! nat fd = Unused" using i by (simp add: fd_slot_def split: if_splits)
  then show ?thesis using Unused inv by simp
next
  case (File_ptr p)
  then have r: "(t, nat fd) \<in> refs s p" using fd_slot_ref by blast
  obtain u where u: "vfs_close p s = Some (u, 0)" "fd_inv (set_slot t (nat fd) Unused u)" "same_tables s u"
    using fd_inv_drop [OF inv r] by blast
  have ok: "tables_ok u" using inv same_tables_ok [OF u(3)] by (simp add: fd_inv_def file_inv_def)
  have "fd_close (Some t) fd s = Some (set_slot t (nat fd) Unused u, 0)"
    using File_ptr u(1) by (simp add: fd_close_def fd_get_def)
  then show ?thesis using File_ptr u slot_set_slot [OF ok i(1)] by (simp add: same_tables_def)
qed (use inv fd_slot_plain [of s] in \<open>simp add: fd_inv_def\<close>)

lemma fd_dup2_ok:
  assumes inv: "fd_inv s"
  shows "\<exists>s' r. fd_dup2 t oldfd newfd s = Some (s', r) \<and> fd_inv s'"
proof (cases "t = None \<or> oldfd < 0 \<or> oldfd \<ge> int MAX_FDS \<or> newfd < 0 \<or> newfd \<ge> int MAX_FDS \<or> oldfd = newfd")
  case False
  then obtain t' where t: "t = Some t'" and n: "nat newfd < MAX_FDS" "0 \<le> newfd" "nat oldfd \<noteq> nat newfd" by auto
  show ?thesis
  proof (cases "fd_slot t oldfd s")
    case (File_ptr p)
    have o: "fd_table s t' ! nat oldfd = File_ptr p" "nat oldfd < MAX_FDS" using fd_slot_ref [OF File_ptr] t by auto
    obtain s1 r where s1: "(if fd_slot t newfd s \<noteq> Unused then fd_close t newfd s else Some (s, 0)) = Some (s1, r)"
        "fd_inv s1" "fd_table s1 t' ! nat newfd = Unused" "fd_table s1 t' ! nat oldfd = File_ptr p"
      using fd_close_slot [OF inv n(1,2)] o(1) n(3) t by force
    have "(t', nat oldfd) \<in> refs s1 p" using s1(4) o(2) by (simp add: refs_def points_def)
    then obtain s2 where "vfs_file_dup p s1 = Some (s2, 0)" "fd_inv (set_slot t' (nat newfd) (File_ptr p) s2)"
      using dup_into [OF s1(2) _ n(1) s1(3)] by blast
    then show ?thesis using False File_ptr s1(1) t by (auto simp: fd_dup2_def fd_get_def split: if_splits)
  qed (use False inv fd_slot_plain [of s t oldfd] in \<open>auto simp: fd_dup2_def fd_get_def fd_inv_def\<close>)
qed (use inv in \<open>auto simp: fd_dup2_def\<close>)

text \<open>The states reachable by any sequence of calls of the file layer.\<close>

inductive fd_step :: "fstate \<Rightarrow> fstate \<Rightarrow> bool" where
  open_step: "(\<And>p. mem = Some p \<Longrightarrow> files s p = None) \<Longrightarrow> fd_open_path t inode mem ok s = Some (s', r) \<Longrightarrow> fd_step s s'"
| close_step: "fd_close t fd s = Some (s', r) \<Longrightarrow> fd_step s s'"
| close_all_step: "fd_close_all t s = Some s' \<Longrightarrow> fd_step s s'"
| dup_step: "fd_dup t fd s = Some (s', r) \<Longrightarrow> fd_step s s'"
| dup2_step: "fd_dup2 t fd newfd s = Some (s', r) \<Longrightarrow> fd_step s s'"

definition fd_start :: "fstate \<Rightarrow> bool" where
  "fd_start s \<longleftrightarrow> (\<forall>t. fd_table s t = replicate MAX_FDS Unused) \<and> (\<forall>p. files s p = None)"

lemma fd_step_inv: "fd_step s s' \<Longrightarrow> fd_inv s \<Longrightarrow> fd_inv s'"
proof (induction rule: fd_step.induct)
  case (open_step mem s t inode ok s' r)
  then show ?case using fd_open_path_ok [of s mem t inode ok] by auto
next
  case (close_step t fd s s' r)
  then show ?case using fd_close_ok [of s t fd] by auto
next
  case (close_all_step t s s')
  then show ?case using fd_close_all_ok [of s t] by auto
next
  case (dup_step t fd s s' r)
  then show ?case using fd_dup_ok [of s t fd] by auto
next
  case (dup2_step t fd newfd s s' r)
  then show ?case using fd_dup2_ok [of s t fd newfd] by auto
qed

lemma fd_start_inv: "fd_start s \<Longrightarrow> fd_inv s"
  by (simp add: fd_start_def fd_inv_def file_inv_def tables_ok_def caps_ok_def plain_def file_ok_def refs_def points_def)

lemma fd_reach_inv: "fd_step\<^sup>*\<^sup>* s0 s \<Longrightarrow> fd_start s0 \<Longrightarrow> fd_inv s"
  by (induction rule: rtranclp_induct) (auto intro: fd_start_inv fd_step_inv)

section \<open>Capability entries keep the invariant\<close>

lemma cap_slot_ref:
  assumes "fd_slot t fd s = Cap_ptr e" "cap_entries s e = Some c"
  shows "\<exists>t'. t = Some t' \<and> 0 \<le> fd \<and> nat fd < MAX_FDS \<and> fd_table s t' ! nat fd = Cap_ptr e \<and>
    (t', nat fd) \<in> refs s (ce_file c)"
  using assms by (auto simp: fd_slot_def refs_def points_def split: option.splits if_splits)

lemma cap_get_Some:
  assumes "cap_get t fd s = Some (Some (e, c))"
  shows "fd_slot t fd s = Cap_ptr e \<and> cap_entries s e = Some c"
  using assms by (auto simp: cap_get_def split: slot.splits)

lemma caps_ok_live:
  assumes "caps_ok s" "fd_slot t fd s = Cap_ptr e"
  shows "cap_entries s e \<noteq> None"
proof -
  obtain t' where "fd_table s t' ! nat fd = Cap_ptr e" "nat fd < MAX_FDS"
    using assms(2) by (auto simp: fd_slot_def split: option.splits if_splits)
  then show ?thesis using assms(1) unfolding caps_ok_def by blast
qed

text \<open>An entry no table holds can be added to or removed from the heap of entries.\<close>

definition unheld :: "fstate \<Rightarrow> nat \<Rightarrow> bool" where
  "unheld s e \<longleftrightarrow> (\<forall>t i. i < MAX_FDS \<longrightarrow> fd_table s t ! i \<noteq> Cap_ptr e)"

lemma unheld_refs:
  assumes "unheld s e"
  shows "refs (s\<lparr> cap_entries := (cap_entries s)(e := v) \<rparr>) p = refs s p"
proof -
  have "points (s\<lparr> cap_entries := (cap_entries s)(e := v) \<rparr>) (fd_table s t ! i) = points s (fd_table s t ! i)"
    if "i < MAX_FDS" for t i
    using assms that by (auto simp: points_def unheld_def split: slot.split)
  then show ?thesis by (auto simp: refs_def)
qed

lemma unheld_inv:
  assumes "file_inv s" "unheld s e"
  shows "file_inv (s\<lparr> cap_entries := (cap_entries s)(e := v) \<rparr>)"
proof -
  let ?u = "s\<lparr> cap_entries := (cap_entries s)(e := v) \<rparr>"
  have "file_ok ?u = file_ok s" by (simp add: file_ok_def unheld_refs [OF assms(2)] fun_eq_iff split: option.split)
  moreover have "caps_ok ?u" using assms unfolding caps_ok_def unheld_def file_inv_def by auto
  ultimately show ?thesis using assms(1) by (simp add: file_inv_def tables_ok_def)
qed

lemma unheld_cleared:
  assumes inv: "file_inv s" and e: "fd_table s t ! i = Cap_ptr e" "i < MAX_FDS"
    and u: "tables_ok u" "fd_table u = fd_table s"
  shows "unheld (set_slot t i Unused u) e"
proof -
  have "caps_ok s" using inv by (simp add: file_inv_def)
  then have "t' = t \<and> i' = i" if "i' < MAX_FDS" "fd_table s t' ! i' = Cap_ptr e" for t' i'
    using e that unfolding caps_ok_def by blast
  then show ?thesis unfolding unheld_def using slot_set_slot [OF u(1) e(2)] u(2) by auto
qed

lemma set_slot_cap_entries:
  "set_slot t i v (s\<lparr> cap_entries := m \<rparr>) = (set_slot t i v s)\<lparr> cap_entries := m \<rparr>"
  by (simp add: set_slot_def)

lemma cap_fd_close_ok:
  assumes inv: "file_inv s"
  shows "\<exists>s' r. cap_fd_close t fd s = Some (s', r) \<and> file_inv s'"
proof (cases "\<exists>e. fd_slot t fd s = Cap_ptr e")
  case True
  then obtain e where e: "fd_slot t fd s = Cap_ptr e" by blast
  have "cap_entries s e \<noteq> None" using caps_ok_live [OF _ e] inv by (simp add: file_inv_def)
  then obtain c where c: "cap_entries s e = Some c" by blast
  obtain t' where t: "t = Some t'" "nat fd < MAX_FDS" "fd_table s t' ! nat fd = Cap_ptr e" "(t', nat fd) \<in> refs s (ce_file c)"
    using cap_slot_ref [OF e c] by blast
  obtain u where u: "vfs_close (ce_file c) s = Some (u, 0)" "file_inv (set_slot t' (nat fd) Unused u)" "same_tables s u"
    using drop_ref [OF inv t(4)] by blast
  have "unheld (set_slot t' (nat fd) Unused u) e"
    using unheld_cleared [OF inv t(3,2)] u(3) same_tables_ok [OF u(3)] inv by (simp add: same_tables_def file_inv_def)
  from unheld_inv [OF u(2) this, of None] show ?thesis
    using e c t(1) u(1) by (simp add: cap_fd_close_def cap_get_def set_slot_cap_entries)
qed (use inv in \<open>auto simp: cap_fd_close_def cap_get_def split: slot.split\<close>)

lemma fresh_unheld: "caps_ok s \<Longrightarrow> cap_entries s e = None \<Longrightarrow> unheld s e"
  unfolding caps_ok_def unheld_def by blast

lemma caps_set_cap:
  assumes "caps_ok s" "tables_ok s" "i < MAX_FDS" "unheld s e" "cap_entries s e \<noteq> None"
  shows "caps_ok (set_slot t i (Cap_ptr e) s)"
  using assms(1,3,4,5) unfolding unheld_def caps_ok_def by (auto simp: slot_set_slot [OF assms(2,3)] split: if_splits)

text \<open>The state after a capability moved from one table entry to another.\<close>

lemma move_cap:
  assumes inv: "file_inv s" and e: "fd_table s t ! j = Cap_ptr e" "j < MAX_FDS" "cap_entries s e = Some c"
    and new: "cap_entries s e' = None" "i < MAX_FDS" "fd_table s t' ! i = Unused" "ce_file c' = ce_file c"
  shows "file_inv (set_slot t j Unused (set_slot t' i (Cap_ptr e') (s\<lparr> cap_entries := (cap_entries s)(e' \<mapsto> c', e := None) \<rparr>)))"
proof -
  have s: "tables_ok s" "caps_ok s" "\<And>q. file_ok s q" using inv by (auto simp: file_inv_def)
  have ne: "e \<noteq> e'" using e(3) new(1) by auto
  define s1 where "s1 = s\<lparr> cap_entries := (cap_entries s)(e' \<mapsto> c') \<rparr>"
  note u = fresh_unheld [OF s(2) new(1)]
  have "file_inv s1" unfolding s1_def by (rule unheld_inv [OF inv u])
  then have s1: "tables_ok s1" "caps_ok s1" by (simp_all add: file_inv_def)
  have u1: "unheld s1 e'" using u by (simp add: s1_def unheld_def)
  define s2 where "s2 = set_slot t' i (Cap_ptr e') s1"
  have s2: "tables_ok s2" "caps_ok s2"
    unfolding s2_def using set_slot_tables [OF s1(1)] caps_set_cap [OF s1(2,1) new(2) u1] by (simp_all add: s1_def)
  define s3 where "s3 = set_slot t j Unused s2"
  have s3: "tables_ok s3" "caps_ok s3"
    unfolding s3_def using set_slot_tables [OF s2(1)] caps_set_slot [OF s2(2,1) e(2)] by simp_all
  have mem: "(t, j) \<in> refs s q \<longleftrightarrow> q = ce_file c" "(t', i) \<notin> refs s q" for q using e new by (auto simp: refs_def points_def)
  have ij: "(t', i) \<noteq> (t, j)" using e(1) new(3) by auto
  have r: "refs s3 q = (if q = ce_file c then insert (t', i) (refs s q - {(t, j)}) else refs s q)" for q
    unfolding s3_def s2_def refs_set_slot [OF s2(1) [unfolded s2_def] e(2)] refs_set_slot [OF s1(1) new(2)]
    using mem [of q] ij new(4) unheld_refs [OF u] by (auto simp: points_def s1_def)
  have card: "card (refs s3 q) = card (refs s q) \<and> finite (refs s3 q) = finite (refs s q) \<and> (refs s3 q = {} \<longleftrightarrow> refs s q = {})" for q
  proof (cases "finite (refs s q) \<and> q = ce_file c")
    case True
    then have "card (refs s q) > 0" using mem(1) [of q] by (auto simp: card_gt_0_iff)
    then show ?thesis using True mem [of q] by (auto simp: r card_insert_if)
  qed (use mem [of q] in \<open>auto simp: r\<close>)
  have "file_ok s3 q" for q
    using s(3) [of q] card [of q] by (simp add: file_ok_def s3_def s2_def s1_def split: option.splits)
  then have "file_inv s3" using s3 by (simp add: file_inv_def)
  moreover have "unheld s3 e"
  proof -
    have "unheld (set_slot t j Unused s) e" by (rule unheld_cleared [OF inv e(1,2) s(1) refl])
    then show ?thesis unfolding s3_def s2_def unheld_def
      using ne by (simp add: slot_set_slot [OF s2(1) [unfolded s2_def] e(2)] slot_set_slot [OF s1(1) new(2)]
        slot_set_slot [OF s(1) e(2)]) (auto simp: s1_def split: if_splits)
  qed
  ultimately have "file_inv (s3\<lparr> cap_entries := (cap_entries s3)(e := None) \<rparr>)" by (rule unheld_inv)
  then show ?thesis using ne by (simp add: s3_def s2_def s1_def set_slot_cap_entries fun_upd_twist)
qed

lemma free_slot_inv:
  assumes "tables_ok s" "free_slot (fd_table s t) = Some i"
  shows "i < MAX_FDS" "fd_table s t ! i = Unused"
  using assms free_slot_Some [OF assms(2)] by (auto simp: tables_ok_def)

lemma cap_fd_alloc_ok:
  assumes "free_slot (fd_table s t) = Some i"
  shows "cap_fd_alloc (Some t) (Some p) caps (Some e) s =
    (set_slot t i (Cap_ptr e) (s\<lparr> cap_entries := (cap_entries s)(e \<mapsto> \<lparr> ce_file = p, ce_caps = caps \<rparr>) \<rparr>), int i)"
  using assms by (simp add: cap_fd_alloc_def)

text \<open>The capability check of an entry depends on the entry and on its capability only.\<close>

lemma check_cap_slot:
  "fd_check_cap t fd req s = (case fd_slot t fd s of
     Cap_ptr e \<Rightarrow> map_option (\<lambda>c. if ce_caps c AND req \<noteq> req then - 1 else 0) (cap_entries s e)
   | _ \<Rightarrow> Some (- 1))"
  by (simp add: fd_check_cap_def cap_get_def map_option_case split: slot.split option.split)

lemma subset_mask: "a AND NOT b = 0 \<Longrightarrow> a AND r = r \<Longrightarrow> b AND r = r" for a b r :: u32
  by (simp add: bit_eq_iff bit_simps) blast

section \<open>Properties\<close>

text \<open>C13: In every state that calls of the file layer reach from a state with empty tables, the reference
  count of each open file is the number of table entries that point to it, so that a file is in memory
  exactly while some entry points to it; no operation dereferences a freed file in such a state.\<close>

theorem fd_layer_safe:
  assumes "fd_start s0" "fd_step\<^sup>*\<^sup>* s0 s"
  shows "file_inv s \<and> fd_close t fd s \<noteq> None \<and> fd_close_all t s \<noteq> None \<and> fd_dup t fd s \<noteq> None \<and>
    fd_dup2 t fd newfd s \<noteq> None \<and> (files s p = None \<longrightarrow> fd_open_path t inode (Some p) ok s \<noteq> None)"
proof -
  note inv = fd_reach_inv [OF assms(2,1)]
  then have "file_inv s" by (simp add: fd_inv_def)
  then show ?thesis
    using fd_close_ok [OF inv, of t fd] fd_close_all_ok [OF inv, of t] fd_dup_ok [OF inv, of t fd]
      fd_dup2_ok [OF inv, of t fd newfd] fd_open_path_ok [OF inv, of "Some p" t inode ok] by auto
qed

definition no_files :: fstate where
  "no_files = \<lparr> fd_table = (\<lambda>_. replicate MAX_FDS Unused), files = Map.empty, cap_entries = Map.empty,
     inode_dentry = Map.empty, dentry_refs = (\<lambda>_. 0), close_log = [] \<rparr>"

text \<open>A state with one file open on descriptors 0 and 1 of task 7.\<close>

definition two_fds :: fstate where
  "two_fds = fst (the (fd_dup (Some 7) 0 (fst (the (fd_open_path (Some 7) (Some 5) (Some 100) True no_files)))))"

lemma no_files_start: "fd_start no_files"
  by (simp add: fd_start_def no_files_def)

lemma empty_table: "replicate 16 v = [v, v, v, v, v, v, v, v, v, v, v, v, v, v, v, v]"
  by (simp add: numeral_eq_Suc)

lemmas files_code = two_fds_def no_files_def fd_open_path_def vfs_open_def fd_alloc_def slot_alloc_def set_slot_def
  fd_dup_def fd_get_def fd_slot_def vfs_file_dup_def set_refcount_def fd_close_def vfs_close_def vfs_release_def
  empty_table MAX_FDS_def

lemma two_fds_table:
  "fd_table two_fds 7 = (replicate 16 Unused)[0 := File_ptr 100, 1 := File_ptr 100]"
  by (simp add: files_code)

lemma two_fds_fresh: "files two_fds 200 = None"
  by (simp add: files_code)

lemma two_fds_reach: "fd_step\<^sup>*\<^sup>* no_files two_fds"
proof -
  let ?s = "fst (the (fd_open_path (Some 7) (Some 5) (Some 100) True no_files))"
  have inv: "fd_inv no_files" by (rule fd_start_inv [OF no_files_start])
  obtain s1 r where s1: "fd_open_path (Some 7) (Some 5) (Some 100) True no_files = Some (s1, r)" "fd_inv s1"
    using fd_open_path_ok [OF inv, of "Some 100" "Some 7" "Some 5" True] by (auto simp: no_files_def)
  obtain s2 r' where s2: "fd_dup (Some 7) 0 s1 = Some (s2, r')" using fd_dup_ok [OF s1(2), of "Some 7" 0] by blast
  have "fd_step no_files s1" using open_step [OF _ s1(1)] by (simp add: no_files_def)
  moreover have "fd_step s1 s2" by (rule dup_step [OF s2])
  moreover have "two_fds = s2" using s1(1) s2 by (simp add: two_fds_def)
  ultimately show ?thesis by auto
qed

theorem fd_layer_safe_witness:
  "fd_start no_files \<and> fd_step\<^sup>*\<^sup>* no_files two_fds \<and> file_inv two_fds \<and> fd_dup2 (Some 7) 1 0 two_fds \<noteq> None \<and>
   fd_open_path (Some 7) (Some 5) (Some 200) True two_fds \<noteq> None"
  using fd_layer_safe [OF no_files_start two_fds_reach, of "Some 7" 1 0 200 "Some 5" True] no_files_start two_fds_reach
    two_fds_fresh by simp

text \<open>Closing a descriptor of a reachable state calls the file system's close function, once and on the
  file's inode, and frees the file exactly when no other entry of any table points to it; otherwise the
  file stays and nothing is called.\<close>

theorem fd_close_last:
  assumes "fd_start s0" "fd_step\<^sup>*\<^sup>* s0 s" "fd_slot (Some t) fd s = File_ptr p"
  shows "\<exists>s' f. fd_close (Some t) fd s = Some (s', 0) \<and> fd_slot (Some t) fd s' = Unused \<and> files s p = Some f \<and>
    (if refs s p = {(t, nat fd)}
     then files s' p = None \<and> close_log s' = close_log s @ (case f_inode f of None \<Rightarrow> [] | Some j \<Rightarrow> [j])
     else files s' p \<noteq> None \<and> close_log s' = close_log s)"
proof -
  note inv = fd_reach_inv [OF assms(2,1)]
  have t: "nat fd < MAX_FDS" "0 \<le> fd" "(t, nat fd) \<in> refs s p" using fd_slot_ref [OF assms(3)] by auto
  obtain u where u: "vfs_close p s = Some (u, 0)" "fd_inv (set_slot t (nat fd) Unused u)" "same_tables s u"
      "refs s p = {(t, nat fd)} \<longrightarrow> files u p = None"
      "close_log u = close_log s @ (if refs s p = {(t, nat fd)} then (case f_inode (the (files s p)) of None \<Rightarrow> [] | Some j \<Rightarrow> [j]) else [])"
    using fd_inv_drop [OF inv t(3)] by blast
  let ?s = "set_slot t (nat fd) Unused u"
  have ok: "tables_ok u" using inv same_tables_ok [OF u(3)] by (simp add: fd_inv_def file_inv_def)
  obtain f where f: "files s p = Some f" using file_inv_live [OF _ t(3)] inv by (auto simp: fd_inv_def)
  have "files ?s p \<noteq> None" if "refs s p \<noteq> {(t, nat fd)}"
  proof -
    have "refs ?s p \<noteq> {}"
      using that t(3) refs_set_slot [OF ok t(1)] same_tables_refs [OF u(3)] by (auto simp: points_def)
    moreover have "file_ok ?s p" using u(2) by (simp add: fd_inv_def file_inv_def)
    ultimately show ?thesis by (auto simp: file_ok_def split: option.splits)
  qed
  moreover have "fd_close (Some t) fd s = Some (?s, 0)" using assms(3) u(1) by (simp add: fd_close_def fd_get_def)
  moreover have "fd_slot (Some t) fd ?s = Unused" using slot_set_slot [OF ok t(1)] by (simp add: fd_slot_def)
  ultimately show ?thesis using u(4,5) f by auto
qed

theorem fd_close_last_witness:
  "fd_start no_files \<and> fd_step\<^sup>*\<^sup>* no_files two_fds \<and> fd_slot (Some 7) 0 two_fds = File_ptr 100 \<and>
   (\<exists>s'. fd_close (Some 7) 0 two_fds = Some (s', 0) \<and> fd_slot (Some 7) 0 s' = Unused)"
proof -
  have f: "fd_slot (Some 7) 0 two_fds = File_ptr 100" by (simp add: fd_slot_def two_fds_table MAX_FDS_def)
  show ?thesis using fd_close_last [OF no_files_start two_fds_reach f] no_files_start two_fds_reach f by blast
qed

lemma fd_slot_int: "i < MAX_FDS \<Longrightarrow> fd_slot (Some t) (int i) s = fd_table s t ! i"
  by (simp add: fd_slot_def)

lemma fd_derive_cases:
  assumes "fd_derive cur old caps mem s = Some (s', fd)" "0 \<le> fd"
  obtains e c s1 r where "fd_slot cur old s = Cap_ptr e" "cap_entries s e = Some c" "caps AND NOT (ce_caps c) = 0"
    "vfs_file_dup (ce_file c) s = Some (s1, r)" "cap_fd_alloc cur (Some (ce_file c)) caps mem s1 = (s', fd)"
  using assms unfolding fd_derive_def
  by (auto split: bind_splits option.splits if_splits dest!: cap_get_Some)

lemma vfs_file_dup_same: "vfs_file_dup p s = Some (s1, r) \<Longrightarrow> same_tables s s1"
  by (auto simp: vfs_file_dup_def same_tables_def set_refcount_def split: option.splits if_splits)


text \<open>A successful \<open>fd_send\<close> moves the capability: the sender's descriptor becomes unused, a descriptor of
  the receiver that was unused passes exactly the checks the sender's passed, and since the sender's
  reference is handed over the reference counts stay right without being touched.\<close>

theorem fd_send_moves:
  assumes inv: "file_inv s" and fresh: "cap_entries s e' = None"
    and d: "fd_send (Some t) fd (Some t') (Some e') s = Some (s', 0)"
  shows "file_inv s' \<and> files s' = files s \<and> fd_slot (Some t) fd s' = Unused \<and>
    (\<exists>i < MAX_FDS. fd_table s t' ! i = Unused \<and> fd_check_cap (Some t') (int i) req s' = fd_check_cap (Some t) fd req s)"
proof -
  obtain e c where e: "fd_slot (Some t) fd s = Cap_ptr e" "cap_entries s e = Some c"
    and r: "0 \<le> snd (cap_fd_alloc (Some t') (Some (ce_file c)) (ce_caps c) (Some e') s)"
    and s': "s' = (let s1 = fst (cap_fd_alloc (Some t') (Some (ce_file c)) (ce_caps c) (Some e') s)
                   in set_slot t (nat fd) Unused (s1\<lparr> cap_entries := (cap_entries s1)(e := None) \<rparr>))"
    using d unfolding fd_send_def Let_def by (auto split: bind_splits option.splits if_splits prod.splits dest!: cap_get_Some)
  obtain i where i: "free_slot (fd_table s t') = Some i" using r by (auto simp: cap_fd_alloc_def split: option.splits)
  have ok: "tables_ok s" using inv by (simp add: file_inv_def)
  note iM = free_slot_inv [OF ok i]
  have j: "nat fd < MAX_FDS" "0 \<le> fd" "fd_table s t ! nat fd = Cap_ptr e" using cap_slot_ref [OF e] by auto
  have ne: "e \<noteq> e'" using e(2) fresh by auto
  let ?c = "\<lparr> ce_file = ce_file c, ce_caps = ce_caps c \<rparr>"
  let ?m = "s\<lparr> cap_entries := (cap_entries s)(e' \<mapsto> ?c, e := None) \<rparr>"
  have s'': "s' = set_slot t (nat fd) Unused (set_slot t' i (Cap_ptr e') ?m)"
    using i by (simp add: s' cap_fd_alloc_def set_slot_cap_entries)
  have "file_inv s'" unfolding s'' using move_cap [OF inv j(3,1) e(2) fresh iM, of ?c] by simp
  moreover have m: "tables_ok ?m" using ok by (simp add: tables_ok_def)
  moreover note m' = set_slot_tables [OF m, of t' i "Cap_ptr e'"]
  note slots = slot_set_slot [OF m' j(1)] slot_set_slot [OF m iM(1)]
  have ij: "t' \<noteq> t \<or> i \<noteq> nat fd" using iM(2) j(3) by auto
  have "fd_slot (Some t) fd s' = Unused" using j by (simp add: fd_slot_def s'' slots)
  moreover have "fd_check_cap (Some t') (int i) req s' = fd_check_cap (Some t) fd req s"
    using e ne iM(1) ij by (auto simp: check_cap_slot fd_slot_int s'' slots)
  moreover have "files s' = files s" by (simp add: s'')
  ultimately show ?thesis using iM by blast
qed

text \<open>Task 7 holds a capability on the only file, with the capabilities read, write and send.\<close>

definition one_cap :: fstate where
  "one_cap = fst (cap_fd_alloc (Some 7) (Some 100) 11 (Some 300)
     (fst (vfs_open (Some 5) 0 (Some 100) True no_files)))"

lemmas cap_code = one_cap_def cap_fd_alloc_def cap_get_def fd_derive_def fd_send_def fd_check_cap_def CAP_SEND_def

lemma one_cap_inv: "file_inv one_cap"
proof -
  have slot: "fd_table one_cap t ! i = (if t = 7 \<and> i = 0 then Cap_ptr 300 else Unused)" if "i < MAX_FDS" for t i
    using that by (simp add: cap_code files_code nth_Cons split: nat.split)
  have caps: "cap_entries one_cap = [300 \<mapsto> \<lparr> ce_file = 100, ce_caps = 11 \<rparr>]" by (simp add: cap_code files_code)
  have r: "refs one_cap p = (if p = 100 then {(7, 0)} else {})" for p
    by (auto simp: refs_def slot points_def caps MAX_FDS_def split: if_splits)
  have "files one_cap = [100 \<mapsto> \<lparr> f_inode = Some 5, f_offset = 0, f_flags = 0, f_refcount = 1 \<rparr>]"
    by (simp add: cap_code files_code)
  then have "file_ok one_cap p" for p by (simp add: file_ok_def r)
  moreover have "caps_ok one_cap" by (simp add: caps_ok_def slot caps)
  moreover have "tables_ok one_cap" by (simp add: tables_ok_def cap_code files_code)
  ultimately show ?thesis by (simp add: file_inv_def)
qed


theorem fd_send_moves_witness:
  "\<exists>s'. file_inv one_cap \<and> fd_send (Some 7) 0 (Some 8) (Some 301) one_cap = Some (s', 0) \<and> file_inv s'"
proof -
  obtain s' where d: "fd_send (Some 7) 0 (Some 8) (Some 301) one_cap = Some (s', 0)" by (simp add: cap_code files_code)
  have "cap_entries one_cap 301 = None" by (simp add: cap_code files_code)
  from fd_send_moves [OF one_cap_inv this d] d one_cap_inv show ?thesis by blast
qed

text \<open>When the table of the caller is full, \<open>fd_derive\<close> fails after it has taken a reference on the file
  and does not give it back: the reference count exceeds the number of entries that point to the file.\<close>

theorem fd_derive_leak:
  assumes inv: "file_inv s" and full: "free_slot (fd_table s t) = None" and fresh: "cap_entries s e' = None"
    and c: "fd_slot (Some t) old s = Cap_ptr e" "cap_entries s e = Some c" "caps AND NOT (ce_caps c) = 0"
  shows "\<exists>s' f. fd_derive (Some t) old caps (Some e') s = Some (s', - 1) \<and> fd_table s' = fd_table s \<and>
    files s' (ce_file c) = Some f \<and> f_refcount f = int (card (refs s' (ce_file c))) + 1 \<and> \<not> file_inv s'"
proof -
  obtain u where "(u, nat old) \<in> refs s (ce_file c)" using cap_slot_ref [OF c(1,2)] by blast
  then obtain f where f: "files s (ce_file c) = Some f" "f_refcount f = int (card (refs s (ce_file c)))" "f_refcount f > 0"
    using file_inv_live [OF inv] by blast
  obtain s1 where s1: "vfs_file_dup (ce_file c) s = Some (s1, 0)" "same_tables s s1"
      "files s1 = (files s)(ce_file c := Some (f\<lparr> f_refcount := f_refcount f + 1 \<rparr>))"
    using vfs_file_dup_live [OF f(1,3)] by blast
  have st: "fd_table s1 = fd_table s" "cap_entries s1 = cap_entries s" using s1(2) by (simp_all add: same_tables_def)
  have "(cap_entries s1)(e' := None) = cap_entries s1" using fresh st by auto
  then have d: "fd_derive (Some t) old caps (Some e') s = Some (s1, - 1)"
    using c s1(1) full st by (simp add: fd_derive_def cap_get_def cap_fd_alloc_def)
  have r: "refs s1 (ce_file c) = refs s (ce_file c)" by (rule same_tables_refs [OF s1(2)])
  have "\<not> file_ok s1 (ce_file c)" using s1(3) f r by (simp add: file_ok_def)
  then have "\<not> file_inv s1" unfolding file_inv_def by blast
  then show ?thesis using d st s1(3) f r by auto
qed

text \<open>Task 7 holds a capability on the only file on descriptor 0 and the file itself on the 15 others.\<close>

definition full_table :: fstate where
  "full_table = one_cap\<lparr> fd_table := (\<lambda>t. if t = 7 then Cap_ptr 300 # replicate 15 (File_ptr 100) else replicate 16 Unused),
     files := [100 \<mapsto> \<lparr> f_inode = Some 5, f_offset = 0, f_flags = 0, f_refcount = 16 \<rparr>] \<rparr>"

lemma full_table_inv: "file_inv full_table"
proof -
  have slot: "fd_table full_table t ! i = (if t = 7 then if i = 0 then Cap_ptr 300 else File_ptr 100 else Unused)" if "i < MAX_FDS" for t i
    using that by (auto simp: full_table_def MAX_FDS_def nth_Cons split: nat.split)
  have caps: "cap_entries full_table = [300 \<mapsto> \<lparr> ce_file = 100, ce_caps = 11 \<rparr>]" by (simp add: full_table_def cap_code files_code)
  have r: "refs full_table p = (if p = 100 then {7} \<times> {..<16} else {})" for p
    by (auto simp: refs_def slot points_def caps MAX_FDS_def split: if_splits)
  have "files full_table = [100 \<mapsto> \<lparr> f_inode = Some 5, f_offset = 0, f_flags = 0, f_refcount = 16 \<rparr>]"
    by (simp add: full_table_def)
  then have "file_ok full_table p" for p by (auto simp: file_ok_def r lessThan_empty_iff)
  moreover have "caps_ok full_table" by (auto simp: caps_ok_def slot caps split: if_splits)
  moreover have "tables_ok full_table" by (simp add: tables_ok_def full_table_def MAX_FDS_def)
  ultimately show ?thesis by (simp add: file_inv_def)
qed

theorem fd_derive_leak_witness:
  "file_inv full_table \<and> free_slot (fd_table full_table 7) = None \<and>
   (\<exists>s'. fd_derive (Some 7) 0 1 (Some 301) full_table = Some (s', - 1) \<and> \<not> file_inv s')"
proof -
  have f: "free_slot (fd_table full_table 7) = None" by (simp add: free_slot_None full_table_def)
  have e: "fd_slot (Some 7) 0 full_table = Cap_ptr 300" "cap_entries full_table 300 = Some \<lparr> ce_file = 100, ce_caps = 11 \<rparr>"
      "cap_entries full_table 301 = None"
    by (simp_all add: full_table_def fd_slot_def MAX_FDS_def cap_code files_code)
  show ?thesis using fd_derive_leak [OF full_table_inv f e(3,1,2), of 1] full_table_inv f by auto
qed

end
