(* ===== verification/Pipe.thy ===== *)
theory Pipe
  imports Files
begin

text \<open>
  Anonymous pipes, \<open>kernel/pipe.c\<close>: the ring buffer, the blocking read and write loops, closing and
  \<open>sys_pipe\<close>.

  The spinlock makes the code between \<open>pipe_spin_lock\<close> and \<open>pipe_spin_unlock\<close> one step. The points of
  \<open>pipe_read\<close> and \<open>pipe_write\<close> at which the lock is not held are the constructors of \<open>pc\<close>, so that
  any interleaving of readers, writers, closes and signals is a sequence of \<open>pipe_step\<close>. The ghost fields
  \<open>accepted\<close> and \<open>delivered\<close> record the bytes copied into and out of the ring.
\<close>

section \<open>The ring buffer\<close>

definition PIPE_BUF_SIZE :: nat where "PIPE_BUF_SIZE = 4096"

record pipe_ring =
  buf :: bytes
  head :: nat
  tail :: nat
  count :: nat
  read_open :: bool
  write_open :: bool
  blocked_reader :: "nat option"
  blocked_writer :: "nat option"

text \<open>\<open>memcpy\<close> into the buffer at an offset.\<close>

definition put_at :: "bytes \<Rightarrow> nat \<Rightarrow> bytes \<Rightarrow> bytes" where
  "put_at b a xs = take a b @ xs @ drop (a + length xs) b"

definition ring_get :: "nat \<Rightarrow> pipe_ring \<Rightarrow> pipe_ring \<times> bytes" where
  "ring_get n r =
     (let toread = (if n > count r then count r else n);
          first_chunk = (if PIPE_BUF_SIZE - head r > toread then toread else PIPE_BUF_SIZE - head r);
          out1 = take first_chunk (drop (head r) (buf r));
          out2 = (if toread > first_chunk then take (toread - first_chunk) (buf r) else [])
      in (r\<lparr> head := (head r + toread) mod PIPE_BUF_SIZE, count := count r - toread \<rparr>, out1 @ out2))"

definition ring_put :: "bytes \<Rightarrow> pipe_ring \<Rightarrow> pipe_ring \<times> nat" where
  "ring_put src r =
     (let space = PIPE_BUF_SIZE - count r;
          towrite = (if length src > space then space else length src);
          first_chunk = (if PIPE_BUF_SIZE - tail r > towrite then towrite else PIPE_BUF_SIZE - tail r);
          b1 = put_at (buf r) (tail r) (take first_chunk src);
          b2 = (if towrite > first_chunk then put_at b1 0 (take (towrite - first_chunk) (drop first_chunk src)) else b1)
      in (r\<lparr> buf := b2, tail := (tail r + towrite) mod PIPE_BUF_SIZE, count := count r + towrite \<rparr>, towrite))"

section \<open>Reading, writing and closing\<close>

datatype pc =
  Idle
| Rd_check nat | Rd_sig nat | Rd_set nat | Rd_sleep nat
| Wr_start bytes | Wr_loop bytes nat | Wr_sig bytes nat | Wr_mark bytes nat | Wr_set bytes nat | Wr_sleep bytes nat
| Returned int bytes

record psys =
  ring :: "pipe_ring option"
  tstate :: "nat \<Rightarrow> task_state"
  sig_pending :: "nat \<Rightarrow> bool"
  t_errno :: "nat \<Rightarrow> int"
  pcs :: "nat \<Rightarrow> pc"
  accepted :: bytes
  delivered :: bytes

definition EINTR :: int where "EINTR = 4"
definition EPIPE :: int where "EPIPE = 32"

definition goto :: "nat \<Rightarrow> pc \<Rightarrow> psys \<Rightarrow> psys" where
  "goto t p s = s\<lparr> pcs := (pcs s)(t := p) \<rparr>"

definition ret_errno :: "nat \<Rightarrow> int \<Rightarrow> psys \<Rightarrow> psys" where
  "ret_errno t e s = goto t (Returned (- 1) []) (s\<lparr> t_errno := (t_errno s)(t := e) \<rparr>)"

definition set_state :: "nat \<Rightarrow> task_state \<Rightarrow> psys \<Rightarrow> psys" where
  "set_state t v s = s\<lparr> tstate := (tstate s)(t := v) \<rparr>"

definition wake_writer :: "pipe_ring \<Rightarrow> psys \<Rightarrow> psys" where
  "wake_writer r s = (case blocked_writer r of
     None \<Rightarrow> s\<lparr> ring := Some r \<rparr>
   | Some w \<Rightarrow> if tstate s w = TASK_BLOCKED
               then set_state w TASK_READY (s\<lparr> ring := Some (r\<lparr> blocked_writer := None \<rparr>) \<rparr>)
               else s\<lparr> ring := Some r \<rparr>)"

definition wake_reader :: "pipe_ring \<Rightarrow> psys \<Rightarrow> psys" where
  "wake_reader r s = (case blocked_reader r of
     None \<Rightarrow> s\<lparr> ring := Some r \<rparr>
   | Some w \<Rightarrow> if tstate s w = TASK_BLOCKED
               then set_state w TASK_READY (s\<lparr> ring := Some (r\<lparr> blocked_reader := None \<rparr>) \<rparr>)
               else s\<lparr> ring := Some r \<rparr>)"

text \<open>One critical section or one unlocked statement of \<open>pipe_read\<close>, by the task's position. A task that
  sleeps goes on when \<open>schedule\<close> has picked it, which needs its state to be \<open>TASK_READY\<close>.\<close>

definition pipe_read :: "nat \<Rightarrow> psys \<Rightarrow> psys" where
  "pipe_read t s = (case ring s of
     None \<Rightarrow> s
   | Some r \<Rightarrow>
       (case pcs s t of
          Rd_check n \<Rightarrow>
            if count r > 0
            then let (r', out) = ring_get n r
                 in goto t (Returned (int (length out)) out) (wake_writer r' (s\<lparr> delivered := delivered s @ out \<rparr>))
            else if \<not> write_open r then goto t (Returned 0 []) s
            else goto t (Rd_sig n) (s\<lparr> ring := Some (r\<lparr> blocked_reader := Some t \<rparr>) \<rparr>)
        | Rd_sig n \<Rightarrow>
            if sig_pending s t
            then ret_errno t EINTR
                   (s\<lparr> ring := Some (if blocked_reader r = Some t then r\<lparr> blocked_reader := None \<rparr> else r) \<rparr>)
            else goto t (Rd_set n) s
        | Rd_set n \<Rightarrow> goto t (Rd_sleep n) (set_state t TASK_BLOCKED s)
        | Rd_sleep n \<Rightarrow> if tstate s t = TASK_READY then goto t (Rd_check n) (set_state t TASK_RUNNING s) else s
        | _ \<Rightarrow> s))"

definition pipe_write :: "nat \<Rightarrow> psys \<Rightarrow> psys" where
  "pipe_write t s = (case ring s of
     None \<Rightarrow> s
   | Some r \<Rightarrow>
       (case pcs s t of
          Wr_start src \<Rightarrow> if \<not> read_open r then goto t (Returned (- 1) []) s else goto t (Wr_loop src 0) s
        | Wr_loop src tot \<Rightarrow>
            if \<not> tot < length src then goto t (Returned (int tot) []) s
            else if count r < PIPE_BUF_SIZE
            then let (r', towrite) = ring_put (drop tot src) r
                 in goto t (Wr_loop src (tot + towrite))
                      (wake_reader r' (s\<lparr> accepted := accepted s @ take towrite (drop tot src) \<rparr>))
            else if \<not> read_open r then ret_errno t EPIPE s
            else goto t (Wr_sig src tot) s
        | Wr_sig src tot \<Rightarrow> if sig_pending s t then ret_errno t EINTR s else goto t (Wr_mark src tot) s
        | Wr_mark src tot \<Rightarrow> goto t (Wr_set src tot) (s\<lparr> ring := Some (r\<lparr> blocked_writer := Some t \<rparr>) \<rparr>)
        | Wr_set src tot \<Rightarrow> goto t (Wr_sleep src tot) (set_state t TASK_BLOCKED s)
        | Wr_sleep src tot \<Rightarrow> if tstate s t = TASK_READY then goto t (Wr_loop src tot) (set_state t TASK_RUNNING s) else s
        | _ \<Rightarrow> s))"

text \<open>\<open>pipe_close\<close> on the read end (\<open>True\<close>) or the write end; the ring is freed when both are closed.\<close>

definition pipe_close :: "bool \<Rightarrow> psys \<Rightarrow> psys" where
  "pipe_close read_end s = (case ring s of
     None \<Rightarrow> s
   | Some r \<Rightarrow> let r' = (if read_end then r\<lparr> read_open := False \<rparr> else r\<lparr> write_open := False \<rparr>)
               in s\<lparr> ring := (if \<not> read_open r' \<and> \<not> write_open r' then None else Some r') \<rparr>)"

inductive pipe_step :: "psys \<Rightarrow> psys \<Rightarrow> bool" where
  run_read: "pipe_step s (pipe_read t s)"
| run_write: "pipe_step s (pipe_write t s)"
| call_read: "pcs s t = Idle \<Longrightarrow> pipe_step s (goto t (Rd_check n) s)"
| call_write: "pcs s t = Idle \<Longrightarrow> pipe_step s (goto t (Wr_start src) s)"
| return_user: "pcs s t = Returned v out \<Longrightarrow> pipe_step s (goto t Idle s)"
| close_end: "pipe_step s (pipe_close e s)"
| signal: "pipe_step s (s\<lparr> sig_pending := (sig_pending s)(t := b) \<rparr>)"

definition empty_ring :: pipe_ring where
  "empty_ring = \<lparr> buf = replicate PIPE_BUF_SIZE 0, head = 0, tail = 0, count = 0, read_open = True, write_open = True,
     blocked_reader = None, blocked_writer = None \<rparr>"

definition pipe_start :: psys where
  "pipe_start = \<lparr> ring = Some empty_ring, tstate = (\<lambda>_. TASK_RUNNING), sig_pending = (\<lambda>_. False), t_errno = (\<lambda>_. 0),
     pcs = (\<lambda>_. Idle), accepted = [], delivered = [] \<rparr>"

section \<open>sys_pipe\<close>

text \<open>Rings and pipe inodes by address; an inode is its end (\<open>True\<close>: read) and its ring.\<close>

record pipefs =
  pfs :: fstate
  rings :: "nat \<rightharpoonup> pipe_ring"
  pinodes :: "nat \<rightharpoonup> bool \<times> nat"

text \<open>The file object of a pipe end is cleared by \<open>memset\<close> and gets its inode only.\<close>

definition pipe_file :: "nat \<Rightarrow> open_file" where
  "pipe_file i = \<lparr> f_inode = Some i, f_offset = 0, f_flags = 0, f_refcount = 0 \<rparr>"

definition new_file :: "nat \<Rightarrow> nat \<Rightarrow> fstate \<Rightarrow> fstate" where
  "new_file p i s = s\<lparr> files := (files s)(p \<mapsto> pipe_file i) \<rparr>"

definition free_file :: "nat \<Rightarrow> fstate \<Rightarrow> fstate" where
  "free_file p s = s\<lparr> files := (files s)(p := None) \<rparr>"

text \<open>The arguments are whether the user range is valid, whether \<open>copy_to_user\<close> succeeds and the results of
  the five calls of \<open>kmalloc\<close> (ring, inodes, files). The result has the pair written to user memory.\<close>

definition sys_pipe :: "nat option \<Rightarrow> bool \<Rightarrow> bool \<Rightarrow> nat option \<Rightarrow> nat option \<Rightarrow> nat option \<Rightarrow> nat option \<Rightarrow> nat option \<Rightarrow>
    pipefs \<Rightarrow> (pipefs \<times> int \<times> (int \<times> int) option) option" where
  "sys_pipe cur fds_ok copy_ok mring mri mwi mrf mwf s =
     (if \<not> fds_ok then Some (s, - 1, None)
      else case (mring, mri, mwi) of
        (Some a, Some ri, Some wi) \<Rightarrow>
          (case (mrf, mwf) of
             (Some rp, Some wp) \<Rightarrow>
               let f0 = new_file wp wi (new_file rp ri (pfs s));
                   (f1, rfd) = fd_alloc cur (Some rp) f0;
                   (f2, wfd) = fd_alloc cur (Some wp) f1
               in if rfd < 0 \<or> wfd < 0
                  then do {
                    f3 \<leftarrow> (if rfd \<ge> 0 then map_option fst (fd_close cur rfd f2) else Some (free_file rp f2));
                    f4 \<leftarrow> (if wfd \<ge> 0 then map_option fst (fd_close cur wfd f3) else Some (free_file wp f3));
                    Some (s\<lparr> pfs := f4, rings := (rings s)(a := None), pinodes := (pinodes s)(ri := None, wi := None) \<rparr>, - 1, None) }
                  else
                    let s1 = s\<lparr> pfs := f2, rings := (rings s)(a \<mapsto> empty_ring),
                                pinodes := (pinodes s)(ri \<mapsto> (True, a), wi \<mapsto> (False, a)) \<rparr>
                    in if \<not> copy_ok
                       then do {
                         (f3, _) \<leftarrow> fd_close cur rfd f2;
                         (f4, _) \<leftarrow> fd_close cur wfd f3;
                         Some (s1\<lparr> pfs := f4 \<rparr>, - 1, None) }
                       else Some (s1, 0, Some (rfd, wfd))
           | _ \<Rightarrow> Some (s, - 1, None))
      | _ \<Rightarrow> Some (s, - 1, None))"

section \<open>The ring implements a bounded byte queue\<close>

definition ring_inv :: "pipe_ring \<Rightarrow> bool" where
  "ring_inv r \<longleftrightarrow> length (buf r) = PIPE_BUF_SIZE \<and> head r < PIPE_BUF_SIZE \<and> count r \<le> PIPE_BUF_SIZE \<and>
     tail r = (head r + count r) mod PIPE_BUF_SIZE"

definition contents :: "pipe_ring \<Rightarrow> bytes" where
  "contents r = map (\<lambda>i. buf r ! ((head r + i) mod PIPE_BUF_SIZE)) [0..<count r]"

lemma PIPE_pos [simp]: "0 < PIPE_BUF_SIZE"
  by (simp add: PIPE_BUF_SIZE_def)

lemma nth_put_at:
  assumes "a + length xs \<le> length b" "i < length b"
  shows "put_at b a xs ! i = (if a \<le> i \<and> i < a + length xs then xs ! (i - a) else b ! i)"
  using assms by (auto simp: put_at_def nth_append)

lemma length_put_at: "a + length xs \<le> length b \<Longrightarrow> length (put_at b a xs) = length b"
  by (simp add: put_at_def)

lemma mod_wrap: "h < n \<Longrightarrow> i < n \<Longrightarrow> (h + i) mod n = (if h + i < n then h + i else h + i - n)" for h i n :: nat
  by (simp add: mod_if)

lemma ring_get_data:
  assumes "ring_inv r"
  shows "snd (ring_get n r) = take n (contents r)"
proof (rule nth_equalityI)
  have inv: "length (buf r) = PIPE_BUF_SIZE" "head r < PIPE_BUF_SIZE" "count r \<le> PIPE_BUF_SIZE"
    using assms by (simp_all add: ring_inv_def)
  show len: "length (snd (ring_get n r)) = length (take n (contents r))"
    using inv by (simp add: ring_get_def Let_def contents_def)
  fix i
  assume "i < length (snd (ring_get n r))"
  then have "i < n" "i < count r" using len by (simp_all add: contents_def)
  then show "snd (ring_get n r) ! i = take n (contents r) ! i"
    using inv by (auto simp: ring_get_def Let_def contents_def nth_append mod_wrap add.commute)
qed

lemma ring_get_contents:
  assumes "ring_inv r"
  shows "contents (fst (ring_get n r)) = drop n (contents r)" "ring_inv (fst (ring_get n r))"
proof -
  have inv: "length (buf r) = PIPE_BUF_SIZE" "head r < PIPE_BUF_SIZE" "count r \<le> PIPE_BUF_SIZE"
      "tail r = (head r + count r) mod PIPE_BUF_SIZE"
    using assms by (simp_all add: ring_inv_def)
  define k where "k = min n (count r)"
  have r: "fst (ring_get n r) = r\<lparr> head := (head r + k) mod PIPE_BUF_SIZE, count := count r - k \<rparr>"
    by (simp add: ring_get_def Let_def k_def)
  show "contents (fst (ring_get n r)) = drop n (contents r)"
  proof (rule nth_equalityI)
    show len: "length (contents (fst (ring_get n r))) = length (drop n (contents r))"
      by (simp add: r contents_def k_def)
    fix i
    assume "i < length (contents (fst (ring_get n r)))"
    then have "i < count r - k" "n + i < count r" "k = n" by (auto simp: r contents_def k_def)
    then show "contents (fst (ring_get n r)) ! i = drop n (contents r) ! i"
      by (simp add: r contents_def mod_add_left_eq add.assoc)
  qed
  have "((head r + k) mod PIPE_BUF_SIZE + (count r - k)) mod PIPE_BUF_SIZE = (head r + count r) mod PIPE_BUF_SIZE"
    using mod_add_left_eq [of "head r + k" PIPE_BUF_SIZE "count r - k"] by (simp add: k_def)
  then show "ring_inv (fst (ring_get n r))" using inv by (simp add: r ring_inv_def)
qed

text \<open>The two copies of \<open>pipe_write\<close> put the bytes in the cells after the tail, cyclically.\<close>

lemma ring_put_buf:
  assumes "length b = PIPE_BUF_SIZE" "t < PIPE_BUF_SIZE" "w \<le> length src" "w \<le> PIPE_BUF_SIZE" "j < PIPE_BUF_SIZE"
    and f: "f = (if PIPE_BUF_SIZE - t > w then w else PIPE_BUF_SIZE - t)"
    and b2: "b2 = (if w > f then put_at (put_at b t (take f src)) 0 (take (w - f) (drop f src)) else put_at b t (take f src))"
  shows "b2 ! j = (if t \<le> j \<and> j - t < w then src ! (j - t) else if j < t \<and> j + PIPE_BUF_SIZE - t < w then src ! (j + PIPE_BUF_SIZE - t) else b ! j)"
    "length b2 = PIPE_BUF_SIZE"
proof -
  have f': "f \<le> w" "t + f \<le> PIPE_BUF_SIZE" "w > f \<Longrightarrow> f = PIPE_BUF_SIZE - t" using assms(2) by (auto simp: f)
  define b1 where "b1 = put_at b t (take f src)"
  have l1: "length b1 = PIPE_BUF_SIZE" unfolding b1_def using length_put_at [of t "take f src" b] assms(1,3) f' by simp
  have n1: "b1 ! i = (if t \<le> i \<and> i < t + f then src ! (i - t) else b ! i)" if "i < PIPE_BUF_SIZE" for i
    unfolding b1_def using nth_put_at [of t "take f src" b i] that assms(1,3) f' by auto
  show "length b2 = PIPE_BUF_SIZE"
    unfolding b2 b1_def [symmetric] using l1 length_put_at [of 0 "take (w - f) (drop f src)" b1] assms(3,4) by simp
  have n2: "put_at b1 0 (take (w - f) (drop f src)) ! j = (if j < w - f then src ! (f + j) else b1 ! j)"
    using nth_put_at [of 0 "take (w - f) (drop f src)" b1 j] l1 assms(3,4,5) by simp
  show "b2 ! j = (if t \<le> j \<and> j - t < w then src ! (j - t) else if j < t \<and> j + PIPE_BUF_SIZE - t < w then src ! (j + PIPE_BUF_SIZE - t) else b ! j)"
  proof (cases "w > f")
    case True
    then have "f + j = j + PIPE_BUF_SIZE - t" "w \<le> PIPE_BUF_SIZE" using f'(3) assms(2,4) by simp_all
    then show ?thesis unfolding b2 b1_def [symmetric] using True n2 n1 [OF assms(5)] f'(3) assms(2,5) by auto
  next
    case False
    then have "f = w" "t + w \<le> PIPE_BUF_SIZE" using f' by simp_all
    then show ?thesis unfolding b2 b1_def [symmetric] using False n1 [OF assms(5)] by auto
  qed
qed

lemma ring_put_contents:
  assumes "ring_inv r"
  shows "contents (fst (ring_put src r)) = contents r @ take (snd (ring_put src r)) src" "ring_inv (fst (ring_put src r))"
    "snd (ring_put src r) = min (length src) (PIPE_BUF_SIZE - count r)"
proof -
  have inv: "length (buf r) = PIPE_BUF_SIZE" "head r < PIPE_BUF_SIZE" "count r \<le> PIPE_BUF_SIZE"
      "tail r = (head r + count r) mod PIPE_BUF_SIZE"
    using assms by (simp_all add: ring_inv_def)
  define w where "w = min (length src) (PIPE_BUF_SIZE - count r)"
  define f where "f = (if PIPE_BUF_SIZE - tail r > w then w else PIPE_BUF_SIZE - tail r)"
  define b2 where "b2 = (if w > f then put_at (put_at (buf r) (tail r) (take f src)) 0 (take (w - f) (drop f src))
     else put_at (buf r) (tail r) (take f src))"
  have w: "(if length src > PIPE_BUF_SIZE - count r then PIPE_BUF_SIZE - count r else length src) = w" by (simp add: w_def)
  have r: "ring_put src r = (r\<lparr> buf := b2, tail := (tail r + w) mod PIPE_BUF_SIZE, count := count r + w \<rparr>, w)"
    unfolding ring_put_def Let_def w f_def [symmetric] b2_def ..
  have wl: "w \<le> length src" "w \<le> PIPE_BUF_SIZE" "count r + w \<le> PIPE_BUF_SIZE" "tail r < PIPE_BUF_SIZE"
    using inv by (simp_all add: w_def)
  note b = ring_put_buf [OF inv(1) wl(4,1,2) _ f_def b2_def]
  show "snd (ring_put src r) = min (length src) (PIPE_BUF_SIZE - count r)" by (simp add: r w_def)
  have "(tail r + w) mod PIPE_BUF_SIZE = (head r + (count r + w)) mod PIPE_BUF_SIZE"
    by (simp add: inv(4) mod_add_left_eq add.assoc)
  then show "ring_inv (fst (ring_put src r))" using inv wl b(2) [of 0] by (simp add: r ring_inv_def)
  show "contents (fst (ring_put src r)) = contents r @ take (snd (ring_put src r)) src"
  proof (rule nth_equalityI)
    show "length (contents (fst (ring_put src r))) = length (contents r @ take (snd (ring_put src r)) src)"
      using wl by (simp add: r contents_def)
    fix i
    assume "i < length (contents (fst (ring_put src r)))"
    then have i: "i < count r + w" by (simp add: r contents_def)
    have "b2 ! ((head r + i) mod PIPE_BUF_SIZE) = (if i < count r then buf r ! ((head r + i) mod PIPE_BUF_SIZE) else src ! (i - count r))"
    proof -
      have j: "(head r + i) mod PIPE_BUF_SIZE = (if head r + i < PIPE_BUF_SIZE then head r + i else head r + i - PIPE_BUF_SIZE)"
        using mod_wrap [OF inv(2)] i wl(3) by simp
      have t: "tail r = (if head r + count r < PIPE_BUF_SIZE then head r + count r else head r + count r - PIPE_BUF_SIZE)"
        using inv(2-4) by (simp add: mod_if)
      have "(head r + i) mod PIPE_BUF_SIZE < PIPE_BUF_SIZE" by simp
      from b(1) [OF this] show ?thesis using i wl(3,4) inv(2,3) unfolding j t by (cases "i < count r") (auto split: if_splits)
    qed
    then show "contents (fst (ring_put src r)) ! i = (contents r @ take (snd (ring_put src r)) src) ! i"
      using i by (simp add: r contents_def nth_append)
  qed
qed

section \<open>Interleavings\<close>

text \<open>The bytes delivered followed by the bytes in the ring are the bytes accepted.\<close>

definition pipe_inv :: "psys \<Rightarrow> bool" where
  "pipe_inv s \<longleftrightarrow> (case ring s of
     None \<Rightarrow> \<exists>lost. accepted s = delivered s @ lost
   | Some r \<Rightarrow> ring_inv r \<and> accepted s = delivered s @ contents r)"

lemma ring_flags [simp]:
  "contents (r\<lparr> read_open := a \<rparr>) = contents r" "contents (r\<lparr> write_open := a \<rparr>) = contents r"
  "contents (r\<lparr> blocked_reader := b \<rparr>) = contents r" "contents (r\<lparr> blocked_writer := b \<rparr>) = contents r"
  "ring_inv (r\<lparr> read_open := a \<rparr>) = ring_inv r" "ring_inv (r\<lparr> write_open := a \<rparr>) = ring_inv r"
  "ring_inv (r\<lparr> blocked_reader := b \<rparr>) = ring_inv r" "ring_inv (r\<lparr> blocked_writer := b \<rparr>) = ring_inv r"
  by (simp_all add: contents_def ring_inv_def)

lemma step_fields [simp]:
  "ring (goto t p s) = ring s" "ring (set_state t v s) = ring s" "ring (ret_errno t e s) = ring s"
  "accepted (goto t p s) = accepted s" "accepted (set_state t v s) = accepted s" "accepted (ret_errno t e s) = accepted s"
  "delivered (goto t p s) = delivered s" "delivered (set_state t v s) = delivered s" "delivered (ret_errno t e s) = delivered s"
  by (simp_all add: goto_def set_state_def ret_errno_def)

lemma pipe_inv_step [simp]:
  "pipe_inv (goto t p s) = pipe_inv s" "pipe_inv (set_state t v s) = pipe_inv s" "pipe_inv (ret_errno t e s) = pipe_inv s"
  by (simp_all add: pipe_inv_def split: option.split)

lemma pipe_inv_flag [simp]:
  "pipe_inv (s\<lparr> ring := Some (r\<lparr> blocked_writer := b \<rparr>) \<rparr>) = pipe_inv (s\<lparr> ring := Some r \<rparr>)"
  "pipe_inv (s\<lparr> ring := Some (r\<lparr> blocked_reader := b \<rparr>) \<rparr>) = pipe_inv (s\<lparr> ring := Some r \<rparr>)"
  by (simp_all add: pipe_inv_def)

lemma wake_inv [simp]:
  "pipe_inv (wake_writer r s) = pipe_inv (s\<lparr> ring := Some r \<rparr>)" "pipe_inv (wake_reader r s) = pipe_inv (s\<lparr> ring := Some r \<rparr>)"
  by (simp_all add: wake_writer_def wake_reader_def split: option.split)

lemma pipe_read_inv:
  assumes "pipe_inv s"
  shows "pipe_inv (pipe_read t s)"
proof (cases "ring s")
  case (Some r)
  then have r: "ring_inv r" "accepted s = delivered s @ contents r" using assms by (simp_all add: pipe_inv_def)
  have "pipe_inv (s\<lparr> delivered := delivered s @ snd (ring_get n r), ring := Some (fst (ring_get n r)) \<rparr>)" for n
    using ring_get_contents [OF r(1)] ring_get_data [OF r(1)] r(2) by (simp add: pipe_inv_def)
  moreover have "pipe_inv (s\<lparr> ring := Some r \<rparr>)" using r by (simp add: pipe_inv_def)
  ultimately show ?thesis using Some assms by (simp add: pipe_read_def case_prod_beta Let_def split: pc.split)
qed (simp add: pipe_read_def assms)

lemma pipe_write_inv:
  assumes "pipe_inv s"
  shows "pipe_inv (pipe_write t s)"
proof (cases "ring s")
  case (Some r)
  then have r: "ring_inv r" "accepted s = delivered s @ contents r" using assms by (simp_all add: pipe_inv_def)
  have "pipe_inv (s\<lparr> accepted := accepted s @ take (snd (ring_put src r)) src, ring := Some (fst (ring_put src r)) \<rparr>)" for src
    using ring_put_contents [OF r(1)] r(2) by (simp add: pipe_inv_def)
  moreover have "pipe_inv (s\<lparr> ring := Some r \<rparr>)" using r by (simp add: pipe_inv_def)
  ultimately show ?thesis using Some assms by (simp add: pipe_write_def case_prod_beta Let_def split: pc.split)
qed (simp add: pipe_write_def assms)

lemma pipe_step_inv: "pipe_step s s' \<Longrightarrow> pipe_inv s \<Longrightarrow> pipe_inv s'"
proof (induction rule: pipe_step.induct)
  case (close_end s e)
  then show ?case by (auto simp: pipe_close_def pipe_inv_def Let_def split: option.splits)
next
  case (signal s t b)
  then show ?case by (simp add: pipe_inv_def split: option.splits)
qed (simp_all add: pipe_read_inv pipe_write_inv)

lemma pipe_start_inv: "pipe_inv pipe_start"
  by (simp add: pipe_inv_def pipe_start_def empty_ring_def ring_inv_def contents_def)

lemma pipe_reach_inv: "pipe_step\<^sup>*\<^sup>* pipe_start s \<Longrightarrow> pipe_inv s"
  by (induction rule: rtranclp_induct) (auto intro: pipe_start_inv pipe_step_inv)

section \<open>Byte queues\<close>

text \<open>What the read and write loops rely on: an abstract bounded queue of bytes.\<close>

locale byte_queue =
  fixes inv :: "'s \<Rightarrow> bool" and abs :: "'s \<Rightarrow> bytes" and cap :: nat
    and get :: "nat \<Rightarrow> 's \<Rightarrow> 's \<times> bytes" and put :: "bytes \<Rightarrow> 's \<Rightarrow> 's \<times> nat"
  assumes get_inv: "inv s \<Longrightarrow> inv (fst (get n s))"
    and get_abs: "inv s \<Longrightarrow> abs (fst (get n s)) = drop n (abs s)"
    and get_out: "inv s \<Longrightarrow> snd (get n s) = take n (abs s)"
    and put_inv: "inv s \<Longrightarrow> inv (fst (put xs s))"
    and put_abs: "inv s \<Longrightarrow> abs (fst (put xs s)) = abs s @ take (snd (put xs s)) xs"
    and put_len: "inv s \<Longrightarrow> snd (put xs s) = min (length xs) (cap - length (abs s))"
begin

text \<open>Any sequence of puts and gets: the bytes put in are the bytes got out followed by those that stay.\<close>

fun run :: "(bytes + nat) list \<Rightarrow> 's \<Rightarrow> 's \<times> bytes \<times> bytes" where
  "run [] s = (s, [], [])"
| "run (Inl xs # ops) s = (let (s', n) = put xs s; (s'', i, ou) = run ops s' in (s'', take n xs @ i, ou))"
| "run (Inr n # ops) s = (let (s', ys) = get n s; (s'', i, ou) = run ops s' in (s'', i, ys @ ou))"

lemma run_fifo: "inv s \<Longrightarrow> abs s @ fst (snd (run ops s)) = snd (snd (run ops s)) @ abs (fst (run ops s)) \<and> inv (fst (run ops s))"
proof (induction ops arbitrary: s)
  case (Cons a ops)
  show ?case
  proof (cases a)
    case (Inl xs)
    show ?thesis using Cons.IH [OF put_inv [OF Cons.prems, of xs]] put_abs [OF Cons.prems, of xs] Inl
      by (simp add: case_prod_beta Let_def)
  next
    case (Inr n)
    let ?u = "fst (get n s)"
    have "abs s = take n (abs s) @ abs ?u" by (simp add: get_abs [OF Cons.prems])
    then have "abs s @ fst (snd (run ops ?u)) = take n (abs s) @ abs ?u @ fst (snd (run ops ?u))" by (metis append.assoc)
    then show ?thesis using Cons.IH [OF get_inv [OF Cons.prems, of n]] get_out [OF Cons.prems, of n] Inr
      by (simp add: case_prod_beta Let_def)
  qed
qed simp

lemma put_then_get:
  assumes "inv s" "abs s = []" "length xs \<le> cap"
  shows "snd (get (length xs) (fst (put xs s))) = xs"
  using assms get_out [OF put_inv] put_abs put_len by simp

end

interpretation pq: byte_queue ring_inv contents PIPE_BUF_SIZE ring_get ring_put
proof
  fix r :: pipe_ring and xs n
  assume r: "ring_inv r"
  show "ring_inv (fst (ring_get n r))" "contents (fst (ring_get n r)) = drop n (contents r)"
      "snd (ring_get n r) = take n (contents r)"
    using ring_get_contents [OF r] ring_get_data [OF r] by simp_all
  show "ring_inv (fst (ring_put xs r))" "contents (fst (ring_put xs r)) = contents r @ take (snd (ring_put xs r)) xs"
    using ring_put_contents [OF r] by simp_all
  show "snd (ring_put xs r) = min (length xs) (PIPE_BUF_SIZE - length (contents r))"
    using ring_put_contents(3) [OF r] by (simp add: contents_def)
qed

section \<open>Properties\<close>

text \<open>C17: The ring buffer with its two-chunk copies implements a queue of at most 4096 bytes: a read takes
  the oldest bytes, a write appends as many bytes as there is space for, and both keep the invariant.\<close>

theorem pipe_ring_queue:
  assumes "ring_inv r"
  shows "ring_inv (fst (ring_get n r)) \<and> snd (ring_get n r) = take n (contents r) \<and>
    contents (fst (ring_get n r)) = drop n (contents r) \<and>
    ring_inv (fst (ring_put src r)) \<and> contents (fst (ring_put src r)) = contents r @ take (snd (ring_put src r)) src \<and>
    snd (ring_put src r) = min (length src) (PIPE_BUF_SIZE - length (contents r))"
  using pq.get_inv [OF assms] pq.get_abs [OF assms] pq.get_out [OF assms] pq.put_inv [OF assms] pq.put_abs [OF assms]
    pq.put_len [OF assms] by simp

theorem pipe_ring_queue_witness:
  "ring_inv empty_ring \<and> contents (fst (ring_put [1, 2, 3] empty_ring)) = [1, 2, 3]"
proof -
  have r: "ring_inv empty_ring" "contents empty_ring = []" by (simp_all add: empty_ring_def ring_inv_def contents_def)
  show ?thesis using pipe_ring_queue [OF r(1), of 0 "[1, 2, 3]"] r by (simp add: PIPE_BUF_SIZE_def)
qed


definition wrote_three :: psys where
  "wrote_three = pipe_write 2 (pipe_write 2 (goto 2 (Wr_start [1, 2, 3]) pipe_start))"

lemmas step_on = rtranclp.rtrancl_into_rtrancl [of pipe_step]

lemma wrote_three_reach: "pipe_step\<^sup>*\<^sup>* pipe_start wrote_three"
proof -
  have "pipe_step\<^sup>*\<^sup>* pipe_start (goto 2 (Wr_start [1, 2, 3]) pipe_start)"
    by (rule r_into_rtranclp, rule call_write) (simp add: pipe_start_def)
  from step_on [OF step_on [OF this run_write] run_write, of 2 2] show ?thesis by (simp add: wrote_three_def)
qed


text \<open>The reader registers itself under the lock but sets its state after releasing it; a write between the
  two does not wake it. The state after the reader has gone to sleep, and the steps that lead to it.\<close>

definition lw1 :: psys where "lw1 = pipe_read 1 (pipe_read 1 (goto 1 (Rd_check 1) pipe_start))"
definition lw2 :: psys where "lw2 = pipe_write 2 (pipe_write 2 (pipe_write 2 (goto 2 (Wr_start [65]) lw1)))"
definition lw3 :: psys where "lw3 = pipe_read 1 (goto 2 Idle lw2)"

lemma lw1_eq: "lw1 = pipe_start\<lparr> ring := Some (empty_ring\<lparr> blocked_reader := Some 1 \<rparr>), pcs := (pcs pipe_start)(1 := Rd_set 1) \<rparr>"
  by (simp add: lw1_def pipe_read_def pipe_start_def goto_def empty_ring_def)

lemma lw2_eq:
  "lw2 = lw1\<lparr> ring := Some (fst (ring_put [65] (empty_ring\<lparr> blocked_reader := Some 1 \<rparr>))), accepted := [65],
    pcs := (pcs lw1)(2 := Returned 1 []) \<rparr>"
  by (simp add: lw2_def pipe_write_def lw1_eq pipe_start_def goto_def empty_ring_def ring_put_def wake_reader_def PIPE_BUF_SIZE_def)

lemma lw3_eq: "lw3 = lw2\<lparr> pcs := (pcs lw2)(1 := Rd_sleep 1, 2 := Idle), tstate := (tstate lw2)(1 := TASK_BLOCKED) \<rparr>"
  by (simp add: lw3_def pipe_read_def lw2_eq lw1_eq pipe_start_def goto_def set_state_def fun_upd_twist)

lemma lw3_reach: "pipe_step\<^sup>*\<^sup>* pipe_start lw3"
proof -
  have "pipe_step\<^sup>*\<^sup>* pipe_start (goto 1 (Rd_check 1) pipe_start)"
    by (rule r_into_rtranclp, rule call_read) (simp add: pipe_start_def)
  from step_on [OF step_on [OF this run_read] run_read, of 1 1] have 1: "pipe_step\<^sup>*\<^sup>* pipe_start lw1"
    by (simp add: lw1_def)
  have "pcs lw1 2 = Idle" by (simp add: lw1_eq pipe_start_def)
  from step_on [OF step_on [OF step_on [OF step_on [OF 1 call_write [OF this]] run_write] run_write] run_write]
  have 2: "pipe_step\<^sup>*\<^sup>* pipe_start lw2" unfolding lw2_def .
  have "pcs lw2 2 = Returned 1 []" by (simp add: lw2_eq)
  from step_on [OF step_on [OF 2 return_user [OF this]] run_read, of 1] show ?thesis by (simp add: lw3_def)
qed


lemma fd_close_zero:
  assumes "i < MAX_FDS" "fd_table s t ! i = File_ptr p" "files s p = Some (pipe_file j)"
  shows "fd_close (Some t) (int i) s = Some (set_slot t i Unused s, 0)"
  using assms by (simp add: fd_close_def fd_get_def fd_slot_int vfs_close_def pipe_file_def)

lemma sys_pipe_fds:
  assumes "sys_pipe (Some t) True True (Some a) (Some ri) (Some wi) (Some rp) (Some wp) s = Some (s', 0, Some (rfd, wfd))"
    "tables_ok (pfs s)"
  shows "\<exists>i j. rfd = int i \<and> wfd = int j \<and> i < MAX_FDS \<and> j < MAX_FDS \<and> i \<noteq> j \<and> fd_table (pfs s) t ! i = Unused \<and>
    fd_table (pfs s) t ! j = Unused \<and> rings s' a = Some empty_ring \<and>
    pfs s' = set_slot t j (File_ptr wp) (set_slot t i (File_ptr rp) (new_file wp wi (new_file rp ri (pfs s))))"
proof -
  let ?f = "new_file wp wi (new_file rp ri (pfs s))"
  have ok: "tables_ok ?f" "fd_table ?f = fd_table (pfs s)" using assms(2) by (simp_all add: new_file_def tables_ok_def)
  obtain i where i: "free_slot (fd_table ?f t) = Some i" "rfd = int i"
    using assms(1) by (auto simp: sys_pipe_def fd_alloc_def slot_alloc_def Let_def split: option.splits if_splits bind_splits)
  note iM = free_slot_inv [OF ok(1) i(1)]
  let ?g = "set_slot t i (File_ptr rp) ?f"
  note g = set_slot_tables [OF ok(1), of t i "File_ptr rp"]
  obtain j where j: "free_slot (fd_table ?g t) = Some j" "wfd = int j"
    using assms(1) i by (auto simp: sys_pipe_def fd_alloc_def slot_alloc_def Let_def split: option.splits if_splits bind_splits)
  note jM = free_slot_inv [OF g j(1)]
  have s': "pfs s' = set_slot t j (File_ptr wp) ?g" "rings s' a = Some empty_ring"
    using assms(1) i(1) j(1) by (auto simp: sys_pipe_def fd_alloc_def slot_alloc_def Let_def split: if_splits bind_splits)
  have "i \<noteq> j" "fd_table ?f t ! j = Unused" using jM slot_set_slot [OF ok(1) iM(1), of t "File_ptr rp" t j] by (auto split: if_splits)
  then show ?thesis using i j iM jM s' ok(2) by auto
qed

text \<open>\<open>sys_pipe\<close> leaves the reference counts of its files zero: closing both descriptors clears the table
  entries but calls no close function and frees nothing, so the ring stays allocated with both ends open
  and a reader never sees the end of the file.\<close>

theorem pipe_ends_never_closed:
  assumes "sys_pipe (Some t) True True (Some a) (Some ri) (Some wi) (Some rp) (Some wp) s = Some (s', 0, Some (rfd, wfd))"
    "tables_ok (pfs s)" "rp \<noteq> wp"
  shows "\<exists>f1 f2. fd_close (Some t) rfd (pfs s') = Some (f1, 0) \<and> fd_close (Some t) wfd f1 = Some (f2, 0) \<and>
    fd_table f2 t = fd_table (pfs s) t \<and> files f2 rp = Some (pipe_file ri) \<and> files f2 wp = Some (pipe_file wi) \<and>
    close_log f2 = close_log (pfs s) \<and> rings s' a = Some empty_ring"
proof -
  obtain i j where ij: "rfd = int i" "wfd = int j" "i < MAX_FDS" "j < MAX_FDS" "i \<noteq> j" "fd_table (pfs s) t ! i = Unused"
      "fd_table (pfs s) t ! j = Unused" "rings s' a = Some empty_ring"
      "pfs s' = set_slot t j (File_ptr wp) (set_slot t i (File_ptr rp) (new_file wp wi (new_file rp ri (pfs s))))"
    using sys_pipe_fds [OF assms(1,2)] by blast
  let ?f = "new_file wp wi (new_file rp ri (pfs s))"
  have len: "length (fd_table (pfs s) t) = MAX_FDS" using assms(2) by (simp add: tables_ok_def)
  have tab: "fd_table ?f = fd_table (pfs s)" "files ?f = (files (pfs s))(rp \<mapsto> pipe_file ri, wp \<mapsto> pipe_file wi)" "close_log ?f = close_log (pfs s)"
    by (simp_all add: new_file_def)
  define f1 where "f1 = set_slot t i Unused (pfs s')"
  have f: "files (pfs s') rp = Some (pipe_file ri)" "files f1 wp = Some (pipe_file wi)" "files f1 rp = Some (pipe_file ri)"
    using assms(3) by (simp_all add: f1_def ij(9) tab)
  have slots: "fd_table (pfs s') t ! i = File_ptr rp" "fd_table f1 t ! j = File_ptr wp"
    using ij(3-5) len by (simp_all add: f1_def ij(9) set_slot_def new_file_def)
  have "fd_table (set_slot t j Unused f1) t = fd_table (pfs s) t"
    using ij(3-7) len by (auto simp: f1_def ij(9) set_slot_def new_file_def list_eq_iff_nth_eq nth_list_update)
  then show ?thesis
    using fd_close_zero [OF ij(3) slots(1) f(1)] fd_close_zero [OF ij(4) slots(2) f(2)] f ij(1,2,8) tab(3)
    by (auto simp: f1_def ij(9))
qed

theorem pipe_ends_never_closed_witness:
  "\<exists>s' rfd wfd. sys_pipe (Some 7) True True (Some 1) (Some 2) (Some 3) (Some 4) (Some 5)
      \<lparr> pfs = no_files, rings = Map.empty, pinodes = Map.empty \<rparr> = Some (s', 0, Some (rfd, wfd)) \<and>
    (\<exists>f1 f2. fd_close (Some 7) rfd (pfs s') = Some (f1, 0) \<and> fd_close (Some 7) wfd f1 = Some (f2, 0) \<and> files f2 4 = Some (pipe_file 2))"
proof -
  let ?s = "\<lparr> pfs = no_files, rings = Map.empty, pinodes = Map.empty \<rparr>"
  obtain s' rfd wfd where s: "sys_pipe (Some 7) True True (Some 1) (Some 2) (Some 3) (Some 4) (Some 5) ?s = Some (s', 0, Some (rfd, wfd))"
    by (simp add: sys_pipe_def new_file_def files_code)
  have "tables_ok (pfs ?s)" by (simp add: tables_ok_def no_files_def)
  from pipe_ends_never_closed [OF s this] s show ?thesis by auto
qed

end
