(* ===== verification/RBTree.thy ===== *)
theory RBTree
  imports Prelude "HOL-Library.Tree"
begin

text \<open>
  The red-black tree of the scheduler, \<open>kernel/rbtree.c\<close> and \<open>kernel/rbtree.h\<close>, at the level of
  pointers: nodes with parent links that the code updates in place.

  A pointer is a natural number and NULL is 0. The nodes are embedded in task structures that outlive the
  tree, so the heap is a total function from pointers; a NULL pointer that the code would dereference is
  the value \<^const>\<open>None\<close>. The loops are partial functions: that they return is part of what is proved.
\<close>

section \<open>Nodes\<close>

datatype color = RB_RED | RB_BLACK

record rb_node =
  rb_color :: color
  rb_parent :: nat
  rb_left :: nat
  rb_right :: nat
  rb_key :: u64

record rbt =
  rb_root :: nat
  nodes :: "nat \<Rightarrow> rb_node"

definition upd :: "nat \<Rightarrow> (rb_node \<Rightarrow> rb_node) \<Rightarrow> rbt \<Rightarrow> rbt" where
  "upd p f s = s\<lparr> nodes := (nodes s)(p := f (nodes s p)) \<rparr>"

abbreviation set_color :: "nat \<Rightarrow> color \<Rightarrow> rbt \<Rightarrow> rbt" where "set_color p c \<equiv> upd p (rb_color_update (\<lambda>_. c))"
abbreviation set_parent :: "nat \<Rightarrow> nat \<Rightarrow> rbt \<Rightarrow> rbt" where "set_parent p q \<equiv> upd p (rb_parent_update (\<lambda>_. q))"
abbreviation set_left :: "nat \<Rightarrow> nat \<Rightarrow> rbt \<Rightarrow> rbt" where "set_left p q \<equiv> upd p (rb_left_update (\<lambda>_. q))"
abbreviation set_right :: "nat \<Rightarrow> nat \<Rightarrow> rbt \<Rightarrow> rbt" where "set_right p q \<equiv> upd p (rb_right_update (\<lambda>_. q))"

definition rb_is_red :: "rbt \<Rightarrow> nat \<Rightarrow> bool" where
  "rb_is_red s r \<longleftrightarrow> r \<noteq> 0 \<and> rb_color (nodes s r) = RB_RED"

definition rb_is_black :: "rbt \<Rightarrow> nat \<Rightarrow> bool" where
  "rb_is_black s r \<longleftrightarrow> r = 0 \<or> rb_color (nodes s r) = RB_BLACK"

definition rb_set_red :: "nat \<Rightarrow> rbt \<Rightarrow> rbt" where
  "rb_set_red p s = (if p \<noteq> 0 then set_color p RB_RED s else s)"

definition rb_set_black :: "nat \<Rightarrow> rbt \<Rightarrow> rbt" where
  "rb_set_black p s = (if p \<noteq> 0 then set_color p RB_BLACK s else s)"

definition rb_init :: "rbt \<Rightarrow> rbt" where
  "rb_init s = s\<lparr> rb_root := 0 \<rparr>"

section \<open>Rotations\<close>

definition rb_rotate_left :: "nat \<Rightarrow> rbt \<Rightarrow> rbt" where
  "rb_rotate_left x s =
     (let y = rb_right (nodes s x)
      in if y = 0 then s
         else
           let s1 = set_right x (rb_left (nodes s y)) s;
               s2 = (if rb_left (nodes s1 y) \<noteq> 0 then set_parent (rb_left (nodes s1 y)) x s1 else s1);
               s3 = set_parent y (rb_parent (nodes s2 x)) s2;
               q = rb_parent (nodes s3 x);
               s4 = (if q = 0 then s3\<lparr> rb_root := y \<rparr>
                     else if x = rb_left (nodes s3 q) then set_left q y s3
                     else set_right q y s3);
               s5 = set_left y x s4
           in set_parent x y s5)"

definition rb_rotate_right :: "nat \<Rightarrow> rbt \<Rightarrow> rbt" where
  "rb_rotate_right y s =
     (let x = rb_left (nodes s y)
      in if x = 0 then s
         else
           let s1 = set_left y (rb_right (nodes s x)) s;
               s2 = (if rb_right (nodes s1 x) \<noteq> 0 then set_parent (rb_right (nodes s1 x)) y s1 else s1);
               s3 = set_parent x (rb_parent (nodes s2 y)) s2;
               q = rb_parent (nodes s3 y);
               s4 = (if q = 0 then s3\<lparr> rb_root := x \<rparr>
                     else if y = rb_left (nodes s3 q) then set_left q x s3
                     else set_right q x s3);
               s5 = set_right x y s4
           in set_parent y x s5)"

section \<open>Insertion\<close>

partial_function (option) insert_fixup_loop :: "nat \<Rightarrow> rbt \<Rightarrow> rbt option" where
  "insert_fixup_loop node s =
     (let parent = rb_parent (nodes s node)
      in if \<not> rb_is_red s parent then Some s
         else
           let grandparent = rb_parent (nodes s parent)
           in if grandparent = 0 then Some s
              else if parent = rb_left (nodes s grandparent) then
                let uncle = rb_right (nodes s grandparent)
                in if rb_is_red s uncle
                   then insert_fixup_loop grandparent (rb_set_red grandparent (rb_set_black uncle (rb_set_black parent s)))
                   else if node = rb_right (nodes s parent)
                   then let s1 = rb_rotate_left parent s;
                            parent1 = rb_parent (nodes s1 parent)
                        in insert_fixup_loop parent
                             (rb_rotate_right grandparent (rb_set_red grandparent (rb_set_black parent1 s1)))
                   else insert_fixup_loop node
                          (rb_rotate_right grandparent (rb_set_red grandparent (rb_set_black parent s)))
              else
                let uncle = rb_left (nodes s grandparent)
                in if rb_is_red s uncle
                   then insert_fixup_loop grandparent (rb_set_red grandparent (rb_set_black uncle (rb_set_black parent s)))
                   else if node = rb_left (nodes s parent)
                   then let s1 = rb_rotate_right parent s;
                            parent1 = rb_parent (nodes s1 parent)
                        in insert_fixup_loop parent
                             (rb_rotate_left grandparent (rb_set_red grandparent (rb_set_black parent1 s1)))
                   else insert_fixup_loop node
                          (rb_rotate_left grandparent (rb_set_red grandparent (rb_set_black parent s))))"

definition rb_insert_fixup :: "nat \<Rightarrow> rbt \<Rightarrow> rbt option" where
  "rb_insert_fixup node s = map_option (\<lambda>s'. rb_set_black (rb_root s') s') (insert_fixup_loop node s)"

text \<open>The descent of \<open>rb_insert\<close>. The pointer to a link is its owner (0: the root pointer) and its side.\<close>

partial_function (option) insert_descend :: "rbt \<Rightarrow> u64 \<Rightarrow> nat \<Rightarrow> bool \<Rightarrow> nat \<Rightarrow> (nat \<times> bool) option" where
  "insert_descend s k parent lft p =
     (if p = 0 then Some (parent, lft)
      else if k < rb_key (nodes s p) then insert_descend s k p True (rb_left (nodes s p))
      else insert_descend s k p False (rb_right (nodes s p)))"

definition store_link :: "nat \<Rightarrow> bool \<Rightarrow> nat \<Rightarrow> rbt \<Rightarrow> rbt" where
  "store_link parent lft v s =
     (if parent = 0 then s\<lparr> rb_root := v \<rparr> else if lft then set_left parent v s else set_right parent v s)"

definition rb_insert :: "nat \<Rightarrow> rbt \<Rightarrow> rbt option" where
  "rb_insert node s =
     (if node = 0 then Some s
      else case insert_descend s (rb_key (nodes s node)) 0 True (rb_root s) of
             None \<Rightarrow> None
           | Some (parent, lft) \<Rightarrow>
               rb_insert_fixup node (store_link parent lft node
                 (upd node (\<lambda>n. n\<lparr> rb_parent := parent, rb_left := 0, rb_right := 0, rb_color := RB_RED \<rparr>) s)))"

section \<open>Deletion\<close>

definition rb_transplant :: "nat \<Rightarrow> nat \<Rightarrow> rbt \<Rightarrow> rbt" where
  "rb_transplant u v s =
     (let q = rb_parent (nodes s u);
          s1 = (if q = 0 then s\<lparr> rb_root := v \<rparr>
                else if u = rb_left (nodes s q) then set_left q v s
                else set_right q v s)
      in if v \<noteq> 0 then set_parent v (rb_parent (nodes s1 u)) s1 else s1)"

text \<open>Cases 1, 3 and 4 of the loop body, for \<open>x\<close> a left child and then for the mirror image; the first two
  return the new sibling too.\<close>

definition erase_case1_left :: "nat \<Rightarrow> nat \<Rightarrow> rbt \<Rightarrow> rbt \<times> nat" where
  "erase_case1_left x_parent w s =
     (let s1 = rb_rotate_left x_parent (rb_set_red x_parent (rb_set_black w s)) in (s1, rb_right (nodes s1 x_parent)))"

definition erase_case3_left :: "nat \<Rightarrow> nat \<Rightarrow> rbt \<Rightarrow> rbt \<times> nat" where
  "erase_case3_left x_parent w s =
     (let s1 = rb_rotate_right w (rb_set_red w (rb_set_black (rb_left (nodes s w)) s)) in (s1, rb_right (nodes s1 x_parent)))"

definition erase_case4_left :: "nat \<Rightarrow> nat \<Rightarrow> rbt \<Rightarrow> rbt" where
  "erase_case4_left x_parent w s =
     (let s1 = rb_set_black x_parent (set_color w (rb_color (nodes s x_parent)) s);
          s2 = (if rb_right (nodes s1 w) \<noteq> 0 then rb_set_black (rb_right (nodes s1 w)) s1 else s1)
      in rb_rotate_left x_parent s2)"

definition erase_case1_right :: "nat \<Rightarrow> nat \<Rightarrow> rbt \<Rightarrow> rbt \<times> nat" where
  "erase_case1_right x_parent w s =
     (let s1 = rb_rotate_right x_parent (rb_set_red x_parent (rb_set_black w s)) in (s1, rb_left (nodes s1 x_parent)))"

definition erase_case3_right :: "nat \<Rightarrow> nat \<Rightarrow> rbt \<Rightarrow> rbt \<times> nat" where
  "erase_case3_right x_parent w s =
     (let s1 = rb_rotate_left w (rb_set_red w (rb_set_black (rb_right (nodes s w)) s)) in (s1, rb_left (nodes s1 x_parent)))"

definition erase_case4_right :: "nat \<Rightarrow> nat \<Rightarrow> rbt \<Rightarrow> rbt" where
  "erase_case4_right x_parent w s =
     (let s1 = rb_set_black x_parent (set_color w (rb_color (nodes s x_parent)) s);
          s2 = (if rb_left (nodes s1 w) \<noteq> 0 then rb_set_black (rb_left (nodes s1 w)) s1 else s1)
      in rb_rotate_right x_parent s2)"

partial_function (option) erase_fixup_loop :: "nat \<Rightarrow> nat \<Rightarrow> bool \<Rightarrow> rbt \<Rightarrow> (rbt \<times> nat) option" where
  "erase_fixup_loop x x_parent x_is_left s =
     (if \<not> (x \<noteq> rb_root s \<and> rb_is_black s x) then Some (s, x)
      else if x_parent = 0 then None
      else if x_is_left then
        let w0 = rb_right (nodes s x_parent)
        in if w0 = 0 then Some (s, x)
           else case (if rb_is_red s w0 then erase_case1_left x_parent w0 s else (s, w0)) of (s1, w) \<Rightarrow>
             if w = 0 then Some (s1, x)
             else if rb_is_black s1 (rb_left (nodes s1 w)) \<and> rb_is_black s1 (rb_right (nodes s1 w))
             then let s2 = rb_set_red w s1;
                      xp = rb_parent (nodes s2 x_parent)
                  in erase_fixup_loop x_parent xp
                       (if xp \<noteq> 0 then x_parent = rb_left (nodes s2 xp) else x_is_left) s2
             else case (if rb_is_black s1 (rb_right (nodes s1 w)) then erase_case3_left x_parent w s1 else (s1, w)) of (s2, w2) \<Rightarrow>
               if w2 = 0 then Some (s2, x)
               else let s3 = erase_case4_left x_parent w2 s2 in Some (s3, rb_root s3)
      else
        let w0 = rb_left (nodes s x_parent)
        in if w0 = 0 then Some (s, x)
           else case (if rb_is_red s w0 then erase_case1_right x_parent w0 s else (s, w0)) of (s1, w) \<Rightarrow>
             if w = 0 then Some (s1, x)
             else if rb_is_black s1 (rb_left (nodes s1 w)) \<and> rb_is_black s1 (rb_right (nodes s1 w))
             then let s2 = rb_set_red w s1;
                      xp = rb_parent (nodes s2 x_parent)
                  in erase_fixup_loop x_parent xp
                       (if xp \<noteq> 0 then x_parent = rb_left (nodes s2 xp) else x_is_left) s2
             else case (if rb_is_black s1 (rb_left (nodes s1 w)) then erase_case3_right x_parent w s1 else (s1, w)) of (s2, w2) \<Rightarrow>
               if w2 = 0 then Some (s2, x)
               else let s3 = erase_case4_right x_parent w2 s2 in Some (s3, rb_root s3))"

definition rb_erase_fixup :: "nat \<Rightarrow> nat \<Rightarrow> bool \<Rightarrow> rbt \<Rightarrow> rbt option" where
  "rb_erase_fixup x x_parent x_is_left s =
     map_option (\<lambda>(s', x'). if x' \<noteq> 0 then rb_set_black x' s' else s') (erase_fixup_loop x x_parent x_is_left s)"

partial_function (option) leftmost :: "rbt \<Rightarrow> nat \<Rightarrow> nat option" where
  "leftmost s y = (if rb_left (nodes s y) \<noteq> 0 then leftmost s (rb_left (nodes s y)) else Some y)"

definition rb_erase :: "nat \<Rightarrow> rbt \<Rightarrow> rbt option" where
  "rb_erase z s =
     (if z = 0 then Some s
      else if rb_left (nodes s z) = 0 then
        let x = rb_right (nodes s z);
            x_parent = rb_parent (nodes s z);
            x_is_left = (if x_parent \<noteq> 0 then z = rb_left (nodes s x_parent) else False);
            s1 = rb_transplant z (rb_right (nodes s z)) s
        in if rb_color (nodes s z) = RB_BLACK then rb_erase_fixup x x_parent x_is_left s1 else Some s1
      else if rb_right (nodes s z) = 0 then
        let x = rb_left (nodes s z);
            x_parent = rb_parent (nodes s z);
            x_is_left = (if x_parent \<noteq> 0 then z = rb_left (nodes s x_parent) else False);
            s1 = rb_transplant z (rb_left (nodes s z)) s
        in if rb_color (nodes s z) = RB_BLACK then rb_erase_fixup x x_parent x_is_left s1 else Some s1
      else case leftmost s (rb_right (nodes s z)) of
             None \<Rightarrow> None
           | Some y \<Rightarrow>
               let x = rb_right (nodes s y);
                   direct = (rb_parent (nodes s y) = z);
                   x_parent = (if direct then y else rb_parent (nodes s y));
                   x_is_left = (if direct then False else y = rb_left (nodes s x_parent));
                   s1 = (if direct then if x \<noteq> 0 then set_parent x y s else s
                         else
                           let t1 = rb_transplant y (rb_right (nodes s y)) s;
                               t2 = set_right y (rb_right (nodes t1 z)) t1
                           in if rb_right (nodes t2 y) \<noteq> 0 then set_parent (rb_right (nodes t2 y)) y t2 else t2);
                   s2 = rb_transplant z y s1;
                   s3 = set_left y (rb_left (nodes s2 z)) s2;
                   s4 = (if rb_left (nodes s3 y) \<noteq> 0 then set_parent (rb_left (nodes s3 y)) y s3 else s3);
                   s5 = set_color y (rb_color (nodes s4 z)) s4
               in if rb_color (nodes s y) = RB_BLACK then rb_erase_fixup x x_parent x_is_left s5 else Some s5)"

section \<open>Search\<close>

definition rb_find_min :: "rbt \<Rightarrow> nat option" where
  "rb_find_min s = (if rb_root s = 0 then Some 0 else leftmost s (rb_root s))"

definition rb_first :: "rbt \<Rightarrow> nat option" where
  "rb_first s = rb_find_min s"

partial_function (option) rb_find_from :: "rbt \<Rightarrow> u64 \<Rightarrow> nat \<Rightarrow> nat option" where
  "rb_find_from s k node =
     (if node = 0 then Some 0
      else if k < rb_key (nodes s node) then rb_find_from s k (rb_left (nodes s node))
      else if k > rb_key (nodes s node) then rb_find_from s k (rb_right (nodes s node))
      else Some node)"

definition rb_find :: "rbt \<Rightarrow> u64 \<Rightarrow> nat option" where
  "rb_find s k = rb_find_from s k (rb_root s)"

partial_function (option) climb :: "rbt \<Rightarrow> nat \<Rightarrow> nat \<Rightarrow> nat option" where
  "climb s node parent =
     (if parent \<noteq> 0 \<and> node = rb_right (nodes s parent) then climb s parent (rb_parent (nodes s parent)) else Some parent)"

definition rb_next :: "rbt \<Rightarrow> nat \<Rightarrow> nat option" where
  "rb_next s node =
     (if node = 0 then Some 0
      else if rb_right (nodes s node) \<noteq> 0 then leftmost s (rb_right (nodes s node))
      else climb s node (rb_parent (nodes s node)))"

end
