(* ===== verification/RBTreeInv.thy ===== *)
theory RBTreeInv
  imports RBTree
begin

text \<open>
  The trees that the pointer structures of \<open>RBTree\<close> represent, and the effect of the rotations on them.

  A represented tree carries the colour and the address of each node. A position in a tree is a subtree
  and a context, the list of frames from the position up to the root; each operation of the code changes the
  nodes next to one position, and the lemmas follow it there. The two mirror images of each step are
  treated together by a side \<open>L\<close> or \<open>R\<close>.
\<close>

section \<open>Represented trees\<close>

datatype dir = L | R

fun opp :: "dir \<Rightarrow> dir" where
  "opp L = R"
| "opp R = L"

type_synonym ctree = "(color \<times> nat) tree"
type_synonym ctx = "(dir \<times> (color \<times> nat) \<times> ctree) list"

definition child :: "dir \<Rightarrow> rb_node \<Rightarrow> nat" where
  "child d n = (case d of L \<Rightarrow> rb_left n | R \<Rightarrow> rb_right n)"

definition set_child :: "dir \<Rightarrow> nat \<Rightarrow> nat \<Rightarrow> rbt \<Rightarrow> rbt" where
  "set_child d p v s = (case d of L \<Rightarrow> set_left p v s | R \<Rightarrow> set_right p v s)"

text \<open>A node with its child on the given side first.\<close>

definition nd :: "dir \<Rightarrow> ctree \<Rightarrow> color \<times> nat \<Rightarrow> ctree \<Rightarrow> ctree" where
  "nd d t a u = (case d of L \<Rightarrow> Node t a u | R \<Rightarrow> Node u a t)"

definition ptr :: "ctree \<Rightarrow> nat" where
  "ptr t = (case t of Leaf \<Rightarrow> 0 | Node l a r \<Rightarrow> snd a)"

definition ptrs :: "ctree \<Rightarrow> nat list" where
  "ptrs t = map snd (inorder t)"

fun shape :: "(nat \<Rightarrow> rb_node) \<Rightarrow> nat \<Rightarrow> ctree \<Rightarrow> bool" where
  "shape h q Leaf = True"
| "shape h q (Node l (c, a) r) \<longleftrightarrow> a \<noteq> 0 \<and> rb_color (h a) = c \<and> rb_parent (h a) = q \<and>
     rb_left (h a) = ptr l \<and> rb_right (h a) = ptr r \<and> shape h a l \<and> shape h a r"

definition tree_inv :: "rbt \<Rightarrow> ctree \<Rightarrow> bool" where
  "tree_inv s t \<longleftrightarrow> rb_root s = ptr t \<and> shape (nodes s) 0 t \<and> distinct (ptrs t)"

definition keys :: "rbt \<Rightarrow> nat \<Rightarrow> u64" where
  "keys s a = rb_key (nodes s a)"

section \<open>Positions\<close>

fun fill :: "ctx \<Rightarrow> ctree \<Rightarrow> ctree" where
  "fill [] t = t"
| "fill ((d, a, u) # c) t = fill c (nd d t a u)"

definition par :: "ctx \<Rightarrow> nat" where
  "par c = (case c of [] \<Rightarrow> 0 | (d, a, u) # c' \<Rightarrow> snd a)"

fun cptrs :: "ctx \<Rightarrow> nat set" where
  "cptrs [] = {}"
| "cptrs ((d, a, u) # c) = insert (snd a) (set (ptrs u) \<union> cptrs c)"

fun cdistinct :: "ctx \<Rightarrow> bool" where
  "cdistinct [] = True"
| "cdistinct ((d, a, u) # c) \<longleftrightarrow> snd a \<notin> set (ptrs u) \<and> distinct (ptrs u) \<and> snd a \<notin> cptrs c \<and>
     set (ptrs u) \<inter> cptrs c = {} \<and> cdistinct c"

fun hole :: "rbt \<Rightarrow> nat \<Rightarrow> ctx \<Rightarrow> bool" where
  "hole s p [] \<longleftrightarrow> rb_root s = p"
| "hole s p ((d, (col, a), u) # c) \<longleftrightarrow> a \<noteq> 0 \<and> rb_color (nodes s a) = col \<and> rb_parent (nodes s a) = par c \<and>
     child d (nodes s a) = p \<and> child (opp d) (nodes s a) = ptr u \<and> shape (nodes s) a u \<and> hole s a c"

lemma opp_opp [simp]: "opp (opp d) = d" "opp d \<noteq> d" "d \<noteq> opp d"
  by (cases d; simp)+

lemma ptr_simps [simp]: "ptr Leaf = 0" "ptr (Node l a r) = snd a" "ptr (nd d t a u) = snd a"
  by (simp_all add: ptr_def nd_def split: dir.split)

lemma ptrs_simps [simp]: "ptrs Leaf = []" "ptrs (Node l a r) = ptrs l @ snd a # ptrs r"
  by (simp_all add: ptrs_def)

lemma ptrs_nd: "ptrs (nd d t a u) = (case d of L \<Rightarrow> ptrs t @ snd a # ptrs u | R \<Rightarrow> ptrs u @ snd a # ptrs t)"
  by (simp add: nd_def split: dir.split)

lemma set_ptrs_nd [simp]: "set (ptrs (nd d t a u)) = insert (snd a) (set (ptrs t) \<union> set (ptrs u))"
  by (auto simp: ptrs_nd split: dir.split)

lemma distinct_nd [simp]:
  "distinct (ptrs (nd d t a u)) \<longleftrightarrow> snd a \<notin> set (ptrs t) \<and> snd a \<notin> set (ptrs u) \<and> distinct (ptrs t) \<and> distinct (ptrs u) \<and>
     set (ptrs t) \<inter> set (ptrs u) = {}"
  by (auto simp: ptrs_nd split: dir.split)

lemma ptr_in: "ptr t = 0 \<or> ptr t \<in> set (ptrs t)"
  by (cases t) simp_all

lemma shape_nd [simp]:
  "shape h q (nd d t (col, a) u) \<longleftrightarrow> a \<noteq> 0 \<and> rb_color (h a) = col \<and> rb_parent (h a) = q \<and>
     child d (h a) = ptr t \<and> child (opp d) (h a) = ptr u \<and> shape h a t \<and> shape h a u"
  by (auto simp: nd_def child_def split: dir.split)

lemma shape_nonzero: "shape h q t \<Longrightarrow> 0 \<notin> set (ptrs t)"
  by (induction h q t rule: shape.induct) auto

lemma shape_cong:
  "(\<And>a. a \<in> set (ptrs t) \<Longrightarrow> h a = h' a) \<Longrightarrow> shape h q t = shape h' q t"
proof (induction t arbitrary: q)
  case (Node l a r)
  then show ?case by (cases a) auto
qed simp

lemma hole_cong:
  "(\<And>a. a \<in> cptrs c \<Longrightarrow> nodes s a = nodes s' a) \<Longrightarrow> rb_root s = rb_root s' \<Longrightarrow> hole s p c = hole s' p c"
proof (induction s p c rule: hole.induct)
  case (2 s p d col a u c)
  then show ?case using shape_cong [of u "nodes s" "nodes s'"] by auto
qed simp

lemma set_fill: "set (ptrs (fill c t)) = cptrs c \<union> set (ptrs t)"
  by (induction c t rule: fill.induct) auto

lemma distinct_fill:
  "distinct (ptrs (fill c t)) \<longleftrightarrow> cdistinct c \<and> distinct (ptrs t) \<and> set (ptrs t) \<inter> cptrs c = {}"
  by (induction c t rule: fill.induct) auto

lemma ptrs_fill_cong: "ptrs t = ptrs u \<Longrightarrow> ptrs (fill c t) = ptrs (fill c u)"
proof (induction c arbitrary: t u)
  case (Cons f c)
  obtain d a v where f: "f = (d, a, v)" by (cases f) auto
  have "ptrs (nd d t a v) = ptrs (nd d u a v)" using Cons.prems by (simp add: ptrs_nd split: dir.split)
  from Cons.IH [OF this] show ?case by (simp add: f)
qed simp

lemma shape_fill: "rb_root s = ptr (fill c t) \<and> shape (nodes s) 0 (fill c t) \<longleftrightarrow> hole s (ptr t) c \<and> shape (nodes s) (par c) t"
proof (induction c arbitrary: t)
  case (Cons f c)
  obtain d col a u where f: "f = (d, (col, a), u)" by (cases f) auto
  show ?case using Cons.IH [of "nd d t (col, a) u"] f by (auto simp: par_def)
qed (simp add: par_def)

lemma tree_inv_fill:
  "tree_inv s (fill c t) \<longleftrightarrow> hole s (ptr t) c \<and> shape (nodes s) (par c) t \<and> cdistinct c \<and> distinct (ptrs t) \<and>
     set (ptrs t) \<inter> cptrs c = {}"
  unfolding tree_inv_def distinct_fill using shape_fill [of s c t] by blast

lemma hole_nonzero: "hole s p c \<Longrightarrow> 0 \<notin> cptrs c"
  by (induction s p c rule: hole.induct) (auto dest: shape_nonzero)

lemma par_in: "par c = 0 \<or> par c \<in> cptrs c"
  by (cases c) (auto simp: par_def)

section \<open>Updates\<close>

lemma upd_simps [simp]:
  "rb_root (upd p f s) = rb_root s" "nodes (upd p f s) p = f (nodes s p)" "a \<noteq> p \<Longrightarrow> nodes (upd p f s) a = nodes s a"
  by (simp_all add: upd_def)

lemma set_child_simps [simp]:
  "rb_root (set_child d p v s) = rb_root s" "a \<noteq> p \<Longrightarrow> nodes (set_child d p v s) a = nodes s a"
  "child d (nodes (set_child d p v s) p) = v" "child (opp d) (nodes (set_child d p v s) p) = child (opp d) (nodes s p)"
  "child d (nodes (set_child (opp d) p v s) p) = child d (nodes s p)"
  "rb_parent (nodes (set_child d p v s) a) = rb_parent (nodes s a)" "rb_color (nodes (set_child d p v s) a) = rb_color (nodes s a)"
  by (simp_all add: set_child_def child_def upd_def split: dir.split)

lemma child_simps [simp]:
  "child d (n\<lparr> rb_parent := v \<rparr>) = child d n" "child d (n\<lparr> rb_color := c \<rparr>) = child d n"
  by (simp_all add: child_def split: dir.split)

lemma keys_simps [simp]:
  "keys (set_child d p v s) = keys s" "keys (upd p (rb_parent_update (\<lambda>_. v)) s) = keys s"
  "keys (upd p (rb_color_update (\<lambda>_. col)) s) = keys s" "keys (upd p (rb_left_update (\<lambda>_. v)) s) = keys s"
  "keys (upd p (rb_right_update (\<lambda>_. v)) s) = keys s" "keys (s\<lparr> rb_root := v \<rparr>) = keys s"
  by (auto simp: keys_def fun_eq_iff set_child_def upd_def split: dir.split)

lemma shape_upd [simp]: "p \<notin> set (ptrs t) \<Longrightarrow> shape (nodes (upd p f s)) q t = shape (nodes s) q t"
  by (rule shape_cong) (metis upd_simps(3))

lemma hole_upd [simp]: "p \<notin> cptrs c \<Longrightarrow> hole (upd p f s) x c = hole s x c"
  by (rule hole_cong) (auto, metis upd_simps(3))

lemma shape_set_child [simp]: "p \<notin> set (ptrs t) \<Longrightarrow> shape (nodes (set_child d p v s)) q t = shape (nodes s) q t"
  by (simp add: set_child_def split: dir.split)

lemma hole_set_child [simp]: "p \<notin> cptrs c \<Longrightarrow> hole (set_child d p v s) x c = hole s x c"
  by (simp add: set_child_def split: dir.split)

text \<open>Giving a subtree another parent.\<close>

lemma shape_reparent:
  assumes "shape (nodes s) q t" "distinct (ptrs t)" "ptr t \<noteq> 0"
  shows "shape (nodes (set_parent (ptr t) q' s)) q' t"
proof (cases t)
  case (Node l a r)
  then show ?thesis using assms by (cases a) auto
qed simp

section \<open>Rotations\<close>

text \<open>The part that the rotations and \<open>rb_transplant\<close> share: the link to \<open>x\<close> gets another target.\<close>

definition relink :: "nat \<Rightarrow> nat \<Rightarrow> rbt \<Rightarrow> rbt" where
  "relink x y s = (let q = rb_parent (nodes s x)
     in if q = 0 then s\<lparr> rb_root := y \<rparr> else if x = rb_left (nodes s q) then set_left q y s else set_right q y s)"

lemma relink_ok:
  assumes h: "hole s x c" "rb_parent (nodes s x) = par c" "x \<noteq> 0" "x \<notin> cptrs c" "cdistinct c"
  shows "hole (relink x y s) y c" "\<And>a. a \<notin> cptrs c \<Longrightarrow> nodes (relink x y s) a = nodes s a" "keys (relink x y s) = keys s"
proof -
  have "hole (relink x y s) y c \<and> (\<forall>a. a \<notin> cptrs c \<longrightarrow> nodes (relink x y s) a = nodes s a) \<and> keys (relink x y s) = keys s"
  proof (cases c)
    case Nil
    then show ?thesis using h by (simp add: relink_def par_def)
  next
    case (Cons f c')
    obtain d col a u where f: "f = (d, (col, a), u)" by (cases f) auto
    have a: "a \<noteq> 0" "rb_parent (nodes s x) = a" "child d (nodes s a) = x" "child (opp d) (nodes s a) = ptr u"
      using h(1,2) Cons f by (simp_all add: par_def)
    have nu: "x \<noteq> ptr u" using h(3,4) Cons f ptr_in [of u] by auto
    have "relink x y s = set_child d a y s"
      using a nu by (cases d) (simp_all add: relink_def set_child_def child_def)
    then show ?thesis using h Cons f by auto
  qed
  then show "hole (relink x y s) y c" "\<And>a. a \<notin> cptrs c \<Longrightarrow> nodes (relink x y s) a = nodes s a" "keys (relink x y s) = keys s"
    by blast+
qed

definition rotate :: "dir \<Rightarrow> nat \<Rightarrow> rbt \<Rightarrow> rbt" where
  "rotate d x s =
     (let y = child (opp d) (nodes s x)
      in if y = 0 then s
         else
           let s1 = set_child (opp d) x (child d (nodes s y)) s;
               s2 = (if child d (nodes s1 y) \<noteq> 0 then set_parent (child d (nodes s1 y)) x s1 else s1);
               s3 = set_parent y (rb_parent (nodes s2 x)) s2;
               s4 = relink x y s3;
               s5 = set_child d y x s4
           in set_parent x y s5)"

lemma rotate_sides: "rotate L = rb_rotate_left" "rotate R = rb_rotate_right"
  by (auto simp: fun_eq_iff rotate_def rb_rotate_left_def rb_rotate_right_def relink_def child_def set_child_def Let_def)

text \<open>What a rotation does to the represented tree.\<close>

lemma rotate_ok:
  assumes "tree_inv s (fill c (nd d A (ca, x) (nd d B (cy, y) C)))"
  shows "tree_inv (rotate d x s) (fill c (nd d (nd d A (ca, x) B) (cy, y) C))" "keys (rotate d x s) = keys s"
proof -
  let ?t = "nd d A (ca, x) (nd d B (cy, y) C)"
  have hole: "hole s x c" and sh: "shape (nodes s) (par c) ?t" and ds: "cdistinct c" "distinct (ptrs ?t)" "set (ptrs ?t) \<inter> cptrs c = {}"
    using assms by (auto simp: tree_inv_fill)
  have x: "x \<noteq> 0" "child (opp d) (nodes s x) = y" "child d (nodes s x) = ptr A" "rb_parent (nodes s x) = par c" "rb_color (nodes s x) = ca"
    and y: "y \<noteq> 0" "child d (nodes s y) = ptr B" "child (opp d) (nodes s y) = ptr C" "rb_color (nodes s y) = cy"
    and sub: "shape (nodes s) x A" "shape (nodes s) y B" "shape (nodes s) y C"
    using sh by auto
  have dj: "x \<noteq> y" "x \<notin> set (ptrs A)" "y \<notin> set (ptrs A)" "x \<notin> set (ptrs B)" "y \<notin> set (ptrs B)" "x \<notin> set (ptrs C)" "y \<notin> set (ptrs C)"
      "set (ptrs A) \<inter> set (ptrs B) = {}" "set (ptrs A) \<inter> set (ptrs C) = {}" "set (ptrs B) \<inter> set (ptrs C) = {}"
      "x \<notin> cptrs c" "y \<notin> cptrs c" "set (ptrs A) \<inter> cptrs c = {}" "set (ptrs B) \<inter> cptrs c = {}" "set (ptrs C) \<inter> cptrs c = {}"
      "distinct (ptrs A)" "distinct (ptrs B)" "distinct (ptrs C)"
    using ds(2,3) by auto
  define s1 where "s1 = set_child (opp d) x (ptr B) s"
  define s2 where "s2 = (if ptr B \<noteq> 0 then set_parent (ptr B) x s1 else s1)"
  define s3 where "s3 = set_parent y (par c) s2"
  define s4 where "s4 = relink x y s3"
  define s5 where "s5 = set_child d y x s4"
  have b: "ptr B = 0 \<or> ptr B \<in> set (ptrs B)" by (rule ptr_in)
  have yB: "x \<noteq> ptr B" "y \<noteq> ptr B" "ptr B \<notin> cptrs c" "ptr B \<notin> set (ptrs A)" "ptr B \<notin> set (ptrs C)"
    using b x(1) y(1) dj shape_nonzero [OF sub(1)] shape_nonzero [OF sub(3)] hole_nonzero [OF hole] by auto
  have n2: "nodes s2 x = nodes s1 x" "nodes s2 y = nodes s y" using yB dj by (auto simp: s2_def s1_def)
  have B2: "shape (nodes s2) x B"
  proof (cases B)
    case (Node l a r)
    then have "ptr B \<noteq> 0" using sub(2) by (cases a) auto
    moreover have "shape (nodes s1) y B" using sub(2) dj by (simp add: s1_def)
    ultimately show ?thesis using shape_reparent dj(17) by (simp add: s2_def)
  qed simp
  have h2: "hole s2 x c" "shape (nodes s2) x A" "shape (nodes s2) y C" using hole sub dj yB by (auto simp: s2_def s1_def)
  have n3: "nodes s3 x = nodes s1 x" "shape (nodes s3) x B" "hole s3 x c" "shape (nodes s3) x A" "shape (nodes s3) y C"
      "rb_parent (nodes s3 y) = par c" "child (opp d) (nodes s3 y) = ptr C" "rb_color (nodes s3 y) = cy"
    using n2 B2 h2 dj y by (simp_all add: s3_def)
  have p3: "rb_parent (nodes s3 x) = par c" using n3(1) x by (simp add: s1_def)
  note r4 = relink_ok [OF n3(3) p3 x(1) dj(11) ds(1), where y = y, folded s4_def]
  have n4: "nodes s4 a = nodes s3 a" if "a \<notin> cptrs c" for a using r4(2) that by simp
  have sh4: "shape (nodes s4) q T = shape (nodes s3) q T" if "set (ptrs T) \<inter> cptrs c = {}" for q T
    using that by (intro shape_cong n4) auto
  have x1: "child d (nodes s1 x) = ptr A" "child (opp d) (nodes s1 x) = ptr B" "rb_color (nodes s1 x) = ca"
    using x by (simp_all add: s1_def)
  have rot: "rotate d x s = set_parent x y s5"
    using x y yB dj(1) by (simp add: rotate_def s5_def s4_def s3_def s2_def s1_def Let_def)
  show "keys (rotate d x s) = keys s" unfolding rot using r4(3) by (simp add: s5_def s3_def s2_def s1_def)
  show "tree_inv (rotate d x s) (fill c (nd d (nd d A (ca, x) B) (cy, y) C))"
    unfolding rot tree_inv_fill using r4(1) n3 n4 dj sh4 x1 x(1) y(1) ds(1)
    by (auto simp: s5_def)
qed

end
