(* ===== verification/RBTreeInsert.thy ===== *)
theory RBTreeInsert
  imports RBTreeInv
begin

text \<open>
  The red-black invariants on represented trees, and that \<open>rb_insert\<close> returns, keeps them and inserts the
  node after all nodes whose key is not larger.
\<close>

section \<open>Red-black invariants\<close>

fun bh :: "ctree \<Rightarrow> nat" where
  "bh Leaf = 0"
| "bh (Node l (c, a) r) = bh l + (if c = RB_BLACK then 1 else 0)"

definition root_col :: "ctree \<Rightarrow> color" where
  "root_col t = (case t of Leaf \<Rightarrow> RB_BLACK | Node l a r \<Rightarrow> fst a)"

fun rbok :: "ctree \<Rightarrow> bool" where
  "rbok Leaf = True"
| "rbok (Node l (c, a) r) \<longleftrightarrow> rbok l \<and> rbok r \<and> bh l = bh r \<and> (c = RB_RED \<longrightarrow> root_col l = RB_BLACK \<and> root_col r = RB_BLACK)"

definition rb :: "ctree \<Rightarrow> bool" where
  "rb t \<longleftrightarrow> rbok t \<and> root_col t = RB_BLACK"

definition par_col :: "ctx \<Rightarrow> color" where
  "par_col c = (case c of [] \<Rightarrow> RB_BLACK | (d, a, u) # c' \<Rightarrow> fst a)"

text \<open>The context of a position at which a tree of the given black height belongs.\<close>

fun cok :: "ctx \<Rightarrow> nat \<Rightarrow> bool" where
  "cok [] n = True"
| "cok ((d, (col, a), u) # c) n \<longleftrightarrow> rbok u \<and> bh u = n \<and>
     (col = RB_RED \<longrightarrow> root_col u = RB_BLACK \<and> c \<noteq> [] \<and> par_col c = RB_BLACK) \<and> cok c (n + (if col = RB_BLACK then 1 else 0))"

lemma root_col_simps [simp]: "root_col Leaf = RB_BLACK" "root_col (Node l a r) = fst a" "root_col (nd d t a u) = fst a"
  by (simp_all add: root_col_def nd_def split: dir.split)

lemma rbok_nd [simp]:
  "rbok (nd d t (c, a) u) \<longleftrightarrow> rbok t \<and> rbok u \<and> bh t = bh u \<and> (c = RB_RED \<longrightarrow> root_col t = RB_BLACK \<and> root_col u = RB_BLACK)"
  by (auto simp: nd_def split: dir.split)

lemma bh_nd: "bh t = bh u \<Longrightarrow> bh (nd d t (c, a) u) = bh u + (if c = RB_BLACK then 1 else 0)"
  by (simp add: nd_def split: dir.split)

lemma color_cases: "c = RB_RED \<or> c = RB_BLACK"
  by (cases c) simp_all

lemma rb_fill: "rb (fill c t) \<longleftrightarrow> cok c (bh t) \<and> rbok t \<and> (root_col t = RB_RED \<longrightarrow> c \<noteq> [] \<and> par_col c = RB_BLACK)"
proof (induction c arbitrary: t)
  case Nil
  then show ?case using color_cases [of "root_col t"] by (auto simp: rb_def)
next
  case (Cons f c)
  obtain d col a u where f: "f = (d, (col, a), u)" by (cases f) auto
  show ?case using Cons.IH [of "nd d t (col, a) u"] bh_nd [of t u d col a] color_cases [of col] color_cases [of "root_col t"]
    by (auto simp: f par_col_def)
qed

lemma nd_opp: "nd d t a u = nd (opp d) u a t"
  by (cases d) (simp_all add: nd_def)

lemma nd_not_Leaf [simp]: "nd d t a u \<noteq> Leaf"
  by (cases d) (simp_all add: nd_def)

lemma node_nd: "\<exists>t u. Node l a r = nd d t a u"
  by (cases d) (auto simp: nd_def)

lemma recolor:
  assumes "tree_inv s (fill c (nd d t (col, x) u))"
  shows "tree_inv (set_color x col' s) (fill c (nd d t (col', x) u))"
  using assms by (auto simp: tree_inv_fill)

text \<open>Facts about the node at a position and about its parent.\<close>

lemma inv_node:
  assumes "tree_inv s (fill c (nd d t (col, x) u))"
  shows "x \<noteq> 0" "rb_color (nodes s x) = col" "rb_parent (nodes s x) = par c" "child d (nodes s x) = ptr t"
    "child (opp d) (nodes s x) = ptr u"
  using assms by (auto simp: tree_inv_fill)

lemma inv_parent:
  assumes "tree_inv s (fill ((d, (col, a), u) # c) t)"
  shows "a \<noteq> 0" "rb_color (nodes s a) = col" "rb_parent (nodes s a) = par c" "child d (nodes s a) = ptr t"
    "child (opp d) (nodes s a) = ptr u"
  using inv_node [of s c d t col a u] assms by simp_all

lemma inner_side:
  assumes "tree_inv s (fill ((d, (col, a), u) # c) t)" "t \<noteq> Leaf"
  shows "ptr t = child d' (nodes s a) \<longleftrightarrow> d = d'"
proof -
  have "distinct (ptrs (nd d t (col, a) u))" "0 \<notin> set (ptrs t)"
    using assms(1) shape_nonzero by (auto simp: tree_inv_fill)
  moreover have "ptr t \<in> set (ptrs t)" using assms(2) by (cases t) auto
  ultimately have "ptr t \<noteq> ptr u" using ptr_in [of u] by auto
  then show ?thesis using inv_parent(4,5) [OF assms(1)] by (cases d; cases d') auto
qed

lemma left_side:
  assumes "tree_inv s (fill ((d, (col, a), u) # c) t)" "t \<noteq> Leaf"
  shows "ptr t = rb_left (nodes s a) \<longleftrightarrow> d = L"
  using inner_side [OF assms, of L] by (simp add: child_def)

lemma is_red_ptr:
  assumes "shape (nodes s) q t"
  shows "rb_is_red s (ptr t) \<longleftrightarrow> root_col t = RB_RED" "rb_is_black s (ptr t) \<longleftrightarrow> root_col t = RB_BLACK"
  using assms by (cases t; auto simp: rb_is_red_def rb_is_black_def)+

section \<open>The insertion loop\<close>

lemma insert_loop_stop: "\<not> rb_is_red s (rb_parent (nodes s node)) \<Longrightarrow> insert_fixup_loop node s = Some s"
  by (subst insert_fixup_loop.simps) simp

lemma insert_loop_step:
  assumes "rb_is_red s parent" "rb_parent (nodes s node) = parent" "rb_parent (nodes s parent) = g" "g \<noteq> 0"
    "parent = rb_left (nodes s g) \<longleftrightarrow> d = L"
  shows "insert_fixup_loop node s =
    (if rb_is_red s (child (opp d) (nodes s g))
     then insert_fixup_loop g (rb_set_red g (rb_set_black (child (opp d) (nodes s g)) (rb_set_black parent s)))
     else if node = child (opp d) (nodes s parent)
     then let s1 = rotate d parent s
          in insert_fixup_loop parent (rotate (opp d) g (rb_set_red g (rb_set_black (rb_parent (nodes s1 parent)) s1)))
     else insert_fixup_loop node (rotate (opp d) g (rb_set_red g (rb_set_black parent s))))"
  using assms by (subst insert_fixup_loop.simps) (cases d; simp add: child_def rotate_sides Let_def)

lemma set_col [simp]:
  "p \<noteq> 0 \<Longrightarrow> rb_set_black p s = set_color p RB_BLACK s" "p \<noteq> 0 \<Longrightarrow> rb_set_red p s = set_color p RB_RED s"
  by (simp_all add: rb_set_black_def rb_set_red_def)

text \<open>Case 1, the uncle is red.\<close>

lemma insert_case1:
  assumes T: "tree_inv s (fill ((d1, (cp, p), S) # (d, (cg, g), nd e ul (cu, u) ur) # c) t)"
  shows "tree_inv (rb_set_red g (rb_set_black u (rb_set_black p s)))
    (fill c (nd d (nd d1 t (RB_BLACK, p) S) (RB_RED, g) (nd e ul (RB_BLACK, u) ur)))"
proof -
  let ?c = "(d, (cg, g), nd e ul (cu, u) ur) # c"
  have z: "p \<noteq> 0" "g \<noteq> 0" using inv_parent(1) [OF T] inv_parent(1) [of s d cg g "nd e ul (cu, u) ur" c "nd d1 t (cp, p) S"] T by simp_all
  have 1: "tree_inv (set_color p RB_BLACK s) (fill ?c (nd d1 t (RB_BLACK, p) S))" using recolor [of s ?c] T by simp
  let ?c' = "(opp d, (cg, g), nd d1 t (RB_BLACK, p) S) # c"
  have "tree_inv (set_color p RB_BLACK s) (fill ?c' (nd e ul (cu, u) ur))"
    using 1 nd_opp [of d "nd d1 t (RB_BLACK, p) S"] by simp
  then have u: "u \<noteq> 0" and 2: "tree_inv (set_color u RB_BLACK (set_color p RB_BLACK s)) (fill ?c' (nd e ul (RB_BLACK, u) ur))"
    using inv_node(1) recolor by blast+
  then have "tree_inv (set_color u RB_BLACK (set_color p RB_BLACK s)) (fill c (nd d (nd d1 t (RB_BLACK, p) S) (cg, g) (nd e ul (RB_BLACK, u) ur)))"
    using nd_opp [of d "nd d1 t (RB_BLACK, p) S"] by simp
  from recolor [OF this, of RB_RED] show ?thesis using z u by simp
qed

text \<open>Case 3, the node is on the outer side: the grandparent is rotated below the parent.\<close>

lemma insert_case3:
  assumes T: "tree_inv s (fill ((d, (cp, p), S) # (d, (cg, g), U) # c) t)"
  shows "tree_inv (rotate (opp d) g (rb_set_red g (rb_set_black p s))) (fill c (nd d t (RB_BLACK, p) (nd d S (RB_RED, g) U)))"
    "keys (rotate (opp d) g (rb_set_red g (rb_set_black p s))) = keys s"
proof -
  have z: "p \<noteq> 0" "g \<noteq> 0" using inv_parent(1) [OF T] inv_parent(1) [of s d cg g U c "nd d t (cp, p) S"] T by simp_all
  have "tree_inv (set_color p RB_BLACK s) (fill c (nd d (nd d t (RB_BLACK, p) S) (cg, g) U))"
    using recolor [of s "(d, (cg, g), U) # c"] T by simp
  from recolor [OF this, of RB_RED]
  have "tree_inv (set_color g RB_RED (set_color p RB_BLACK s))
      (fill c (nd (opp d) U (RB_RED, g) (nd (opp d) S (RB_BLACK, p) t)))"
    by (simp add: nd_opp [of d])
  from rotate_ok [OF this] show "tree_inv (rotate (opp d) g (rb_set_red g (rb_set_black p s))) (fill c (nd d t (RB_BLACK, p) (nd d S (RB_RED, g) U)))"
    "keys (rotate (opp d) g (rb_set_red g (rb_set_black p s))) = keys s"
    using z by (simp_all add: nd_opp [of d])
qed

text \<open>Case 2, the node is on the inner side: it is rotated above its parent first.\<close>

lemma insert_case2:
  assumes T: "tree_inv s (fill ((opp d, (cp, p), S) # F # c) (nd d B (cz, z) C))"
  shows "tree_inv (rotate d p s) (fill ((d, (cz, z), C) # F # c) (nd d S (cp, p) B))" "keys (rotate d p s) = keys s"
proof -
  have "tree_inv s (fill (F # c) (nd d S (cp, p) (nd d B (cz, z) C)))" using T nd_opp [of "opp d" "nd d B (cz, z) C"] by simp
  from rotate_ok [OF this] show "tree_inv (rotate d p s) (fill ((d, (cz, z), C) # F # c) (nd d S (cp, p) B))" "keys (rotate d p s) = keys s"
    by simp_all
qed

lemma red_parent:
  assumes "cok c n" "par_col c = RB_RED"
  obtains d1 p S d g U c' where "c = (d1, (RB_RED, p), S) # (d, (RB_BLACK, g), U) # c'" "rbok S" "bh S = n" "root_col S = RB_BLACK"
    "rbok U" "bh U = n" "cok c' (Suc n)"
proof -
  obtain d1 p S c1 where c: "c = (d1, (RB_RED, p), S) # c1" using assms(2) by (cases c) (auto simp: par_col_def)
  then have S: "rbok S" "bh S = n" "root_col S = RB_BLACK" "c1 \<noteq> []" "par_col c1 = RB_BLACK" "cok c1 n" using assms(1) by auto
  then obtain d g U c' where c1: "c1 = (d, (RB_BLACK, g), U) # c'" by (cases c1) (auto simp: par_col_def)
  show ?thesis using that [of d1 p S d g U c'] c S c1 by simp
qed

definition fixed :: "rbt \<Rightarrow> nat \<Rightarrow> ctree \<Rightarrow> bool" where
  "fixed s z t \<longleftrightarrow> (\<exists>s' t'. insert_fixup_loop z s = Some s' \<and> tree_inv s' t' \<and> rbok t' \<and> ptrs t' = ptrs t \<and> keys s' = keys s)"

lemma rb_rbok: "rb t \<Longrightarrow> rbok t"
  by (simp add: rb_def)

lemma insert_stop:
  assumes T: "tree_inv s (fill c (nd d B (RB_RED, z) C))" and r: "rbok (nd d B (RB_RED, z) C)" "cok c (bh C)" "par_col c = RB_BLACK"
  shows "fixed s z (fill c (nd d B (RB_RED, z) C))"
proof -
  have "\<not> rb_is_red s (par c)"
  proof (cases c)
    case (Cons f c')
    obtain e col a u where f: "f = (e, (col, a), u)" by (cases f) auto
    then show ?thesis using inv_parent(2) T r(3) Cons by (auto simp: rb_is_red_def par_def par_col_def)
  qed (simp add: par_def rb_is_red_def)
  then have l: "insert_fixup_loop z s = Some s" using insert_loop_stop inv_node(3) [OF T] by simp
  have "rbok (fill c (nd d B (RB_RED, z) C))"
  proof (cases "c = []")
    case False
    then show ?thesis using r bh_nd [of B C d RB_RED z] by (intro rb_rbok) (simp add: rb_fill)
  qed (use r in simp)
  then show ?thesis using l T by (auto simp: fixed_def)
qed

lemma nd_any: "\<exists>B' C'. nd e B a C = nd d B' a C'"
  by (cases "e = d") (auto simp: nd_opp [of e], metis nd_opp opp.simps dir.exhaust)

lemma fixed_eq: "insert_fixup_loop z s = insert_fixup_loop z' s' \<Longrightarrow> ptrs t = ptrs t' \<Longrightarrow> keys s' = keys s \<Longrightarrow> fixed s' z' t' \<Longrightarrow> fixed s z t"
  by (simp add: fixed_def)

text \<open>One iteration, by the position of the node: its parent \<open>p\<close> is red, its grandparent \<open>g\<close> is on side \<open>d\<close>.\<close>

lemma insert_iteration:
  assumes T: "tree_inv s (fill ((d1, (RB_RED, p), S) # (d, (RB_BLACK, g), U) # c) (nd e B (RB_RED, z) C))"
  shows "insert_fixup_loop z s =
    (if root_col U = RB_RED
     then insert_fixup_loop g (rb_set_red g (rb_set_black (ptr U) (rb_set_black p s)))
     else if d1 = opp d
     then let s1 = rotate d p s
          in insert_fixup_loop p (rotate (opp d) g (rb_set_red g (rb_set_black (rb_parent (nodes s1 p)) s1)))
     else insert_fixup_loop z (rotate (opp d) g (rb_set_red g (rb_set_black p s))))" "p \<noteq> 0" "g \<noteq> 0"
proof -
  let ?t = "nd e B (RB_RED, z) C" and ?p = "nd d1 (nd e B (RB_RED, z) C) (RB_RED, p) S"
  have T2: "tree_inv s (fill ((d, (RB_BLACK, g), U) # c) ?p)" using T by simp
  have pg: "rb_parent (nodes s z) = p" "rb_parent (nodes s p) = g" "rb_is_red s p" and "p \<noteq> 0" and g: "g \<noteq> 0"
    using inv_node(3) [OF T] inv_parent [OF T] inv_parent(1) [OF T2] by (auto simp: par_def rb_is_red_def)
  have uncle: "child (opp d) (nodes s g) = ptr U" "shape (nodes s) g U" using inv_parent(5) [OF T2] T2 by (auto simp: tree_inv_fill)
  have side: "p = rb_left (nodes s g) \<longleftrightarrow> d = L" using left_side [OF T2] by simp
  have inner: "z = child (opp d) (nodes s p) \<longleftrightarrow> d1 = opp d" using inner_side [OF T, of "opp d"] by simp
  show "insert_fixup_loop z s =
    (if root_col U = RB_RED
     then insert_fixup_loop g (rb_set_red g (rb_set_black (ptr U) (rb_set_black p s)))
     else if d1 = opp d
     then let s1 = rotate d p s
          in insert_fixup_loop p (rotate (opp d) g (rb_set_red g (rb_set_black (rb_parent (nodes s1 p)) s1)))
     else insert_fixup_loop z (rotate (opp d) g (rb_set_red g (rb_set_black p s))))"
    using insert_loop_step [OF pg(3,1,2) g side] is_red_ptr(1) [OF uncle(2)] inner uncle(1) by simp
  show "p \<noteq> 0" "g \<noteq> 0" by fact+
qed

lemma insert_rotations:
  assumes T: "tree_inv s (fill ((d1, (RB_RED, p), S) # (d, (RB_BLACK, g), U) # c) (nd d B (RB_RED, z) C))"
    and r: "rbok (nd d B (RB_RED, z) C)" and S: "rbok S" "bh S = bh C" "root_col S = RB_BLACK"
    and U: "rbok U" "bh U = bh C" "root_col U = RB_BLACK" and c: "cok c (Suc (bh C))"
  shows "fixed s z (fill ((d1, (RB_RED, p), S) # (d, (RB_BLACK, g), U) # c) (nd d B (RB_RED, z) C))"
proof (cases "d1 = opp d")
  case True
  note r2 = insert_case2 [OF T [unfolded True]]
  have zp: "rb_parent (nodes (rotate d p s) p) = z" using inv_node(3) [OF r2(1)] by (simp add: par_def)
  note r3 = insert_case3 [OF r2(1)]
  let ?s = "rotate (opp d) g (rb_set_red g (rb_set_black z (rotate d p s)))"
  let ?c = "(d, (RB_BLACK, z), nd d C (RB_RED, g) U) # c"
  have "fixed ?s p (fill ?c (nd d S (RB_RED, p) B))"
    using r3(1) r S U c by (intro insert_stop) (simp_all add: par_col_def bh_nd)
  moreover have "insert_fixup_loop z s = insert_fixup_loop p ?s" using insert_iteration(1) [OF T] U True zp by (simp add: Let_def)
  moreover have "ptrs (fill ((d1, (RB_RED, p), S) # (d, (RB_BLACK, g), U) # c) (nd d B (RB_RED, z) C)) = ptrs (fill ?c (nd d S (RB_RED, p) B))"
    unfolding True by (simp, rule ptrs_fill_cong) (cases d; simp add: ptrs_nd)
  moreover have "keys ?s = keys s" using r3(2) r2(2) by simp
  ultimately show ?thesis using fixed_eq by blast
next
  case out: False
  then have d: "d1 = d" by (cases d1; cases d) auto
  note r3 = insert_case3 [OF T [unfolded d]]
  let ?s = "rotate (opp d) g (rb_set_red g (rb_set_black p s))"
  let ?c = "(d, (RB_BLACK, p), nd d S (RB_RED, g) U) # c"
  have "fixed ?s z (fill ?c (nd d B (RB_RED, z) C))"
    using r3(1) r S U c by (intro insert_stop) (simp_all add: par_col_def bh_nd)
  moreover have "insert_fixup_loop z s = insert_fixup_loop z ?s" using insert_iteration(1) [OF T] U out by simp
  moreover have "ptrs (fill ((d1, (RB_RED, p), S) # (d, (RB_BLACK, g), U) # c) (nd d B (RB_RED, z) C)) = ptrs (fill ?c (nd d B (RB_RED, z) C))"
    unfolding d by (simp, rule ptrs_fill_cong) (cases d; simp add: ptrs_nd)
  ultimately show ?thesis using fixed_eq r3(2) by blast
qed

lemma insert_loop_ok:
  assumes "tree_inv s (fill c (nd e B (RB_RED, z) C))" "rbok (nd e B (RB_RED, z) C)" "cok c (bh C)"
  shows "fixed s z (fill c (nd e B (RB_RED, z) C))"
  using assms
proof (induction "length c" arbitrary: s c e B z C rule: less_induct)
  case less
  note T = less.prems(1) and r = less.prems(2) and ck = less.prems(3)
  show ?case
  proof (cases "par_col c = RB_RED")
    case False
    then show ?thesis using insert_stop [OF T r ck] color_cases by blast
  next
    case True
    obtain d1 p S d g U c' where c: "c = (d1, (RB_RED, p), S) # (d, (RB_BLACK, g), U) # c'"
      and S: "rbok S" "bh S = bh C" "root_col S = RB_BLACK" and U: "rbok U" "bh U = bh C" and c': "cok c' (Suc (bh C))"
      using red_parent [OF ck True] by metis
    let ?t = "nd e B (RB_RED, z) C"
    have t: "bh ?t = bh C" using r bh_nd [of B C e RB_RED z] by simp
    have T1: "tree_inv s (fill ((d1, (RB_RED, p), S) # (d, (RB_BLACK, g), U) # c') ?t)" using T c by simp
    show ?thesis
    proof (cases "root_col U = RB_RED")
      case red: True
      then obtain ul u ur where u: "U = nd L ul (RB_RED, u) ur" by (cases U) (auto simp: nd_def)
      let ?s = "rb_set_red g (rb_set_black u (rb_set_black p s))"
      let ?u = "nd d (nd d1 ?t (RB_BLACK, p) S) (RB_RED, g) (nd L ul (RB_BLACK, u) ur)"
      have T': "tree_inv ?s (fill c' ?u)" using insert_case1 T1 u by simp
      have Ub: "bh (nd L ul (RB_BLACK, u) ur) = Suc (bh C)" using U u by (simp add: nd_def)
      have Pb: "bh (nd d1 ?t (RB_BLACK, p) S) = Suc (bh C)" using S bh_nd [of ?t S d1 RB_BLACK p] t by simp
      have "fixed ?s g (fill c' ?u)" using less.hyps [OF _ T'] c r S U u Ub Pb c' t by simp
      moreover have "insert_fixup_loop z s = insert_fixup_loop g ?s" using insert_iteration(1) [OF T1] red u by simp
      moreover have "ptrs (fill c ?t) = ptrs (fill c' ?u)"
        unfolding c by (simp, rule ptrs_fill_cong) (simp add: ptrs_nd u split: dir.split)
      moreover have "keys ?s = keys s" by (simp add: rb_set_red_def rb_set_black_def)
      ultimately show ?thesis using fixed_eq by blast
    next
      case False
      then have Ub: "root_col U = RB_BLACK" using color_cases by blast
      obtain B' C' where t': "?t = nd d B' (RB_RED, z) C'" using nd_any by blast
      then have r': "rbok (nd d B' (RB_RED, z) C')" using r by simp
      then have "bh C' = bh C" using t t' bh_nd [of B' C' d RB_RED z] by simp
      then show ?thesis using insert_rotations [OF _ r' S(1) _ S(3) U(1) _ Ub] T1 S U c' c t' by simp
    qed
  qed
qed

section \<open>Insertion\<close>

lemma insert_fixup_ok:
  assumes "tree_inv s (fill c (nd e B (RB_RED, z) C))" "rbok (nd e B (RB_RED, z) C)" "cok c (bh C)"
  shows "\<exists>s' t'. rb_insert_fixup z s = Some s' \<and> tree_inv s' t' \<and> rb t' \<and> ptrs t' = ptrs (fill c (nd e B (RB_RED, z) C)) \<and> keys s' = keys s"
proof -
  obtain s' t' where s': "insert_fixup_loop z s = Some s'" "tree_inv s' t'" "rbok t'" "ptrs t' = ptrs (fill c (nd e B (RB_RED, z) C))" "keys s' = keys s"
    using insert_loop_ok [OF assms] by (auto simp: fixed_def)
  have "z \<in> set (ptrs t')" unfolding s'(4) by (simp add: set_fill)
  then have "t' \<noteq> Leaf" by auto
  then obtain l col a r where t': "t' = nd L l (col, a) r" by (cases t') (auto simp: nd_def)
  let ?s = "rb_set_black (rb_root s') s'" and ?t = "nd L l (RB_BLACK, a) r"
  have "rb_root s' = a" "a \<noteq> 0" using s'(2) inv_node(1) [of s' "[]" L l col a r] t' by (simp_all add: tree_inv_def)
  then have "tree_inv ?s ?t" "keys ?s = keys s'" using recolor [of s' "[]" L l col a r RB_BLACK] s'(2) t' by simp_all
  moreover have "rb ?t" "ptrs ?t = ptrs t'" using s'(3) t' by (auto simp: rb_def ptrs_nd)
  ultimately show ?thesis using s' by (auto simp: rb_insert_fixup_def)
qed

fun ins :: "(nat \<Rightarrow> u64) \<Rightarrow> nat \<Rightarrow> ctree \<Rightarrow> ctree" where
  "ins k z Leaf = Node Leaf (RB_RED, z) Leaf"
| "ins k z (Node l a r) = (if k z < k (snd a) then Node (ins k z l) a r else Node l a (ins k z r))"

lemma ptrs_ins:
  "sorted (map k (ptrs t)) \<Longrightarrow> ptrs (ins k z t) = filter (\<lambda>a. k a \<le> k z) (ptrs t) @ z # filter (\<lambda>a. k z < k a) (ptrs t)"
proof (induction t)
  case (Node l a r)
  then have so: "sorted (map k (ptrs l))" "sorted (map k (ptrs r))" "\<forall>b \<in> set (ptrs l). k b \<le> k (snd a)" "\<forall>b \<in> set (ptrs r). k (snd a) \<le> k b"
    by (auto simp: sorted_append)
  show ?case
  proof (cases "k z < k (snd a)")
    case True
    then have "filter (\<lambda>a. k a \<le> k z) (ptrs r) = []" "filter (\<lambda>a. k z < k a) (ptrs r) = ptrs r"
      using so(4) by (auto simp: filter_empty_conv filter_id_conv)
    then show ?thesis using True Node.IH(1) so(1) by simp
  next
    case False
    then have "filter (\<lambda>a. k z < k a) (ptrs l) = []" "filter (\<lambda>a. k a \<le> k z) (ptrs l) = ptrs l"
      using so(3) by (fastforce simp: filter_empty_conv filter_id_conv)+
    then show ?thesis using False Node.IH(2) so(2) by simp
  qed
qed simp

text \<open>The descent ends at the place where \<^const>\<open>ins\<close> puts the new node.\<close>

lemma insert_descend_ok:
  assumes "shape (nodes s) (par c) t" "k = keys s z" "c \<noteq> [] \<Longrightarrow> lft \<longleftrightarrow> fst (hd c) = L"
  shows "\<exists>c' lft'. fill c t = fill c' Leaf \<and> fill c (ins (keys s) z t) = fill c' (Node Leaf (RB_RED, z) Leaf) \<and>
    insert_descend s k (par c) lft (ptr t) = Some (par c', lft') \<and> (c' \<noteq> [] \<longrightarrow> (lft' \<longleftrightarrow> fst (hd c') = L))"
  using assms
proof (induction t arbitrary: c lft)
  case Leaf
  then show ?case by (auto simp: insert_descend.simps intro!: exI [of _ c])
next
  case (Node l b r)
  obtain col a where b: "b = (col, a)" by (cases b) auto
  have sh: "a \<noteq> 0" "rb_left (nodes s a) = ptr l" "rb_right (nodes s a) = ptr r" "shape (nodes s) a l" "shape (nodes s) a r"
    using Node.prems b by simp_all
  show ?case
  proof (cases "k < keys s a")
    case True
    have "insert_descend s k (par c) lft a = insert_descend s k a True (ptr l)"
      using True sh by (subst insert_descend.simps) (simp add: keys_def)
    then show ?thesis using Node.IH(1) [of "(L, b, r) # c" True] sh True Node.prems(2) b by (simp add: par_def nd_def)
  next
    case False
    have "insert_descend s k (par c) lft a = insert_descend s k a False (ptr r)"
      using False sh by (subst insert_descend.simps) (simp add: keys_def)
    then show ?thesis using Node.IH(2) [of "(R, b, l) # c" False] sh False Node.prems(2) b by (simp add: par_def nd_def)
  qed
qed

lemma store_new:
  assumes "tree_inv s (fill c Leaf)" "z \<noteq> 0" "z \<notin> cptrs c" "c \<noteq> [] \<longrightarrow> (lft \<longleftrightarrow> fst (hd c) = L)"
  shows "tree_inv (store_link (par c) lft z (upd z (\<lambda>n. n\<lparr> rb_parent := par c, rb_left := 0, rb_right := 0, rb_color := RB_RED \<rparr>) s))
    (fill c (Node Leaf (RB_RED, z) Leaf))"
proof -
  let ?u = "upd z (\<lambda>n. n\<lparr> rb_parent := par c, rb_left := 0, rb_right := 0, rb_color := RB_RED \<rparr>) s"
  have h: "hole ?u 0 c" "cdistinct c" using assms by (auto simp: tree_inv_fill)
  show ?thesis
  proof (cases c)
    case Nil
    then show ?thesis using assms h by (simp add: tree_inv_def store_link_def par_def)
  next
    case (Cons f c')
    obtain d col a u where f: "f = (d, (col, a), u)" by (cases f) auto
    have a: "a \<noteq> 0" "par c = a" "z \<noteq> a" using h assms(3) Cons f by (auto simp: par_def)
    have "store_link (par c) lft z ?u = set_child d a z ?u"
      using a assms(4) Cons f by (cases d) (simp_all add: store_link_def set_child_def)
    then show ?thesis using h assms(2,3) Cons f a by (auto simp: tree_inv_fill par_def)
  qed
qed

section \<open>The tree as an ordered queue\<close>

text \<open>The state holds a red-black search tree whose nodes are, in order, the given pointers.\<close>

definition rb_queue :: "rbt \<Rightarrow> nat list \<Rightarrow> bool" where
  "rb_queue s xs \<longleftrightarrow> (\<exists>t. tree_inv s t \<and> rb t \<and> ptrs t = xs) \<and> sorted (map (keys s) xs)"

definition queue_insert :: "(nat \<Rightarrow> u64) \<Rightarrow> nat \<Rightarrow> nat list \<Rightarrow> nat list" where
  "queue_insert k z xs = filter (\<lambda>a. k a \<le> k z) xs @ z # filter (\<lambda>a. k z < k a) xs"

lemma sorted_queue_insert:
  assumes "sorted (map k xs)"
  shows "sorted (map k (queue_insert k z xs))"
proof -
  have "sorted (map k (filter P xs))" for P using assms by (rule sorted_filter)
  then show ?thesis by (fastforce simp: queue_insert_def sorted_append)
qed

lemma rb_insert_ok:
  assumes "rb_queue s xs" "z \<noteq> 0" "z \<notin> set xs"
  shows "\<exists>s'. rb_insert z s = Some s' \<and> rb_queue s' (queue_insert (keys s) z xs) \<and> keys s' = keys s"
proof -
  obtain t where t: "tree_inv s t" "rb t" "ptrs t = xs" "sorted (map (keys s) xs)" using assms(1) by (auto simp: rb_queue_def)
  have sh: "shape (nodes s) (par []) t" "rb_root s = ptr t" using t(1) by (simp_all add: tree_inv_def par_def)
  obtain c lft where c: "t = fill c Leaf" "ins (keys s) z t = fill c (Node Leaf (RB_RED, z) Leaf)"
      "insert_descend s (keys s z) (par []) True (ptr t) = Some (par c, lft)" "c \<noteq> [] \<longrightarrow> (lft \<longleftrightarrow> fst (hd c) = L)"
    using insert_descend_ok [OF sh(1) refl, where z = z and lft = True] by auto
  let ?n = "nd L Leaf (RB_RED, z) Leaf"
  have n: "?n = Node Leaf (RB_RED, z) Leaf" by (simp add: nd_def)
  define u where "u = store_link (par c) lft z (upd z (\<lambda>n. n\<lparr> rb_parent := par c, rb_left := 0, rb_right := 0, rb_color := RB_RED \<rparr>) s)"
  have "z \<notin> cptrs c" using assms(3) t(3) c(1) set_fill [of c Leaf] by simp
  then have T: "tree_inv u (fill c ?n)" using store_new [of s c z lft] t(1) c(1,4) assms(2) by (simp add: u_def n)
  have "keys u = keys s" by (auto simp: u_def keys_def store_link_def fun_eq_iff upd_def)
  moreover have "rbok ?n" "cok c (bh Leaf)" using t(2) c(1) by (auto simp: rb_fill)
  ultimately obtain s' t' where s': "rb_insert_fixup z u = Some s'" "tree_inv s' t'" "rb t'" "ptrs t' = ptrs (ins (keys s) z t)" "keys s' = keys s"
    using insert_fixup_ok [OF T] c(2) n by auto
  have "rb_insert z s = Some s'" using assms(2) c(3) sh(2) s'(1) by (simp add: rb_insert_def u_def par_def keys_def)
  moreover have "rb_queue s' (queue_insert (keys s) z xs)"
    using s' ptrs_ins t(3,4) sorted_queue_insert by (auto simp: rb_queue_def queue_insert_def)
  ultimately show ?thesis using s'(5) by blast
qed

end
