(* ===== verification/RBTreeErase.thy ===== *)
theory RBTreeErase
  imports RBTreeInsert
begin

text \<open>
  \<open>rb_erase\<close> returns, keeps the red-black invariants and removes exactly the given node; the searches and the
  in-order successor on a represented tree; the bound on the height.
\<close>

section \<open>The deletion loop\<close>

text \<open>The iteration for either side, in two parts.\<close>

definition erase_case1 :: "dir \<Rightarrow> nat \<Rightarrow> nat \<Rightarrow> rbt \<Rightarrow> rbt \<times> nat" where
  "erase_case1 d xp w s = (let s1 = rotate d xp (rb_set_red xp (rb_set_black w s)) in (s1, child (opp d) (nodes s1 xp)))"

definition erase_case3 :: "dir \<Rightarrow> nat \<Rightarrow> nat \<Rightarrow> rbt \<Rightarrow> rbt \<times> nat" where
  "erase_case3 d xp w s =
     (let s1 = rotate (opp d) w (rb_set_red w (rb_set_black (child d (nodes s w)) s)) in (s1, child (opp d) (nodes s1 xp)))"

definition erase_case4 :: "dir \<Rightarrow> nat \<Rightarrow> nat \<Rightarrow> rbt \<Rightarrow> rbt" where
  "erase_case4 d xp w s =
     (let s1 = rb_set_black xp (set_color w (rb_color (nodes s xp)) s);
          s2 = (if child (opp d) (nodes s1 w) \<noteq> 0 then rb_set_black (child (opp d) (nodes s1 w)) s1 else s1)
      in rotate d xp s2)"

lemma child_LR: "child L = rb_left" "child R = rb_right"
  by (simp_all add: fun_eq_iff child_def)

lemma erase_sides:
  "erase_case1_left = erase_case1 L" "erase_case1_right = erase_case1 R" "erase_case3_left = erase_case3 L"
  "erase_case3_right = erase_case3 R" "erase_case4_left = erase_case4 L" "erase_case4_right = erase_case4 R"
  unfolding fun_eq_iff erase_case1_left_def erase_case1_right_def erase_case3_left_def erase_case3_right_def
    erase_case4_left_def erase_case4_right_def erase_case1_def erase_case3_def erase_case4_def rotate_sides opp.simps child_LR
  by blast+

definition erase_black :: "dir \<Rightarrow> nat \<Rightarrow> nat \<Rightarrow> bool \<Rightarrow> rbt \<times> nat \<Rightarrow> (rbt \<times> nat) option" where
  "erase_black d x xp xl sw = (case sw of (s, w) \<Rightarrow>
     if w = 0 then Some (s, x)
     else if rb_is_black s (rb_left (nodes s w)) \<and> rb_is_black s (rb_right (nodes s w))
     then let s2 = rb_set_red w s;
              q = rb_parent (nodes s2 xp)
          in erase_fixup_loop xp q (if q \<noteq> 0 then xp = rb_left (nodes s2 q) else xl) s2
     else case (if rb_is_black s (child (opp d) (nodes s w)) then erase_case3 d xp w s else (s, w)) of (s2, w2) \<Rightarrow>
       if w2 = 0 then Some (s2, x) else let s3 = erase_case4 d xp w2 s2 in Some (s3, rb_root s3))"

lemma erase_loop_step:
  assumes "x \<noteq> rb_root s" "rb_is_black s x" "xp \<noteq> 0" "xl \<longleftrightarrow> d = L" "child (opp d) (nodes s xp) = w" "w \<noteq> 0"
  shows "erase_fixup_loop x xp xl s = erase_black d x xp xl (if rb_is_red s w then erase_case1 d xp w s else (s, w))"
proof (cases d)
  case L
  show ?thesis unfolding L erase_black_def opp.simps child_LR using assms
    by (subst erase_fixup_loop.simps) (simp only: L child_LR erase_sides opp.simps Let_def [of w] simp_thms if_True if_False)
next
  case R
  show ?thesis unfolding R erase_black_def opp.simps child_LR using assms
    by (subst erase_fixup_loop.simps) (simp only: R child_LR erase_sides opp.simps Let_def [of w] simp_thms if_True if_False dir.distinct)
qed

lemma erase_loop_stop: "\<not> (x \<noteq> rb_root s \<and> rb_is_black s x) \<Longrightarrow> erase_fixup_loop x xp xl s = Some (s, x)"
  by (subst erase_fixup_loop.simps) simp

definition erased :: "(rbt \<times> nat) option \<Rightarrow> rbt \<Rightarrow> ctree \<Rightarrow> bool" where
  "erased v s t \<longleftrightarrow> (\<exists>s' t'. map_option (\<lambda>(s', x'). if x' \<noteq> 0 then rb_set_black x' s' else s') v = Some s' \<and>
     tree_inv s' t' \<and> rb t' \<and> ptrs t' = ptrs t \<and> keys s' = keys s)"

lemma erased_cong: "v = v' \<Longrightarrow> ptrs t = ptrs t' \<Longrightarrow> keys s = keys s' \<Longrightarrow> erased v' s' t' \<Longrightarrow> erased v s t"
  by (simp add: erased_def)

definition blacken :: "ctree \<Rightarrow> ctree" where
  "blacken t = (case t of Leaf \<Rightarrow> Leaf | Node l a r \<Rightarrow> Node l (RB_BLACK, snd a) r)"

lemma blacken_simps [simp]: "blacken Leaf = Leaf" "blacken (nd d t (c, a) u) = nd d t (RB_BLACK, a) u" "ptrs (blacken t) = ptrs t"
  "root_col (blacken t) = RB_BLACK"
  by (auto simp: blacken_def nd_def split: dir.split tree.split)

lemma blacken_black: "root_col t = RB_BLACK \<Longrightarrow> blacken t = t"
  by (auto simp: blacken_def split: tree.split)

lemma bh_blacken: "root_col t = RB_RED \<Longrightarrow> bh (blacken t) = Suc (bh t)"
  by (auto simp: blacken_def split: tree.split)

lemma tree_cases_nd: "t = Leaf \<or> (\<exists>l c a r. t = nd d l (c, a) r)"
proof (cases t)
  case (Node l a r)
  then show ?thesis by (cases a; cases d) (auto simp: nd_def)
qed simp

lemma set_black_pos:
  assumes "tree_inv s (fill c X)"
  shows "tree_inv (if ptr X \<noteq> 0 then rb_set_black (ptr X) s else s) (fill c (blacken X))"
    "keys (if ptr X \<noteq> 0 then rb_set_black (ptr X) s else s) = keys s"
proof -
  show "keys (if ptr X \<noteq> 0 then rb_set_black (ptr X) s else s) = keys s" by (simp add: rb_set_black_def)
  show "tree_inv (if ptr X \<noteq> 0 then rb_set_black (ptr X) s else s) (fill c (blacken X))"
    using tree_cases_nd [of X L]
  proof (elim disjE exE)
    fix l k a r
    assume X: "X = nd L l (k, a) r"
    then show ?thesis using recolor [of s c L l k a r RB_BLACK] inv_node(1) [of s c L l k a r] assms by simp
  qed (use assms in simp)
qed

text \<open>The loop stops at the root and at a red node, which is made black.\<close>

lemma erase_stop:
  assumes T: "tree_inv s (fill c X)" and r: "rbok (blacken X)" "cok c (Suc (bh X))" and x: "c = [] \<or> root_col X = RB_RED"
  shows "erased (erase_fixup_loop (ptr X) xp xl s) s (fill c X)"
proof -
  have "\<not> (ptr X \<noteq> rb_root s \<and> rb_is_black s (ptr X))"
    using x T is_red_ptr(2) [of s "par c" X] by (auto simp: tree_inv_fill)
  note l = erase_loop_stop [OF this]
  have "rb (fill c (blacken X))"
    using r x bh_blacken [of X] by (auto simp: rb_fill)
  then show ?thesis unfolding l erased_def using set_black_pos [OF T] ptrs_fill_cong [of "blacken X" X c] by auto
qed

text \<open>Recolouring at another place of the same tree.\<close>

lemma recolor_sibling:
  assumes "tree_inv s (fill ((d, (cp, p), nd e A (cw, w) B) # c) X)"
  shows "tree_inv (set_color w col s) (fill ((d, (cp, p), nd e A (col, w) B) # c) X)" "w \<noteq> 0" "p \<noteq> 0" "w \<noteq> p"
proof -
  have T: "tree_inv s (fill ((opp d, (cp, p), X) # c) (nd e A (cw, w) B))" using assms nd_opp [of d X] by simp
  from recolor [OF T, of col] show "tree_inv (set_color w col s) (fill ((d, (cp, p), nd e A (col, w) B) # c) X)"
    using nd_opp [of d X] by simp
  show "w \<noteq> 0" "p \<noteq> 0" using inv_node(1) [OF T] inv_parent(1) [OF T] by simp_all
  show "w \<noteq> p" using T by (auto simp: tree_inv_fill)
qed

lemma recolor_parent:
  assumes "tree_inv s (fill ((d, (cp, p), W) # c) X)"
  shows "tree_inv (set_color p col s) (fill ((d, (col, p), W) # c) X)"
  using recolor [of s c d X cp p W col] assms by simp

lemma erase_case1_ok:
  assumes T: "tree_inv s (fill ((d, (cp, p), nd d Wa (cw, w) Wb) # c) X)"
  shows "tree_inv (fst (erase_case1 d p w s)) (fill ((d, (RB_RED, p), Wa) # (d, (RB_BLACK, w), Wb) # c) X)"
    "snd (erase_case1 d p w s) = ptr Wa" "keys (fst (erase_case1 d p w s)) = keys s"
proof -
  note 1 = recolor_sibling(1) [OF T, of RB_BLACK] recolor_sibling(2-4) [OF T]
  have 2: "tree_inv (set_color p RB_RED (set_color w RB_BLACK s)) (fill c (nd d X (RB_RED, p) (nd d Wa (RB_BLACK, w) Wb)))"
    using recolor_parent [OF 1(1), of RB_RED] by simp
  note 3 = rotate_ok [OF 2]
  have e: "fst (erase_case1 d p w s) = rotate d p (set_color p RB_RED (set_color w RB_BLACK s))"
    "snd (erase_case1 d p w s) = child (opp d) (nodes (fst (erase_case1 d p w s)) p)"
    using 1 by (simp_all add: erase_case1_def Let_def)
  show T': "tree_inv (fst (erase_case1 d p w s)) (fill ((d, (RB_RED, p), Wa) # (d, (RB_BLACK, w), Wb) # c) X)" using 3(1) e by simp
  show "keys (fst (erase_case1 d p w s)) = keys s" using 3(2) e by simp
  show "snd (erase_case1 d p w s) = ptr Wa" unfolding e(2) by (rule inv_parent(5) [OF T'])
qed

lemma erase_case3_ok:
  assumes T: "tree_inv s (fill ((d, (cp, p), nd d (nd d Wx (cv, v) Wy) (cw, w) Wb) # c) X)"
  shows "tree_inv (fst (erase_case3 d p w s)) (fill ((d, (cp, p), nd d Wx (RB_BLACK, v) (nd d Wy (RB_RED, w) Wb)) # c) X)"
    "snd (erase_case3 d p w s) = v" "keys (fst (erase_case3 d p w s)) = keys s"
proof -
  let ?F = "(opp d, (cp, p), X)"
  have T0: "tree_inv s (fill (?F # c) (nd d (nd d Wx (cv, v) Wy) (cw, w) Wb))" using T nd_opp [of d X] by simp
  have v: "child d (nodes s w) = v" "w \<noteq> 0" "v \<noteq> 0"
    using inv_node(1,4) [OF T0] inv_node(1) [of s "(d, (cw, w), Wb) # ?F # c" d Wx cv v Wy] T0 by simp_all
  have "tree_inv (set_color v RB_BLACK s) (fill (?F # c) (nd d (nd d Wx (RB_BLACK, v) Wy) (cw, w) Wb))"
    using recolor [of s "(d, (cw, w), Wb) # ?F # c" d Wx cv v Wy RB_BLACK] T0 by simp
  from recolor [OF this, of RB_RED]
  have 2: "tree_inv (set_color w RB_RED (set_color v RB_BLACK s))
      (fill (?F # c) (nd (opp d) Wb (RB_RED, w) (nd (opp d) Wy (RB_BLACK, v) Wx)))"
    by (simp add: nd_opp [of d])
  note 3 = rotate_ok [OF 2]
  have e: "fst (erase_case3 d p w s) = rotate (opp d) w (set_color w RB_RED (set_color v RB_BLACK s))"
    "snd (erase_case3 d p w s) = child (opp d) (nodes (fst (erase_case3 d p w s)) p)"
    using v by (simp_all add: erase_case3_def Let_def)
  show T': "tree_inv (fst (erase_case3 d p w s)) (fill ((d, (cp, p), nd d Wx (RB_BLACK, v) (nd d Wy (RB_RED, w) Wb)) # c) X)"
    using 3(1) e by (simp add: nd_opp [of d])
  show "keys (fst (erase_case3 d p w s)) = keys s" using 3(2) e by simp
  show "snd (erase_case3 d p w s) = v" unfolding e(2) using inv_parent(5) [OF T'] by simp
qed

lemma erase_case4_ok:
  assumes T: "tree_inv s (fill ((d, (cp, p), nd d Wa (cw, w) (nd e A (cb, b) B)) # c) X)"
  shows "tree_inv (erase_case4 d p w s) (fill c (nd d (nd d X (RB_BLACK, p) Wa) (cp, w) (nd e A (RB_BLACK, b) B)))"
    "keys (erase_case4 d p w s) = keys s"
proof -
  note 1 = recolor_sibling(1) [OF T, of cp] recolor_sibling(2-4) [OF T]
  let ?s1 = "set_color p RB_BLACK (set_color w cp s)"
  have 2: "tree_inv ?s1 (fill ((d, (RB_BLACK, p), nd d Wa (cp, w) (nd e A (cb, b) B)) # c) X)"
    using recolor_parent [OF 1(1), of RB_BLACK] .
  let ?c = "(opp d, (cp, w), Wa) # (opp d, (RB_BLACK, p), X) # c"
  have 3: "tree_inv ?s1 (fill ?c (nd e A (cb, b) B))" using 2 nd_opp [of d X] nd_opp [of d Wa] by simp
  have b: "child (opp d) (nodes ?s1 w) = b" "b \<noteq> 0" using inv_parent(4) [OF 3] inv_node(1) [OF 3] by simp_all
  have 4: "tree_inv (set_color b RB_BLACK ?s1) (fill c (nd d X (RB_BLACK, p) (nd d Wa (cp, w) (nd e A (RB_BLACK, b) B))))"
    using recolor [OF 3, of RB_BLACK] nd_opp [of d X] nd_opp [of d Wa] by simp
  have col: "rb_color (nodes s p) = cp" using inv_parent(2) [OF T] .
  have e: "erase_case4 d p w s = rotate d p (set_color b RB_BLACK ?s1)"
    using b 1(3) col by (simp add: erase_case4_def Let_def)
  show "tree_inv (erase_case4 d p w s) (fill c (nd d (nd d X (RB_BLACK, p) Wa) (cp, w) (nd e A (RB_BLACK, b) B)))"
    unfolding e by (rule rotate_ok(1) [OF 4])
  show "keys (erase_case4 d p w s) = keys s" unfolding e using rotate_ok(2) [OF 4] by simp
qed

lemma bh_red: "bh t = bh u \<Longrightarrow> bh (nd d t (RB_RED, a) u) = bh u"
  by (simp add: bh_nd)

lemma bh_black: "bh t = bh u \<Longrightarrow> bh (nd d t (RB_BLACK, a) u) = Suc (bh u)"
  by (simp add: bh_nd)

definition up_ok :: "ctx \<Rightarrow> color \<Rightarrow> nat \<Rightarrow> bool" where
  "up_ok c cp n \<longleftrightarrow> cok c (n + (if cp = RB_BLACK then 1 else 0)) \<and> (cp = RB_RED \<longrightarrow> c \<noteq> [] \<and> par_col c = RB_BLACK)"

lemma erase_last_ok:
  assumes T: "tree_inv s (fill ((d, (cp, p), nd d Wa (cw, w) (nd e A (RB_RED, b) B)) # c) X)"
    and r: "rbok X" "rbok Wa" "bh Wa = bh X" "rbok (nd e A (RB_RED, b) B)" "bh (nd e A (RB_RED, b) B) = bh X" and c: "up_ok c cp (Suc (bh X))"
  shows "erased (Some (erase_case4 d p w s, rb_root (erase_case4 d p w s))) s (fill ((d, (cp, p), nd d Wa (cw, w) (nd e A (RB_RED, b) B)) # c) X)"
proof -
  let ?s = "erase_case4 d p w s"
  let ?t = "nd d (nd d X (RB_BLACK, p) Wa) (cp, w) (nd e A (RB_BLACK, b) B)"
  note T4 = erase_case4_ok [OF T]
  have B: "bh B = bh X" "bh A = bh B" using r(4,5) bh_red [of A B e b] by simp_all
  have bt: "bh ?t = Suc (bh X) + (if cp = RB_BLACK then 1 else 0)"
    using r(3) B bh_black [of X Wa d p] bh_black [of A B e b] bh_nd [of "nd d X (RB_BLACK, p) Wa" "nd e A (RB_BLACK, b) B" d cp w] by simp
  have rt: "rb (fill c ?t)"
    using c bt r B bh_black [of X Wa d p] bh_black [of A B e b] by (simp add: rb_fill up_ok_def)
  have root: "rb_root ?s = ptr (fill c ?t)" "blacken (fill c ?t) = fill c ?t" using T4(1) rt blacken_black by (simp_all add: tree_inv_def rb_def)
  have "ptrs (fill ((d, (cp, p), nd d Wa (cw, w) (nd e A (RB_RED, b) B)) # c) X) = ptrs (fill c ?t)"
    by (simp, rule ptrs_fill_cong) (cases d; cases e; simp add: ptrs_nd)
  then show ?thesis
    using set_black_pos [of ?s "[]" "fill c ?t"] T4 rt root unfolding erased_def by auto
qed

lemma both_children: "rb_is_black s (rb_left n) \<and> rb_is_black s (rb_right n) \<longleftrightarrow> rb_is_black s (child d n) \<and> rb_is_black s (child (opp d) n)"
  by (cases d) (auto simp: child_def)

lemma erase_black_ok:
  assumes T: "tree_inv s (fill ((d, (cp, p), nd d Wa (RB_BLACK, w) Wb) # c) X)"
    and r: "rbok X" "rbok Wa" "bh Wa = bh X" "rbok Wb" "bh Wb = bh X" and c: "up_ok c cp (Suc (bh X))"
    and up: "\<And>s' xl'. tree_inv s' (fill c (nd d X (cp, p) (nd d Wa (RB_RED, w) Wb))) \<Longrightarrow> keys s' = keys s \<Longrightarrow>
      (c \<noteq> [] \<longrightarrow> (xl' \<longleftrightarrow> fst (hd c) = L)) \<Longrightarrow> root_col Wa = RB_BLACK \<Longrightarrow> root_col Wb = RB_BLACK \<Longrightarrow>
      erased (erase_fixup_loop p (par c) xl' s') s' (fill c (nd d X (cp, p) (nd d Wa (RB_RED, w) Wb)))"
  shows "erased (erase_black d (ptr X) p xl (s, w)) s (fill ((d, (cp, p), nd d Wa (RB_BLACK, w) Wb) # c) X)"
proof -
  have T': "tree_inv s (fill ((opp d, (cp, p), X) # c) (nd d Wa (RB_BLACK, w) Wb))" using T nd_opp [of d X] by simp
  note w = inv_node [OF T']
  have sh: "shape (nodes s) w Wa" "shape (nodes s) w Wb" using T' by (auto simp: tree_inv_fill)
  have bl: "rb_is_black s (ptr Wa) \<longleftrightarrow> root_col Wa = RB_BLACK" "rb_is_black s (ptr Wb) \<longleftrightarrow> root_col Wb = RB_BLACK"
    using is_red_ptr(2) sh by blast+
  note e = erase_black_def [of d "ptr X" p xl "(s, w)", unfolded prod.case both_children [of s _ d] w(4,5) bl]
  show ?thesis
  proof (cases "root_col Wb = RB_RED")
    case True
    then obtain A b B where Wb: "Wb = nd L A (RB_RED, b) B" using tree_cases_nd [of Wb L] by auto
    show ?thesis using erase_last_ok [OF T [unfolded Wb]] r c e w(1) Wb by (simp add: Let_def)
  next
    case False
    then have Wb: "root_col Wb = RB_BLACK" using color_cases by blast
    show ?thesis
    proof (cases "root_col Wa = RB_RED")
      case True
      then obtain Wx v Wy where Wa: "Wa = nd d Wx (RB_RED, v) Wy" using tree_cases_nd [of Wa d] by auto
      note t3 = erase_case3_ok [OF T [unfolded Wa]]
      let ?s = "fst (erase_case3 d p w s)"
      have Wy: "bh Wy = bh X" "bh Wx = bh X" using r Wa bh_red [of Wx Wy d v] by simp_all
      have "erased (Some (erase_case4 d p v ?s, rb_root (erase_case4 d p v ?s))) ?s
          (fill ((d, (cp, p), nd d Wx (RB_BLACK, v) (nd d Wy (RB_RED, w) Wb)) # c) X)"
        using r Wy Wa Wb c bh_red [of Wy Wb d w] by (intro erase_last_ok [OF t3(1)]) simp_all
      moreover have "ptrs (fill ((d, (cp, p), nd d Wx (RB_BLACK, v) (nd d Wy (RB_RED, w) Wb)) # c) X) =
          ptrs (fill ((d, (cp, p), nd d Wa (RB_BLACK, w) Wb) # c) X)"
        by (simp, rule ptrs_fill_cong) (cases d; simp add: ptrs_nd Wa)
      moreover have "v \<noteq> 0" using sh(1) Wa by simp
      then have "erase_black d (ptr X) p xl (s, w) = Some (erase_case4 d p v ?s, rb_root (erase_case4 d p v ?s))"
        using e w(1) Wb True t3(2) by (simp add: Let_def case_prod_beta)
      ultimately show ?thesis using erased_cong t3(3) by metis
    next
      case False
      then have Wa: "root_col Wa = RB_BLACK" using color_cases by blast
      let ?s = "rb_set_red w s" and ?t = "nd d X (cp, p) (nd d Wa (RB_RED, w) Wb)"
      have T2: "tree_inv ?s (fill c ?t)" "keys ?s = keys s" using recolor_sibling(1) [OF T, of RB_RED] w(1) by simp_all
      have q: "rb_parent (nodes ?s p) = par c" using inv_node(3) [OF T2(1)] .
      have side: "(if par c \<noteq> 0 then p = rb_left (nodes ?s (par c)) else xl) \<longleftrightarrow> fst (hd c) = L" if ne: "c \<noteq> []"
      proof -
        obtain d' col a u c' where c': "c = (d', (col, a), u) # c'" using ne by (cases c) auto
        then show ?thesis using left_side [of ?s d' col a u c' ?t] inv_parent(1) [of ?s d' col a u c' ?t] T2(1) by (simp add: par_def)
      qed
      have pt: "ptrs (fill ((d, (cp, p), nd d Wa (RB_BLACK, w) Wb) # c) X) = ptrs (fill c ?t)"
        by (simp, rule ptrs_fill_cong) (cases d; simp add: ptrs_nd)
      have "erase_black d (ptr X) p xl (s, w) =
          erase_fixup_loop p (par c) (if par c \<noteq> 0 then p = rb_left (nodes ?s (par c)) else xl) ?s"
        unfolding e Let_def q using w(1) Wa Wb by simp
      then show ?thesis
        by (rule erased_cong [OF _ pt T2(2) [symmetric]]) (rule up [OF T2 _ Wa Wb], use side in blast)
    qed
  qed
qed

lemma root_in_ctx: "hole s p c \<Longrightarrow> c \<noteq> [] \<Longrightarrow> rb_root s \<in> cptrs c"
proof (induction s p c rule: hole.induct)
  case (2 s p d col a u c)
  then show ?case by (cases c) auto
qed simp

lemma erase_red_sibling:
  assumes T: "tree_inv s (fill ((d, (RB_BLACK, p), nd d Wa (RB_RED, w) Wb) # c) X)"
    and r: "rbok X" "root_col X = RB_BLACK" "rbok (nd d Wa (RB_RED, w) Wb)" "bh (nd d Wa (RB_RED, w) Wb) = Suc (bh X)"
    and c: "cok c (Suc (Suc (bh X)))"
  shows "erased (erase_black d (ptr X) p xl (erase_case1 d p w s)) s (fill ((d, (RB_BLACK, p), nd d Wa (RB_RED, w) Wb) # c) X)"
proof -
  note t1 = erase_case1_ok [OF T]
  let ?s = "fst (erase_case1 d p w s)" and ?c = "(d, (RB_BLACK, w), Wb) # c"
  have W: "rbok Wa" "rbok Wb" "bh Wa = Suc (bh X)" "bh Wb = Suc (bh X)" "root_col Wa = RB_BLACK"
    using r(3,4) bh_red [of Wa Wb d w] by auto
  obtain Va v Vb where Wa: "Wa = nd d Va (RB_BLACK, v) Vb" using tree_cases_nd [of Wa d] W(3,5) by auto
  have V: "rbok Va" "rbok Vb" "bh Va = bh X" "bh Vb = bh X" using W(1,3) Wa bh_black [of Va Vb d v] by auto
  let ?t = "nd d X (RB_RED, p) (nd d Va (RB_RED, v) Vb)"
  have stop: "erased (erase_fixup_loop p (par ?c) xl' s') s' (fill ?c ?t)"
    if "tree_inv s' (fill ?c ?t)" "root_col Va = RB_BLACK" "root_col Vb = RB_BLACK" for s' xl'
  proof -
    have "bh ?t = bh X" using V bh_red [of Va Vb d v] bh_red [of X "nd d Va (RB_RED, v) Vb" d p] by simp
    then show ?thesis using erase_stop [OF that(1), of "par ?c" xl'] that V W c r bh_red [of Va Vb d v] by simp
  qed
  have "erased (erase_black d (ptr X) p xl (?s, v)) ?s (fill ((d, (RB_RED, p), Wa) # ?c) X)"
    unfolding Wa using t1(1) V W(2,4) c r(1) Wa stop
    by (intro erase_black_ok) (simp_all add: up_ok_def par_col_def del: fill.simps)
  moreover have "erase_case1 d p w s = (?s, v)" using t1(2) Wa by (simp add: prod_eq_iff)
  moreover have "ptrs (fill ((d, (RB_BLACK, p), nd d Wa (RB_RED, w) Wb) # c) X) = ptrs (fill ((d, (RB_RED, p), Wa) # ?c) X)"
    by (simp, rule ptrs_fill_cong) (cases d; simp add: ptrs_nd)
  ultimately show ?thesis using t1(3) erased_cong by metis
qed

lemma erase_loop_ok:
  assumes "tree_inv s (fill c X)" "rbok (blacken X)" "cok c (Suc (bh X))" "c \<noteq> [] \<longrightarrow> (xl \<longleftrightarrow> fst (hd c) = L)"
  shows "erased (erase_fixup_loop (ptr X) (par c) xl s) s (fill c X)"
  using assms
proof (induction c arbitrary: s X xl)
  case Nil
  then show ?case by (intro erase_stop) simp_all
next
  case (Cons f c)
  obtain d cp p W where f: "f = (d, (cp, p), W)" by (cases f) auto
  note T = Cons.prems(1) [unfolded f]
  show ?case
  proof (cases "root_col X = RB_RED")
    case True
    then show ?thesis using Cons.prems by (intro erase_stop) simp_all
  next
    case False
    then have X: "root_col X = RB_BLACK" "rbok X" using color_cases blacken_black Cons.prems(2) by metis+
    have W: "rbok W" "bh W = Suc (bh X)" "cp = RB_RED \<longrightarrow> root_col W = RB_BLACK \<and> c \<noteq> [] \<and> par_col c = RB_BLACK"
        "cok c (Suc (bh X) + (if cp = RB_BLACK then 1 else 0))"
      using Cons.prems(3) f by auto
    obtain Wa cw w Wb where w: "W = nd d Wa (cw, w) Wb" using tree_cases_nd [of W d] W(2) by auto
    have pos: "hole s (ptr X) (f # c)" "shape (nodes s) (par (f # c)) X" "set (ptrs X) \<inter> cptrs (f # c) = {}"
      using Cons.prems(1) by (simp_all only: tree_inv_fill)
    have x: "ptr X \<noteq> rb_root s" "rb_is_black s (ptr X)"
      using root_in_ctx [OF pos(1)] ptr_in [of X] pos(3) hole_nonzero [OF pos(1)] is_red_ptr(2) [OF pos(2)] X(1) by auto
    have p: "p \<noteq> 0" "child (opp d) (nodes s p) = w" "w \<noteq> 0" "rb_is_red s w \<longleftrightarrow> cw = RB_RED" "xl \<longleftrightarrow> d = L"
      using inv_parent(1,5) [OF T] T w is_red_ptr(1) [of s p W] Cons.prems(4) f by (auto simp: tree_inv_fill)
    have loop: "erase_fixup_loop (ptr X) (par (f # c)) xl s = erase_black d (ptr X) p xl (if cw = RB_RED then erase_case1 d p w s else (s, w))"
      using erase_loop_step [OF x p(1,5,2,3)] p(4) f by (simp add: par_def)
    show ?thesis
    proof (cases "cw = RB_RED")
      case red: True
      then have "cp = RB_BLACK" using W(3) w color_cases [of cp] by auto
      then show ?thesis using erase_red_sibling [of s d p Wa w Wb c X xl] T W X w red loop f by simp
    next
      case False
      then have cw: "cw = RB_BLACK" using color_cases by blast
      have V: "rbok Wa" "rbok Wb" "bh Wa = bh X" "bh Wb = bh X" using W(1,2) w cw bh_black [of Wa Wb d w] by auto
      let ?t = "nd d X (cp, p) (nd d Wa (RB_RED, w) Wb)"
      have "bh ?t = bh X + (if cp = RB_BLACK then 1 else 0)" using V bh_red [of Wa Wb d w] bh_nd [of X "nd d Wa (RB_RED, w) Wb" d cp p] by simp
      then have up: "erased (erase_fixup_loop p (par c) xl' s') s' (fill c ?t)"
        if "tree_inv s' (fill c ?t)" "c \<noteq> [] \<longrightarrow> (xl' \<longleftrightarrow> fst (hd c) = L)" "root_col Wa = RB_BLACK" "root_col Wb = RB_BLACK" for s' xl'
        using Cons.IH [OF that(1) _ _ that(2)] that V X W(4) bh_red [of Wa Wb d w] by simp
      have "erased (erase_black d (ptr X) p xl (s, w)) s (fill ((d, (cp, p), nd d Wa (RB_BLACK, w) Wb) # c) X)"
        using T w cw V X W(3,4) up by (intro erase_black_ok) (simp_all add: up_ok_def)
      then show ?thesis using loop cw w f by simp
    qed
  qed
qed

end
