(* ===== verification/RBTreeRemove.thy ===== *)
theory RBTreeRemove
  imports RBTreeErase
begin

text \<open>
  The pointer surgery of \<open>rb_erase\<close> before the fix-up, its total correctness, the searches, and the
  interface the scheduler uses.
\<close>

section \<open>Replacing a subtree\<close>

lemma transplant_relink:
  "rb_transplant u v s = (let s1 = relink u v s in if v \<noteq> 0 then set_parent v (rb_parent (nodes s1 u)) s1 else s1)"
  by (simp add: rb_transplant_def relink_def Let_def)

text \<open>The subtree at a position is replaced by another one that is already in the heap.\<close>

lemma transplant_ok:
  assumes h: "hole s u c" "rb_parent (nodes s u) = par c" "u \<noteq> 0" "u \<notin> cptrs c" "cdistinct c"
    and V: "shape (nodes s) q V" "distinct (ptrs V)" "set (ptrs V) \<inter> cptrs c = {}"
  shows "tree_inv (rb_transplant u (ptr V) s) (fill c V)" "keys (rb_transplant u (ptr V) s) = keys s"
    "\<And>a. a \<notin> cptrs c \<Longrightarrow> a \<noteq> ptr V \<Longrightarrow> nodes (rb_transplant u (ptr V) s) a = nodes s a"
proof -
  note r = relink_ok [OF h, where y = "ptr V"]
  let ?s1 = "relink u (ptr V) s"
  have e: "rb_transplant u (ptr V) s = (if ptr V \<noteq> 0 then set_parent (ptr V) (par c) ?s1 else ?s1)"
    using r(2) [OF h(4)] h(2) by (simp add: transplant_relink Let_def)
  have "shape (nodes ?s1) q V = shape (nodes s) q V" by (rule shape_cong, rule r(2)) (use V(3) in blast)
  then have V1: "shape (nodes ?s1) q V" using V(1) by simp
  have nV: "ptr V \<noteq> 0 \<Longrightarrow> ptr V \<notin> cptrs c" using ptr_in [of V] V(3) by auto
  show "keys (rb_transplant u (ptr V) s) = keys s" using r(3) e by (cases "ptr V = 0") auto
  show "\<And>a. a \<notin> cptrs c \<Longrightarrow> a \<noteq> ptr V \<Longrightarrow> nodes (rb_transplant u (ptr V) s) a = nodes s a"
    using r(2) e by (cases "ptr V = 0") auto
  show "tree_inv (rb_transplant u (ptr V) s) (fill c V)"
  proof (cases "ptr V = 0")
    case True
    then have "V = Leaf" using V1 by (cases V) auto
    then show ?thesis using e r(1) h(5) by (simp add: tree_inv_fill)
  next
    case False
    then show ?thesis using e r(1) h(5) shape_reparent [OF V1 V(2) False] nV V(2,3) by (auto simp: tree_inv_fill)
  qed
qed

text \<open>Deleting a node with at most one child.\<close>

lemma erase_one_child:
  assumes T: "tree_inv s (fill c (nd d Leaf (cz, z) V))"
  shows "tree_inv (rb_transplant z (ptr V) s) (fill c V)" "keys (rb_transplant z (ptr V) s) = keys s"
  using transplant_ok(1,2) [of s z c z V] T by (auto simp: tree_inv_fill)

definition removed :: "rbt option \<Rightarrow> rbt \<Rightarrow> nat list \<Rightarrow> bool" where
  "removed v s xs \<longleftrightarrow> (\<exists>s' t'. v = Some s' \<and> tree_inv s' t' \<and> rb t' \<and> ptrs t' = xs \<and> keys s' = keys s)"

text \<open>The fix-up after a node of the given colour was taken out above the position.\<close>

lemma fixup_removed:
  assumes T: "tree_inv s (fill c X)" and X: "rbok X" "cok c (bh X + (if col = RB_BLACK then 1 else 0))"
    and r: "col = RB_RED \<Longrightarrow> root_col X = RB_BLACK" and side: "c \<noteq> [] \<longrightarrow> (xl \<longleftrightarrow> fst (hd c) = L)"
  shows "removed (if col = RB_BLACK then rb_erase_fixup (ptr X) (par c) xl s else Some s) s (ptrs (fill c X))"
proof (cases "col = RB_BLACK")
  case True
  have "rbok (blacken X)" using X(1) by (cases X) (auto simp: blacken_def)
  from erase_loop_ok [OF T this _ side] X(2) True show ?thesis by (simp add: erased_def removed_def rb_erase_fixup_def)
next
  case False
  then have "col = RB_RED" using color_cases by blast
  then have "rb (fill c X)" using X r by (simp add: rb_fill)
  then show ?thesis using T False by (auto simp: removed_def)
qed

text \<open>The nodes before and after a position.\<close>

fun before :: "ctx \<Rightarrow> nat list" where
  "before [] = []"
| "before ((L, a, u) # c) = before c"
| "before ((R, a, u) # c) = before c @ ptrs u @ [snd a]"

fun after :: "ctx \<Rightarrow> nat list" where
  "after [] = []"
| "after ((L, a, u) # c) = snd a # ptrs u @ after c"
| "after ((R, a, u) # c) = after c"

lemma ptrs_fill: "ptrs (fill c t) = before c @ ptrs t @ after c"
proof (induction c arbitrary: t)
  case (Cons f c)
  obtain d a u where f: "f = (d, a, u)" by (cases f) auto
  then show ?case by (cases d) (simp_all add: Cons.IH ptrs_nd)
qed simp

lemma filter_neq: "z \<notin> set xs \<Longrightarrow> filter (\<lambda>a. a \<noteq> z) xs = xs"
  by (induction xs) auto

lemma remove_mid: "distinct (lo @ xs @ z # ys @ hi) \<Longrightarrow> lo @ xs @ ys @ hi = filter (\<lambda>a. a \<noteq> z) (lo @ xs @ z # ys @ hi)"
  by (simp add: filter_neq)

lemma removed_cong: "removed v s xs \<Longrightarrow> keys s = keys s' \<Longrightarrow> removed v s' xs"
  by (simp add: removed_def)

lemma erase_one_ok:
  assumes T: "tree_inv s (fill c (nd d Leaf (cz, z) V))" and r: "rb (fill c (nd d Leaf (cz, z) V))"
    and xl: "xl = (if rb_parent (nodes s z) \<noteq> 0 then z = rb_left (nodes s (rb_parent (nodes s z))) else False)"
  shows "removed (let s1 = rb_transplant z (ptr V) s in if rb_color (nodes s z) = RB_BLACK
      then rb_erase_fixup (ptr V) (rb_parent (nodes s z)) xl s1 else Some s1) s (filter (\<lambda>a. a \<noteq> z) (ptrs (fill c (nd d Leaf (cz, z) V))))"
proof -
  note z = inv_node [OF T]
  note t = erase_one_child [OF T]
  have side: "c \<noteq> [] \<longrightarrow> (xl \<longleftrightarrow> fst (hd c) = L)"
  proof (cases c)
    case (Cons f c')
    obtain e col a u where f: "f = (e, (col, a), u)" by (cases f) auto
    show ?thesis using left_side [OF T [unfolded Cons f]] inv_parent(1) [OF T [unfolded Cons f]] z(3) xl Cons f by (simp add: par_def)
  qed simp
  have b: "rbok V" "bh V = 0" "cz = RB_RED \<Longrightarrow> root_col V = RB_BLACK" "cok c (bh V + (if cz = RB_BLACK then 1 else 0))"
    using r bh_nd [of Leaf V d cz z] by (auto simp: rb_fill)
  have "distinct (ptrs (fill c (nd d Leaf (cz, z) V)))" using T by (simp add: tree_inv_def)
  then have pt: "ptrs (fill c V) = filter (\<lambda>a. a \<noteq> z) (ptrs (fill c (nd d Leaf (cz, z) V)))"
    using remove_mid [of "before c" "[]" z "ptrs V" "after c"] remove_mid [of "before c" "ptrs V" z "[]" "after c"]
    by (cases d) (simp_all add: ptrs_fill ptrs_nd)
  show ?thesis unfolding Let_def z(2,3) pt [symmetric] by (rule removed_cong [OF fixup_removed [OF t(1) b(1,4,3) side] t(2)])
qed

section \<open>Deleting a node with two children\<close>

lemma fill_append: "fill (c1 @ c2) t = fill c2 (fill c1 t)"
  by (induction c1 t rule: fill.induct) simp_all

lemma leftmost_ok:
  assumes "shape (nodes s) q t" "t \<noteq> Leaf"
  shows "\<exists>c cy y X. t = fill c (nd L Leaf (cy, y) X) \<and> leftmost s (ptr t) = Some y \<and> (\<forall>f \<in> set c. fst f = L)"
  using assms
proof (induction t arbitrary: q)
  case (Node l b r)
  obtain col a where b: "b = (col, a)" by (cases b) auto
  have l: "rb_left (nodes s a) = ptr l" "shape (nodes s) a l" using Node.prems b by simp_all
  show ?case
  proof (cases "l = Leaf")
    case True
    then show ?thesis using b l by (subst leftmost.simps) (auto simp: nd_def intro!: exI [of _ "[]"])
  next
    case False
    then have "ptr l \<noteq> 0" using l(2) by (cases l) auto
    then have "leftmost s a = leftmost s (ptr l)" using l(1) by (subst leftmost.simps) simp
    moreover obtain c cy y X where c: "l = fill c (nd L Leaf (cy, y) X)" "leftmost s (ptr l) = Some y" "\<forall>f \<in> set c. fst f = L"
      using Node.IH(1) [OF l(2) False] by blast
    have "Node l b r = fill (c @ [(L, b, r)]) (nd L Leaf (cy, y) X)" by (simp add: fill_append c(1) [symmetric]) (simp add: nd_def)
    moreover have "\<forall>f \<in> set (c @ [(L, b, r)]). fst f = L" using c(3) by simp
    moreover have "ptr (Node l b r) = a" by (simp add: b)
    ultimately show ?thesis using c(2) by metis
  qed
qed simp

text \<open>The steps that put the successor \<open>y\<close> in the place of \<open>z\<close>, once it has its right subtree \<open>Q\<close>.\<close>

definition replace_by :: "nat \<Rightarrow> nat \<Rightarrow> rbt \<Rightarrow> rbt" where
  "replace_by z y s =
     (let s2 = rb_transplant z y s;
          s3 = set_left y (rb_left (nodes s2 z)) s2;
          s4 = (if rb_left (nodes s3 y) \<noteq> 0 then set_parent (rb_left (nodes s3 y)) y s3 else s3)
      in set_color y (rb_color (nodes s4 z)) s4)"

lemma replace_by_ok:
  assumes h: "hole s z c" "z \<noteq> 0" "z \<notin> cptrs c" "cdistinct c"
    and z: "rb_parent (nodes s z) = par c" "rb_left (nodes s z) = ptr A" "rb_color (nodes s z) = cz" "shape (nodes s) z A"
    and y: "y \<noteq> 0" "y \<noteq> z" "rb_right (nodes s y) = ptr Q" "shape (nodes s) y Q"
    and ds: "distinct (ptrs A)" "distinct (ptrs Q)" "set (ptrs A) \<inter> set (ptrs Q) = {}" "y \<notin> set (ptrs A)" "y \<notin> set (ptrs Q)"
      "z \<notin> set (ptrs A)" "z \<notin> set (ptrs Q)" "y \<notin> cptrs c" "set (ptrs A) \<inter> cptrs c = {}" "set (ptrs Q) \<inter> cptrs c = {}"
  shows "tree_inv (replace_by z y s) (fill c (nd L A (cz, y) Q))" "keys (replace_by z y s) = keys s"
proof -
  note r = relink_ok [OF h(1) z(1) h(2,3,4), where y = y]
  let ?s1 = "relink z y s"
  have n1: "nodes ?s1 a = nodes s a" if "a \<notin> cptrs c" for a using r(2) that .
  have t: "rb_transplant z y s = set_parent y (par c) ?s1" using y(1) z(1) n1 [OF h(3)] by (simp add: transplant_relink Let_def)
  have sh: "shape (nodes ?s1) q U = shape (nodes s) q U" if "set (ptrs U) \<inter> cptrs c = {}" for q U
    by (rule shape_cong, rule n1) (use that in blast)
  let ?s3 = "set_left y (ptr A) (set_parent y (par c) ?s1)"
  have s3: "hole ?s3 y c" "shape (nodes ?s3) z A" "shape (nodes ?s3) y Q" "rb_parent (nodes ?s3 y) = par c" "rb_right (nodes ?s3 y) = ptr Q"
      "rb_left (nodes ?s3 y) = ptr A" "nodes ?s3 z = nodes s z"
    using r(1) ds z(4) y sh n1 h(3) by simp_all
  define s4 where "s4 = (if ptr A \<noteq> 0 then set_parent (ptr A) y ?s3 else ?s3)"
  have nA: "ptr A \<noteq> 0 \<Longrightarrow> ptr A \<in> set (ptrs A)" using ptr_in [of A] by auto
  have A4: "shape (nodes s4) y A"
  proof (cases "ptr A = 0")
    case True
    then show ?thesis using s3(2) by (cases A) auto
  next
    case False
    then show ?thesis using shape_reparent [OF s3(2) ds(1) False] by (simp add: s4_def)
  qed
  have s4: "hole s4 y c" "shape (nodes s4) y Q" "nodes s4 y = nodes ?s3 y" "rb_color (nodes s4 z) = cz"
  proof -
    have "ptr A \<noteq> 0 \<Longrightarrow> ptr A \<notin> cptrs c \<and> ptr A \<notin> set (ptrs Q) \<and> ptr A \<noteq> y \<and> ptr A \<noteq> z" using nA ds by blast
    then show "hole s4 y c" "shape (nodes s4) y Q" "nodes s4 y = nodes ?s3 y" "rb_color (nodes s4 z) = cz"
      using s3 z(3) by (auto simp: s4_def)
  qed
  have "replace_by z y s = set_color y (rb_color (nodes s4 z)) s4"
    using y(2) n1 [OF h(3)] z(2) by (simp add: replace_by_def t Let_def s4_def)
  then have e: "replace_by z y s = set_color y cz s4" using s4(4) by simp
  show "keys (replace_by z y s) = keys s" unfolding e using r(3) by (simp add: s4_def)
  show "tree_inv (replace_by z y s) (fill c (nd L A (cz, y) Q))"
    unfolding e tree_inv_fill using s4 A4 s3(4,5,6) ds h(4) y(1) by (auto simp: child_def)
qed

lemma par_col_append: "par_col (c1 @ (d, (col, a), u) # c2) = par_col (c1 @ (d, (col, b), u) # c2)"
  by (cases c1) (simp_all add: par_col_def)

lemma cok_append: "cok (c1 @ (d, (col, a), u) # c2) n = cok (c1 @ (d, (col, b), u) # c2) n"
proof (induction c1 arbitrary: n)
  case (Cons f c1)
  obtain e k p w where "f = (e, (k, p), w)" by (cases f) auto
  then show ?case using Cons.IH par_col_append [of c1 d col a u c2 b] by simp
qed simp

lemma set_parent_same: "rb_parent (nodes s x) = y \<Longrightarrow> set_parent x y s = s"
  by (auto simp: upd_def)

text \<open>The successor is taken out of its place and gets the right subtree of \<open>z\<close>.\<close>

definition take_out :: "nat \<Rightarrow> nat \<Rightarrow> rbt \<Rightarrow> rbt" where
  "take_out z y s =
     (let t1 = rb_transplant y (rb_right (nodes s y)) s;
          t2 = set_right y (rb_right (nodes t1 z)) t1
      in if rb_right (nodes t2 y) \<noteq> 0 then set_parent (rb_right (nodes t2 y)) y t2 else t2)"

lemma take_out_ok:
  assumes T: "tree_inv s (fill c (nd L A (cz, z) (fill c2 (nd L Leaf (cy, y) X))))" and ne: "c2 \<noteq> []"
  shows "tree_inv (replace_by z y (take_out z y s)) (fill c (nd L A (cz, y) (fill c2 X)))" "keys (replace_by z y (take_out z y s)) = keys s"
proof -
  let ?Q = "fill c2 X" and ?C = "c2 @ (R, (cz, z), A) # c"
  have T0: "tree_inv s (fill ?C (nd L Leaf (cy, y) X))" using T nd_opp [of L A] by (simp add: fill_append)
  have x: "rb_right (nodes s y) = ptr X" "y \<noteq> 0" using inv_node(1,5) [OF T0] by (simp_all add: child_def)
  define t1 where "t1 = rb_transplant y (ptr X) s"
  have pos: "hole s y ?C" "rb_parent (nodes s y) = par ?C" "y \<notin> cptrs ?C" "cdistinct ?C" "shape (nodes s) y X" "distinct (ptrs X)"
      "set (ptrs X) \<inter> cptrs ?C = {}" "y \<notin> set (ptrs X)"
    using T0 unfolding tree_inv_fill by auto
  note tr = transplant_ok [OF pos(1,2) x(2) pos(3,4,5,6,7), folded t1_def]
  have yX: "y \<noteq> ptr X" using ptr_in [of X] x(2) pos(8) by auto
  have y1: "nodes t1 y = nodes s y" using tr(3) pos(3) yX by blast
  have T1: "tree_inv t1 (fill c (nd L A (cz, z) ?Q))" using tr(1) nd_opp [of L A] by (simp add: fill_append)
  note z = inv_node [OF T1]
  have h1: "hole t1 z c" "shape (nodes t1) z A" "shape (nodes t1) z ?Q" "cdistinct c" "distinct (ptrs A)" "distinct (ptrs ?Q)"
      "set (ptrs A) \<inter> set (ptrs ?Q) = {}" "z \<notin> set (ptrs A)" "z \<notin> set (ptrs ?Q)" "z \<notin> cptrs c" "set (ptrs A) \<inter> cptrs c = {}" "set (ptrs ?Q) \<inter> cptrs c = {}"
    using T1 unfolding tree_inv_fill by auto
  have yd: "y \<notin> set (ptrs ?Q)" "y \<notin> set (ptrs A)" "y \<noteq> z" "y \<notin> cptrs c"
  proof -
    have "distinct (ptrs (fill c (nd L A (cz, z) (fill c2 (nd L Leaf (cy, y) X)))))" using T by (simp add: tree_inv_def)
    then show "y \<notin> set (ptrs ?Q)" "y \<notin> set (ptrs A)" "y \<noteq> z" "y \<notin> cptrs c" by (auto simp: distinct_fill set_fill)
  qed
  have "set (ptrs ?Q) \<noteq> {}" using ne by (cases c2) (auto simp: set_fill)
  then have Q: "ptr ?Q \<noteq> 0" "ptr ?Q \<in> set (ptrs ?Q)" using h1(3) ptr_in [of ?Q] by (cases ?Q; force)+
  then have Qd: "ptr ?Q \<notin> cptrs c" "ptr ?Q \<notin> set (ptrs A)" "ptr ?Q \<noteq> z" "ptr ?Q \<noteq> y" using h1(7,9,12) yd(1) by auto
  have to: "take_out z y s = set_parent (ptr ?Q) y (set_right y (ptr ?Q) t1)"
    using x(1) z(5) Q(1) by (simp add: take_out_def t1_def [symmetric] child_def Let_def)
  have "shape (nodes (set_right y (ptr ?Q) t1)) z ?Q" using h1(3) yd(1) by simp
  from shape_reparent [OF this h1(6) Q(1)] have Qs: "shape (nodes (take_out z y s)) y ?Q" by (simp add: to)
  have "keys (take_out z y s) = keys s" using tr(2) by (simp add: to)
  moreover have "hole (take_out z y s) z c" "shape (nodes (take_out z y s)) z A" "nodes (take_out z y s) z = nodes t1 z"
      "rb_right (nodes (take_out z y s) y) = ptr ?Q"
    using h1 yd Qd by (simp_all add: to)
  ultimately show "tree_inv (replace_by z y (take_out z y s)) (fill c (nd L A (cz, y) ?Q))" "keys (replace_by z y (take_out z y s)) = keys s"
    using replace_by_ok [of "take_out z y s" z c A cz y ?Q] h1 yd z x(2) Qs by (simp_all add: child_def)
qed

lemma erase_two:
  assumes "z \<noteq> 0" "rb_left (nodes s z) \<noteq> 0" "rb_right (nodes s z) \<noteq> 0" "leftmost s (rb_right (nodes s z)) = Some y"
  shows "rb_erase z s =
    (let direct = (rb_parent (nodes s y) = z);
         x = rb_right (nodes s y);
         s5 = replace_by z y (if direct then if x \<noteq> 0 then set_parent x y s else s else take_out z y s);
         xp = (if direct then y else rb_parent (nodes s y))
     in if rb_color (nodes s y) = RB_BLACK
        then rb_erase_fixup x xp (if direct then False else y = rb_left (nodes s xp)) s5 else Some s5)"
  using assms by (simp add: rb_erase_def replace_by_def take_out_def Let_def)

lemma direct_ok:
  assumes T: "tree_inv s (fill c (nd L A (cz, z) (nd L Leaf (cy, y) X)))"
  shows "tree_inv (replace_by z y s) (fill c (nd L A (cz, y) X))" "keys (replace_by z y s) = keys s"
    "ptr X \<noteq> 0 \<Longrightarrow> set_parent (ptr X) y s = s"
proof -
  have sh: "shape (nodes s) (par c) (nd L A (cz, z) (nd L Leaf (cy, y) X))" "hole s z c" "cdistinct c" "z \<notin> cptrs c" "y \<notin> cptrs c" "y \<noteq> z"
      "distinct (ptrs A)" "distinct (ptrs X)" "set (ptrs A) \<inter> set (ptrs X) = {}" "y \<notin> set (ptrs A)" "y \<notin> set (ptrs X)"
      "z \<notin> set (ptrs A)" "z \<notin> set (ptrs X)" "set (ptrs A) \<inter> cptrs c = {}" "set (ptrs X) \<inter> cptrs c = {}"
    using T by (auto simp: tree_inv_fill)
  then show "tree_inv (replace_by z y s) (fill c (nd L A (cz, y) X))" "keys (replace_by z y s) = keys s"
    using replace_by_ok [of s z c A cz y X] by (simp_all add: child_def)
  have "shape (nodes s) y X" using sh(1) by simp
  then show "ptr X \<noteq> 0 \<Longrightarrow> set_parent (ptr X) y s = s" by (intro set_parent_same) (cases X; auto)
qed

lemma all_left: "\<forall>f \<in> set c. fst f = L \<Longrightarrow> before c = []"
  by (induction c rule: before.induct) auto

lemma erase_two_ptrs:
  assumes T: "tree_inv s (fill c (nd L A (cz, z) (fill c2 (nd L Leaf (cy, y) X))))" and l: "\<forall>f \<in> set c2. fst f = L"
  shows "ptrs (fill c (nd L A (cz, y) (fill c2 X))) = filter (\<lambda>a. a \<noteq> z) (ptrs (fill c (nd L A (cz, z) (fill c2 (nd L Leaf (cy, y) X)))))"
proof -
  have "distinct (before c @ ptrs A @ z # (y # ptrs X @ after c2) @ after c)"
    using T all_left [OF l] by (simp add: tree_inv_def ptrs_fill ptrs_nd)
  from remove_mid [OF this] show ?thesis by (simp add: ptrs_fill ptrs_nd all_left [OF l])
qed

lemma erase_two_body:
  assumes T: "tree_inv s (fill c (nd L A (cz, z) (fill c2 (nd L Leaf (cy, y) X))))" and l: "\<forall>f \<in> set c2. fst f = L"
    and xp: "xp = (if rb_parent (nodes s y) = z then y else rb_parent (nodes s y))"
    and s1: "s1 = (if rb_parent (nodes s y) = z then if ptr X \<noteq> 0 then set_parent (ptr X) y s else s else take_out z y s)"
  shows "tree_inv (replace_by z y s1) (fill (c2 @ (R, (cz, y), A) # c) X)" "keys (replace_by z y s1) = keys s"
    "xp = par (c2 @ (R, (cz, y), A) # c)"
    "(if rb_parent (nodes s y) = z then False else y = rb_left (nodes s xp)) \<longleftrightarrow> fst (hd (c2 @ (R, (cz, y), A) # c)) = L"
proof -
  let ?C = "c2 @ (R, (cz, z), A) # c"
  have T0: "tree_inv s (fill ?C (nd L Leaf (cy, y) X))" using T nd_opp [of L A] by (simp add: fill_append)
  have par: "rb_parent (nodes s y) = par ?C" by (rule inv_node(3) [OF T0])
  have f: "fill (c2 @ (R, (cz, y), A) # c) X = fill c (nd L A (cz, y) (fill c2 X))" using nd_opp [of L A] by (simp add: fill_append)
  have "tree_inv (replace_by z y s1) (fill c (nd L A (cz, y) (fill c2 X))) \<and> keys (replace_by z y s1) = keys s \<and>
    xp = par (c2 @ (R, (cz, y), A) # c) \<and>
    ((if rb_parent (nodes s y) = z then False else y = rb_left (nodes s xp)) \<longleftrightarrow> fst (hd (c2 @ (R, (cz, y), A) # c)) = L)"
  proof (cases c2)
    case Nil
    then have "rb_parent (nodes s y) = z" using par by (simp add: par_def)
    moreover have "s1 = s" using s1 calculation direct_ok(3) [of s c A cz z cy y X] T Nil by simp
    ultimately show ?thesis using direct_ok(1,2) [of s c A cz z cy y X] T Nil xp by (simp add: par_def)
  next
    case (Cons g c3)
    obtain k a u where g: "g = (L, (k, a), u)" using Cons l by (cases g) auto
    have az: "a \<noteq> z" "rb_parent (nodes s y) = a"
    proof -
      have "cdistinct ?C" using T0 unfolding tree_inv_fill by blast
      moreover have "z \<in> cptrs (c3 @ (R, (cz, z), A) # c)" by (induction c3) auto
      ultimately show "a \<noteq> z" using Cons g by auto
      show "rb_parent (nodes s y) = a" using par Cons g by (simp add: par_def)
    qed
    have "y = rb_left (nodes s a)" using inv_parent(4) [of s L k a u "c3 @ (R, (cz, z), A) # c" "nd L Leaf (cy, y) X"] T0 Cons g by (simp add: child_def)
    then show ?thesis using take_out_ok [OF T] Cons g az xp s1 by (simp add: par_def)
  qed
  then show "tree_inv (replace_by z y s1) (fill (c2 @ (R, (cz, y), A) # c) X)" "keys (replace_by z y s1) = keys s"
    "xp = par (c2 @ (R, (cz, y), A) # c)"
    "(if rb_parent (nodes s y) = z then False else y = rb_left (nodes s xp)) \<longleftrightarrow> fst (hd (c2 @ (R, (cz, y), A) # c)) = L"
    unfolding f by blast+
qed

lemma erase_two_ok:
  assumes T: "tree_inv s (fill c (nd L A (cz, z) W))" and r: "rb (fill c (nd L A (cz, z) W))" and ne: "A \<noteq> Leaf" "W \<noteq> Leaf"
  shows "removed (rb_erase z s) s (filter (\<lambda>a. a \<noteq> z) (ptrs (fill c (nd L A (cz, z) W))))"
proof -
  note z = inv_node [OF T]
  have sh: "shape (nodes s) z A" "shape (nodes s) z W" using T by (auto simp: tree_inv_fill)
  obtain c2 cy y X where W: "W = fill c2 (nd L Leaf (cy, y) X)" "leftmost s (ptr W) = Some y" "\<forall>f \<in> set c2. fst f = L"
    using leftmost_ok [OF sh(2) ne(2)] by blast
  have nz: "ptr A \<noteq> 0" "ptr W \<noteq> 0" using sh ne by (cases A; force)+ (use sh ne in \<open>cases W; force\<close>)
  let ?C = "c2 @ (R, (cz, z), A) # c" and ?C' = "c2 @ (R, (cz, y), A) # c"
  have T0: "tree_inv s (fill ?C (nd L Leaf (cy, y) X))" using T W(1) nd_opp [of L A] by (simp add: fill_append)
  note y = inv_node [OF T0]
  have X: "rbok X" "cy = RB_RED \<Longrightarrow> root_col X = RB_BLACK" "cok ?C' (bh X + (if cy = RB_BLACK then 1 else 0))"
  proof -
    have "rb (fill ?C (nd L Leaf (cy, y) X))" using r W(1) nd_opp [of L A] by (simp add: fill_append)
    then show "rbok X" "cy = RB_RED \<Longrightarrow> root_col X = RB_BLACK" "cok ?C' (bh X + (if cy = RB_BLACK then 1 else 0))"
      using bh_nd [of Leaf X L cy y] cok_append [of c2 R cz z A c _ y] by (auto simp: rb_fill)
  qed
  let ?s1 = "if rb_parent (nodes s y) = z then if ptr X \<noteq> 0 then set_parent (ptr X) y s else s else take_out z y s"
  let ?xp = "if rb_parent (nodes s y) = z then y else rb_parent (nodes s y)"
  let ?xl = "if rb_parent (nodes s y) = z then False else y = rb_left (nodes s ?xp)"
  have body: "tree_inv (replace_by z y ?s1) (fill ?C' X) \<and> keys (replace_by z y ?s1) = keys s \<and> ?xp = par ?C' \<and> (?xl \<longleftrightarrow> fst (hd ?C') = L)"
    using erase_two_body [OF T [unfolded W(1)] W(3) refl refl] by blast
  have pt: "ptrs (fill ?C' X) = filter (\<lambda>a. a \<noteq> z) (ptrs (fill c (nd L A (cz, z) W)))"
    using erase_two_ptrs [OF T [unfolded W(1)] W(3)] W(1) nd_opp [of L A] by (simp add: fill_append)
  have "rb_erase z s = (if cy = RB_BLACK then rb_erase_fixup (ptr X) (par ?C') ?xl (replace_by z y ?s1) else Some (replace_by z y ?s1))"
    using erase_two [of z s y] z(1,4,5) nz W(2) y(2,5) body by (simp add: child_def Let_def)
  moreover have "removed (if cy = RB_BLACK then rb_erase_fixup (ptr X) (par ?C') ?xl (replace_by z y ?s1) else Some (replace_by z y ?s1)) s (ptrs (fill ?C' X))"
    using body by (intro removed_cong [OF fixup_removed [OF _ X(1,3,2)]]) blast+
  ultimately show ?thesis unfolding pt by simp
qed

section \<open>Deletion and search on the queue\<close>

lemma find_position: "z \<in> set (ptrs t) \<Longrightarrow> \<exists>c l col r. t = fill c (nd L l (col, z) r)"
proof (induction t)
  case (Node l b r)
  obtain col a where b: "b = (col, a)" by (cases b) auto
  consider "z = a" | "z \<in> set (ptrs l)" | "z \<in> set (ptrs r)" using Node.prems b by auto
  then show ?case
  proof cases
    case 1
    then show ?thesis using b by (intro exI [of _ "[]"]) (auto simp: nd_def)
  next
    case 2
    obtain c l' col' r' where "l = fill c (nd L l' (col', z) r')" using Node.IH(1) [OF 2] by blast
    then have "Node l b r = fill (c @ [(L, b, r)]) (nd L l' (col', z) r')" by (simp add: fill_append) (simp add: nd_def)
    then show ?thesis by blast
  next
    case 3
    obtain c l' col' r' where "r = fill c (nd L l' (col', z) r')" using Node.IH(2) [OF 3] by blast
    then have "Node l b r = fill (c @ [(R, b, l)]) (nd L l' (col', z) r')" by (simp add: fill_append) (simp add: nd_def)
    then show ?thesis by blast
  qed
qed simp

lemma rb_erase_ok:
  assumes "rb_queue s xs" "z \<in> set xs"
  shows "\<exists>s'. rb_erase z s = Some s' \<and> rb_queue s' (filter (\<lambda>a. a \<noteq> z) xs) \<and> keys s' = keys s"
proof -
  obtain t where t: "tree_inv s t" "rb t" "ptrs t = xs" "sorted (map (keys s) xs)" using assms(1) by (auto simp: rb_queue_def)
  obtain c l col r where p: "t = fill c (nd L l (col, z) r)" using find_position [of z t] t(3) assms(2) by blast
  note T = t(1) [unfolded p] and B = t(2) [unfolded p]
  note z = inv_node [OF T]
  have lr: "rb_left (nodes s z) = ptr l" "rb_right (nodes s z) = ptr r" using z(4,5) by (simp_all add: child_def)
  have sh: "shape (nodes s) z l" "shape (nodes s) z r" using T by (auto simp: tree_inv_fill)
  have leaf: "ptr l = 0 \<longleftrightarrow> l = Leaf" "ptr r = 0 \<longleftrightarrow> r = Leaf" using sh by (cases l; force)+ (use sh in \<open>cases r; force\<close>)
  let ?one = "\<lambda>V. let s1 = rb_transplant z (ptr V) s in if rb_color (nodes s z) = RB_BLACK
      then rb_erase_fixup (ptr V) (rb_parent (nodes s z))
        (if rb_parent (nodes s z) \<noteq> 0 then z = rb_left (nodes s (rb_parent (nodes s z))) else False) s1 else Some s1"
  have "removed (rb_erase z s) s (filter (\<lambda>a. a \<noteq> z) (ptrs t))"
  proof -
    consider "l = Leaf" | "l \<noteq> Leaf" "r = Leaf" | "l \<noteq> Leaf" "r \<noteq> Leaf" by blast
    then show ?thesis
    proof cases
      case 1
      then have "rb_erase z s = ?one r" using z(1) lr by (simp add: rb_erase_def Let_def)
      then show ?thesis using erase_one_ok [of s c L col z r, OF _ _ refl] T B p 1 by metis
    next
      case 2
      then have "rb_erase z s = ?one l" using z(1) lr leaf(1) by (simp add: rb_erase_def Let_def)
      moreover have "t = fill c (nd R Leaf (col, z) l)" using 2 p nd_opp [of L l] by simp
      ultimately show ?thesis using erase_one_ok [of s c R col z l, OF _ _ refl] t(1,2) by metis
    next
      case 3
      then show ?thesis using erase_two_ok [OF T B] p by simp
    qed
  qed
  then show ?thesis using t(3,4) sorted_filter [of "keys s" xs] by (auto simp: removed_def rb_queue_def)
qed

lemma rb_first_ok:
  assumes "rb_queue s xs"
  shows "rb_first s = Some (case xs of [] \<Rightarrow> 0 | x # _ \<Rightarrow> x)"
proof -
  obtain t where t: "tree_inv s t" "ptrs t = xs" using assms by (auto simp: rb_queue_def)
  have sh: "shape (nodes s) 0 t" "rb_root s = ptr t" using t(1) by (simp_all add: tree_inv_def)
  show ?thesis
  proof (cases "t = Leaf")
    case True
    then show ?thesis using t(2) sh(2) by (auto simp: rb_first_def rb_find_min_def)
  next
    case False
    obtain c cy y X where c: "t = fill c (nd L Leaf (cy, y) X)" "leftmost s (ptr t) = Some y" "\<forall>f \<in> set c. fst f = L"
      using leftmost_ok [OF sh(1) False] by blast
    have "xs = y # ptrs X @ after c" using t(2) all_left [OF c(3)] by (simp add: c(1) ptrs_fill ptrs_nd)
    moreover have "ptr t \<noteq> 0" using sh(1) False by (cases t) auto
    ultimately show ?thesis using sh(2) c(2) by (simp add: rb_first_def rb_find_min_def)
  qed
qed

lemma rb_find_from_ok:
  assumes "shape (nodes s) q t" "sorted (map (keys s) (ptrs t))"
  shows "\<exists>p. rb_find_from s k (ptr t) = Some p \<and> (if k \<in> keys s ` set (ptrs t) then p \<in> set (ptrs t) \<and> keys s p = k else p = 0)"
  using assms
proof (induction t arbitrary: q)
  case Leaf
  then show ?case by (subst rb_find_from.simps) simp
next
  case (Node l b r)
  obtain col a where b: "b = (col, a)" by (cases b) auto
  have a: "a \<noteq> 0" "rb_left (nodes s a) = ptr l" "rb_right (nodes s a) = ptr r" "shape (nodes s) a l" "shape (nodes s) a r"
    using Node.prems b by simp_all
  have so: "sorted (map (keys s) (ptrs l))" "sorted (map (keys s) (ptrs r))" "\<forall>x \<in> set (ptrs l). keys s x \<le> keys s a"
      "\<forall>x \<in> set (ptrs r). keys s a \<le> keys s x"
    using Node.prems(2) b by (auto simp: sorted_append)
  consider "k < keys s a" | "k > keys s a" | "k = keys s a" by force
  then show ?case
  proof cases
    case 1
    then have "k \<in> keys s ` set (ptrs (Node l b r)) \<longleftrightarrow> k \<in> keys s ` set (ptrs l)" using so(4) b by auto
    moreover have "rb_find_from s k a = rb_find_from s k (ptr l)" using 1 a by (subst rb_find_from.simps) (simp add: keys_def)
    moreover have "set (ptrs l) \<subseteq> set (ptrs (Node l b r))" by auto
    moreover have "ptr (Node l b r) = a" by (simp add: b)
    ultimately show ?thesis using Node.IH(1) [OF a(4) so(1)] by (metis subsetD)
  next
    case 2
    then have "k \<in> keys s ` set (ptrs (Node l b r)) \<longleftrightarrow> k \<in> keys s ` set (ptrs r)" using so(3) b by auto
    moreover have "\<not> k < keys s a" using 2 by simp
    then have "rb_find_from s k a = rb_find_from s k (ptr r)" using 2 a by (subst rb_find_from.simps) (simp add: keys_def)
    moreover have "set (ptrs r) \<subseteq> set (ptrs (Node l b r))" by auto
    moreover have "ptr (Node l b r) = a" by (simp add: b)
    ultimately show ?thesis using Node.IH(2) [OF a(5) so(2)] by (metis subsetD)
  next
    case 3
    then show ?thesis using a b by (subst rb_find_from.simps) (simp add: keys_def)
  qed
qed

lemma climb_ok:
  assumes "tree_inv s (fill c t)" "t \<noteq> Leaf"
  shows "climb s (ptr t) (par c) = Some (case after c of [] \<Rightarrow> 0 | a # _ \<Rightarrow> a)"
  using assms
proof (induction c arbitrary: t)
  case Nil
  then show ?case by (subst climb.simps) (simp add: par_def)
next
  case (Cons f c)
  obtain d col a u where f: "f = (d, (col, a), u)" by (cases f) auto
  note T = Cons.prems(1) [unfolded f]
  have a: "a \<noteq> 0" "rb_parent (nodes s a) = par c" using inv_parent [OF T] by simp_all
  have side: "ptr t = rb_right (nodes s a) \<longleftrightarrow> d = R" using inner_side [OF T Cons.prems(2), of R] by (simp add: child_def)
  show ?case
  proof (cases d)
    case L
    then show ?thesis using a side f by (subst climb.simps) (simp add: par_def)
  next
    case R
    have "climb s a (par c) = Some (case after c of [] \<Rightarrow> 0 | a # _ \<Rightarrow> a)"
      using Cons.IH [of "nd d t (col, a) u"] T by simp
    then show ?thesis using a side f R by (subst climb.simps) (simp add: par_def)
  qed
qed

lemma rb_next_ok:
  assumes "rb_queue s xs" "xs = ys @ z # zs"
  shows "rb_next s z = Some (case zs of [] \<Rightarrow> 0 | a # _ \<Rightarrow> a)"
proof -
  obtain t where t: "tree_inv s t" "ptrs t = xs" using assms(1) by (auto simp: rb_queue_def)
  obtain c l col r where p: "t = fill c (nd L l (col, z) r)" using find_position [of z t] t(2) assms(2) by auto
  note T = t(1) [unfolded p]
  have sh: "shape (nodes s) z r" "rb_right (nodes s z) = ptr r" using T inv_node(5) [OF T] by (auto simp: tree_inv_fill child_def)
  have d: "distinct (ys @ z # zs)" using t assms(2) unfolding tree_inv_def by metis
  have eq: "ys @ z # zs = (before c @ ptrs l) @ z # (ptrs r @ after c)"
    using t(2) assms(2) p by (simp add: ptrs_fill ptrs_nd)
  have "z \<notin> set ys" "z \<notin> set zs" using d by simp_all
  then have zs: "zs = ptrs r @ after c" using append_Cons_eq_iff [of z ys zs "before c @ ptrs l" "ptrs r @ after c"] eq d by simp
  show ?thesis
  proof (cases "r = Leaf")
    case True
    then show ?thesis using climb_ok [OF T] inv_node(1,3) [OF T] sh(2) zs by (simp add: rb_next_def)
  next
    case False
    obtain c' cy y X where c': "r = fill c' (nd L Leaf (cy, y) X)" "leftmost s (ptr r) = Some y" "\<forall>f \<in> set c'. fst f = L"
      using leftmost_ok [OF sh(1) False] by blast
    have "ptrs r = y # ptrs X @ after c'" using all_left [OF c'(3)] by (simp add: c'(1) ptrs_fill ptrs_nd)
    moreover have "ptr r \<noteq> 0" using sh(1) False by (cases r) auto
    ultimately show ?thesis using inv_node(1) [OF T] sh(2) c'(2) zs by (simp add: rb_next_def)
  qed
qed

text \<open>The height of a red-black tree.\<close>

lemma bh_size: "rbok t \<Longrightarrow> 2 ^ bh t \<le> Suc (length (ptrs t))"
proof (induction t rule: rbok.induct)
  case (2 l c a r)
  then have "2 ^ bh l \<le> Suc (length (ptrs l))" "2 ^ bh l \<le> Suc (length (ptrs r))" by auto
  then show ?case by auto
qed simp

lemma height_bh: "rbok t \<Longrightarrow> height t \<le> 2 * bh t + (if root_col t = RB_RED then 1 else 0)"
proof (induction t rule: rbok.induct)
  case (2 l c a r)
  then show ?case by (cases c) (auto split: if_splits)
qed simp

section \<open>Properties\<close>

lemma split_sorted: "sorted (map k xs) \<Longrightarrow> filter (\<lambda>a. k a \<le> b) xs @ filter (\<lambda>a. b < k a) xs = xs" for b :: u64
proof (induction xs)
  case (Cons a xs)
  show ?case
  proof (cases "k a \<le> b")
    case False
    then have "\<forall>c \<in> set xs. b < k c" using Cons.prems by (auto simp: not_le dest: order.strict_trans2)
    then have "filter (\<lambda>a. k a \<le> b) xs = []" "filter (\<lambda>a. b < k a) xs = xs"
      by (auto simp: filter_empty_conv filter_id_conv)
    then show ?thesis using False by simp
  qed (use Cons in simp)
qed simp

lemma queue_insert_undo:
  assumes "sorted (map k xs)" "z \<notin> set xs"
  shows "filter (\<lambda>a. a \<noteq> z) (queue_insert k z xs) = xs"
proof -
  have "filter (\<lambda>a. a \<noteq> z) (queue_insert k z xs) = filter (\<lambda>a. a \<noteq> z) (filter (\<lambda>a. k a \<le> k z) xs @ filter (\<lambda>a. k z < k a) xs)"
    by (simp add: queue_insert_def del: filter_filter)
  then show ?thesis using filter_neq [OF assms(2)] by (simp only: split_sorted [OF assms(1)])
qed

text \<open>An ordered queue of nodes, as the scheduler uses it.\<close>

locale ordered_queue =
  fixes inv :: "'s \<Rightarrow> nat list \<Rightarrow> bool" and key :: "'s \<Rightarrow> nat \<Rightarrow> u64"
    and ins :: "nat \<Rightarrow> 's \<Rightarrow> 's option" and del :: "nat \<Rightarrow> 's \<Rightarrow> 's option" and first :: "'s \<Rightarrow> nat option"
  assumes inv_sorted: "inv s xs \<Longrightarrow> sorted (map (key s) xs) \<and> distinct xs \<and> 0 \<notin> set xs"
    and ins_ok: "inv s xs \<Longrightarrow> z \<noteq> 0 \<Longrightarrow> z \<notin> set xs \<Longrightarrow> \<exists>s'. ins z s = Some s' \<and> inv s' (queue_insert (key s) z xs) \<and> key s' = key s"
    and del_ok: "inv s xs \<Longrightarrow> z \<in> set xs \<Longrightarrow> \<exists>s'. del z s = Some s' \<and> inv s' (filter (\<lambda>a. a \<noteq> z) xs) \<and> key s' = key s"
    and first_ok: "inv s xs \<Longrightarrow> first s = Some (case xs of [] \<Rightarrow> 0 | x # _ \<Rightarrow> x)"
begin

lemma first_least:
  assumes "inv s xs" "xs \<noteq> []"
  shows "\<exists>z. first s = Some z \<and> z \<noteq> 0 \<and> z \<in> set xs \<and> (\<forall>a \<in> set xs. key s z \<le> key s a)"
proof -
  obtain z zs where z: "xs = z # zs" using assms(2) by (cases xs) auto
  then show ?thesis using first_ok [OF assms(1)] inv_sorted [OF assms(1)] by auto
qed

lemma ins_del:
  assumes "inv s xs" "z \<noteq> 0" "z \<notin> set xs"
  shows "\<exists>s1 s2. ins z s = Some s1 \<and> del z s1 = Some s2 \<and> inv s2 xs \<and> key s2 = key s"
proof -
  obtain s1 where s1: "ins z s = Some s1" "inv s1 (queue_insert (key s) z xs)" "key s1 = key s" using ins_ok [OF assms] by blast
  have "z \<in> set (queue_insert (key s) z xs)" by (simp add: queue_insert_def)
  from del_ok [OF s1(2) this] obtain s2 where s2: "del z s1 = Some s2" "inv s2 (filter (\<lambda>a. a \<noteq> z) (queue_insert (key s) z xs))" "key s2 = key s1"
    by blast
  have "sorted (map (key s) xs)" using inv_sorted [OF assms(1)] by simp
  from queue_insert_undo [OF this assms(3)] have "filter (\<lambda>a. a \<noteq> z) (queue_insert (key s) z xs) = xs" .
  then show ?thesis using s1 s2 by auto
qed

end

lemma rb_queue_set: "rb_queue s xs \<Longrightarrow> sorted (map (keys s) xs) \<and> distinct xs \<and> 0 \<notin> set xs"
  by (auto simp: rb_queue_def tree_inv_def dest: shape_nonzero)

interpretation rq: ordered_queue rb_queue keys rb_insert rb_erase rb_first
  by unfold_locales (simp_all add: rb_queue_set rb_insert_ok rb_erase_ok rb_first_ok)

definition no_nodes :: rbt where
  "no_nodes = \<lparr> rb_root = 0, nodes = (\<lambda>a. \<lparr> rb_color = RB_RED, rb_parent = 0, rb_left = 0, rb_right = 0, rb_key = of_nat a \<rparr>) \<rparr>"

lemma no_nodes_queue: "rb_queue no_nodes []"
  by (auto simp: rb_queue_def no_nodes_def tree_inv_def rb_def intro!: exI [of _ Leaf])

lemma two_nodes: "\<exists>s. rb_queue s [3, 5] \<and> keys s = keys no_nodes"
proof -
  obtain s1 where s1: "rb_queue s1 [5]" "keys s1 = keys no_nodes"
    using rb_insert_ok [OF no_nodes_queue, of 5] by (auto simp: queue_insert_def)
  from rb_insert_ok [OF s1(1), of 3] show ?thesis by (auto simp: queue_insert_def s1(2) keys_def no_nodes_def)
qed

text \<open>C14: \<open>rb_insert\<close> returns on every red-black tree and every node that is not in it; the result is a
  red-black tree with the same nodes in the same order and the new one after all nodes whose key is not
  larger.\<close>

theorem rb_insert_correct:
  assumes "rb_queue s xs" "z \<noteq> 0" "z \<notin> set xs"
  shows "\<exists>s'. rb_insert z s = Some s' \<and> rb_queue s' (queue_insert (keys s) z xs) \<and> keys s' = keys s"
  by (rule rq.ins_ok [OF assms])

theorem rb_insert_correct_witness: "rb_queue no_nodes [] \<and> (\<exists>s'. rb_insert 5 no_nodes = Some s' \<and> rb_queue s' [5])"
  using rb_insert_correct [OF no_nodes_queue, of 5] no_nodes_queue by (auto simp: queue_insert_def)

text \<open>C15: \<open>rb_erase\<close> returns on every node of a red-black tree; the result is a red-black tree with the other
  nodes in the same order.\<close>

theorem rb_erase_correct:
  assumes "rb_queue s xs" "z \<in> set xs"
  shows "\<exists>s'. rb_erase z s = Some s' \<and> rb_queue s' (filter (\<lambda>a. a \<noteq> z) xs) \<and> keys s' = keys s"
  by (rule rq.del_ok [OF assms])

theorem rb_erase_correct_witness: "\<exists>s s'. rb_queue s [3, 5] \<and> rb_erase 3 s = Some s' \<and> rb_queue s' [5]"
proof -
  obtain s where s: "rb_queue s [3, 5]" using two_nodes by blast
  from rb_erase_correct [OF s, of 3] s show ?thesis by auto
qed

text \<open>C36: The searches on a red-black tree: \<open>rb_first\<close> gives a node with the least key, \<open>rb_find\<close> a node with the
  given key when there is one and NULL otherwise, and \<open>rb_next\<close> the following node of the order and NULL
  after the last.\<close>

theorem rb_search_correct:
  assumes "rb_queue s xs"
  shows "rb_first s = Some (case xs of [] \<Rightarrow> 0 | x # _ \<Rightarrow> x) \<and> (xs \<noteq> [] \<longrightarrow> (\<forall>a \<in> set xs. keys s (hd xs) \<le> keys s a)) \<and>
    (\<exists>p. rb_find s k = Some p \<and> (if k \<in> keys s ` set xs then p \<in> set xs \<and> keys s p = k else p = 0)) \<and>
    (xs = ys @ z # zs \<longrightarrow> rb_next s z = Some (case zs of [] \<Rightarrow> 0 | a # _ \<Rightarrow> a))"
proof -
  obtain t where t: "tree_inv s t" "ptrs t = xs" "sorted (map (keys s) xs)" using assms by (auto simp: rb_queue_def)
  have "\<exists>p. rb_find s k = Some p \<and> (if k \<in> keys s ` set xs then p \<in> set xs \<and> keys s p = k else p = 0)"
    using rb_find_from_ok [of s 0 t k] t unfolding rb_find_def tree_inv_def by metis
  moreover have "xs \<noteq> [] \<longrightarrow> (\<forall>a \<in> set xs. keys s (hd xs) \<le> keys s a)" using t(3) by (cases xs) auto
  ultimately show ?thesis using rb_first_ok [OF assms] rb_next_ok [OF assms] by blast
qed

theorem rb_search_correct_witness:
  "\<exists>s. rb_queue s [3, 5] \<and> rb_first s = Some 3 \<and> rb_next s 3 = Some 5 \<and> rb_next s 5 = Some 0"
proof -
  obtain s where s: "rb_queue s [3, 5]" using two_nodes by blast
  from rb_search_correct [OF s, of 0 "[]" 3 "[5]"] rb_search_correct [OF s, of 0 "[3]" 5 "[]"] s show ?thesis by auto
qed



end
