(* ===== verification/Pid.thy ===== *)
theory Pid
  imports Prelude
begin

text \<open>
  The process identifier allocator of \<open>kernel/sched.c\<close>: a bitmap of 8192 bits in 64-bit words, a rotating
  cursor and the table from identifiers to tasks. The spinlock makes each operation one step. A NULL table
  entry is 0.
\<close>

section \<open>Model\<close>

definition MAX_PID :: nat where "MAX_PID = 8192"
definition PID_BITMAP_WORDS :: nat where "PID_BITMAP_WORDS = MAX_PID div 64"

record pids =
  pid_bitmap :: "u64 list"
  next_pid :: nat
  pid_table :: "nat \<Rightarrow> nat"

definition pid_set_bit :: "nat \<Rightarrow> pids \<Rightarrow> pids" where
  "pid_set_bit pid s = s\<lparr> pid_bitmap := (pid_bitmap s)[pid div 64 := (pid_bitmap s ! (pid div 64)) OR push_bit (pid mod 64) 1] \<rparr>"

definition pid_clear_bit :: "nat \<Rightarrow> pids \<Rightarrow> pids" where
  "pid_clear_bit pid s = s\<lparr> pid_bitmap := (pid_bitmap s)[pid div 64 := (pid_bitmap s ! (pid div 64)) AND NOT (push_bit (pid mod 64) 1)] \<rparr>"

definition pid_test_bit :: "nat \<Rightarrow> pids \<Rightarrow> bool" where
  "pid_test_bit pid s \<longleftrightarrow> drop_bit (pid mod 64) (pid_bitmap s ! (pid div 64)) AND 1 \<noteq> 0"

primrec alloc_pid_scan :: "nat \<Rightarrow> pids \<Rightarrow> pids \<times> int" where
  "alloc_pid_scan 0 s = (s, - 1)"
| "alloc_pid_scan (Suc k) s =
     (let pid = next_pid s;
          s1 = s\<lparr> next_pid := (if pid + 1 \<ge> MAX_PID then 2 else pid + 1) \<rparr>
      in if \<not> pid_test_bit pid s1 then (pid_set_bit pid s1, int pid) else alloc_pid_scan k s1)"

definition alloc_pid :: "pids \<Rightarrow> pids \<times> int" where
  "alloc_pid s = alloc_pid_scan MAX_PID (pid_set_bit 1 (pid_set_bit 0 s))"

definition free_pid :: "int \<Rightarrow> pids \<Rightarrow> pids" where
  "free_pid pid s =
     (if pid \<ge> 2 \<and> pid < int MAX_PID
      then let s1 = pid_clear_bit (nat pid) s in s1\<lparr> pid_table := (pid_table s1)(nat pid := 0) \<rparr>
      else s)"

definition pid_register :: "int \<Rightarrow> nat \<Rightarrow> pids \<Rightarrow> pids" where
  "pid_register pid t s = (if pid \<ge> 0 \<and> pid < int MAX_PID then s\<lparr> pid_table := (pid_table s)(nat pid := t) \<rparr> else s)"

section \<open>The bitmap as a set\<close>

definition used :: "pids \<Rightarrow> nat set" where
  "used s = {p. p < MAX_PID \<and> bit (pid_bitmap s ! (p div 64)) (p mod 64)}"

definition pid_inv :: "pids \<Rightarrow> bool" where
  "pid_inv s \<longleftrightarrow> length (pid_bitmap s) = PID_BITMAP_WORDS \<and> 2 \<le> next_pid s \<and> next_pid s < MAX_PID"

lemma word_index: "p < MAX_PID \<Longrightarrow> p div 64 < PID_BITMAP_WORDS"
  by (simp add: MAX_PID_def PID_BITMAP_WORDS_def)

lemma same_bit: "p div 64 = q div 64 \<Longrightarrow> p mod 64 = q mod 64 \<Longrightarrow> p = q" for p q :: nat
  by (metis div_mult_mod_eq)

lemma test_bit_used: "p < MAX_PID \<Longrightarrow> pid_test_bit p s \<longleftrightarrow> p \<in> used s"
  by (simp add: pid_test_bit_def used_def and_one_eq bit_iff_odd_drop_bit odd_iff_mod_2_eq_one)

lemma used_set_bit:
  assumes "pid_inv s" "p < MAX_PID"
  shows "used (pid_set_bit p s) = insert p (used s)"
proof -
  have i: "p div 64 < length (pid_bitmap s)" using assms word_index by (simp add: pid_inv_def)
  show ?thesis
    using i assms(2) by (auto simp: used_def pid_set_bit_def nth_list_update bit_or_iff bit_exp_iff dest: same_bit)
qed

lemma used_clear_bit:
  assumes "pid_inv s" "p < MAX_PID"
  shows "used (pid_clear_bit p s) = used s - {p}"
proof -
  have i: "p div 64 < length (pid_bitmap s)" using assms word_index by (simp add: pid_inv_def)
  show ?thesis
    using i assms(2) by (auto simp: used_def pid_clear_bit_def nth_list_update bit_and_iff bit_not_iff bit_exp_iff dest: same_bit)
qed

lemma bit_inv [simp]:
  "pid_inv (pid_set_bit p s) = pid_inv s" "pid_inv (pid_clear_bit p s) = pid_inv s" "pid_inv (s\<lparr> pid_table := f \<rparr>) = pid_inv s"
  "next_pid (pid_set_bit p s) = next_pid s" "used (s\<lparr> next_pid := n \<rparr>) = used s" "used (s\<lparr> pid_table := f \<rparr>) = used s"
  "pid_table (pid_set_bit p s) = pid_table s" "pid_table (pid_clear_bit p s) = pid_table s"
  by (simp_all add: pid_inv_def pid_set_bit_def pid_clear_bit_def used_def)

text \<open>The cursor after a number of failed attempts.\<close>

definition cursor :: "nat \<Rightarrow> nat \<Rightarrow> nat" where
  "cursor n k = 2 + (n - 2 + k) mod (MAX_PID - 2)"

lemma cursor_Suc: "2 \<le> n \<Longrightarrow> n < MAX_PID \<Longrightarrow> cursor (if n + 1 \<ge> MAX_PID then 2 else n + 1) k = cursor n (Suc k)"
proof (cases "n + 1 \<ge> MAX_PID")
  case True
  assume "2 \<le> n" "n < MAX_PID"
  then have eq: "n - 2 + Suc k = (MAX_PID - 2) + k" using True by simp
  have "cursor n (Suc k) = 2 + k mod (MAX_PID - 2)" unfolding cursor_def eq by simp
  then show ?thesis using True by (simp add: cursor_def)
next
  case False
  assume "2 \<le> n"
  then have eq: "n + 1 - 2 + k = n - 2 + Suc k" by simp
  have "cursor (n + 1) k = cursor n (Suc k)" unfolding cursor_def eq ..
  then show ?thesis using False by simp
qed

lemma cursor_0: "2 \<le> n \<Longrightarrow> n < MAX_PID \<Longrightarrow> cursor n 0 = n"
  by (simp add: cursor_def)

lemma cursor_covers:
  assumes "2 \<le> n" "n < MAX_PID" "2 \<le> p" "p < MAX_PID"
  shows "\<exists>k < MAX_PID. cursor n k = p"
proof (cases "n \<le> p")
  case True
  then have "cursor n (p - n) = p" using assms by (simp add: cursor_def)
  then show ?thesis using assms by (intro exI [of _ "p - n"]) simp
next
  case False
  have "n - 2 + (p + (MAX_PID - 2) - n) = (p - 2) + (MAX_PID - 2)" using assms by simp
  then have "cursor n (p + (MAX_PID - 2) - n) = 2 + ((p - 2) + (MAX_PID - 2)) mod (MAX_PID - 2)" unfolding cursor_def by (rule arg_cong)
  moreover have "((p - 2) + (MAX_PID - 2)) mod (MAX_PID - 2) = p - 2" unfolding mod_add_self2 using assms by simp
  ultimately have "cursor n (p + (MAX_PID - 2) - n) = p" using assms(3) by simp
  then show ?thesis using False assms by (intro exI [of _ "p + (MAX_PID - 2) - n"]) simp
qed

lemma alloc_pid_scan_ok:
  assumes "pid_inv s" "alloc_pid_scan m s = (s', r)"
  shows "pid_inv s' \<and> pid_table s' = pid_table s \<and>
    (if r = - 1 then used s' = used s \<and> (\<forall>k < m. cursor (next_pid s) k \<in> used s)
     else 2 \<le> r \<and> r < int MAX_PID \<and> nat r \<notin> used s \<and> used s' = insert (nat r) (used s))"
  using assms
proof (induction m arbitrary: s)
  case (Suc m)
  let ?n = "next_pid s"
  let ?s1 = "s\<lparr> next_pid := (if ?n + 1 \<ge> MAX_PID then 2 else ?n + 1) \<rparr>"
  have n: "2 \<le> ?n" "?n < MAX_PID" using Suc.prems(1) by (simp_all add: pid_inv_def)
  have i1: "pid_inv ?s1" using Suc.prems(1) by (auto simp: pid_inv_def MAX_PID_def)
  show ?case
  proof (cases "pid_test_bit ?n ?s1")
    case False
    then have "r = int ?n" "s' = pid_set_bit ?n ?s1" using Suc.prems(2) by (simp_all add: Let_def)
    then show ?thesis using n i1 used_set_bit [OF i1 n(2)] False test_bit_used [OF n(2)] by simp
  next
    case True
    then have "alloc_pid_scan m ?s1 = (s', r)" using Suc.prems(2) by (simp add: Let_def)
    note ih = Suc.IH [OF i1 this]
    have u1: "used ?s1 = used s" "pid_table ?s1 = pid_table s" by simp_all
    have c1: "cursor (next_pid ?s1) k = cursor ?n (Suc k)" for k using cursor_Suc [OF n, of k] by simp
    have IH: "pid_inv s' \<and> pid_table s' = pid_table s \<and>
      (if r = - 1 then used s' = used s \<and> (\<forall>k < m. cursor ?n (Suc k) \<in> used s)
       else 2 \<le> r \<and> r < int MAX_PID \<and> nat r \<notin> used s \<and> used s' = insert (nat r) (used s))"
      using ih unfolding u1 c1 .
    moreover have "cursor ?n 0 \<in> used s" using True test_bit_used [OF n(2)] cursor_0 [OF n] by simp
    ultimately show ?thesis by (auto simp: less_Suc_eq_0_disj)
  qed
qed simp

section \<open>Properties\<close>

definition no_pids :: pids where
  "no_pids = \<lparr> pid_bitmap = replicate PID_BITMAP_WORDS 0, next_pid = 2, pid_table = (\<lambda>_. 0) \<rparr>"

lemma first_pid: "pid_inv no_pids" "snd (alloc_pid no_pids) = 2"
proof -
  show i: "pid_inv no_pids" by (simp add: no_pids_def pid_inv_def MAX_PID_def)
  have t: "\<not> pid_test_bit 2 (s\<lparr> next_pid := n \<rparr>)" if "used s = {0, 1}" for s n using that by (simp add: test_bit_used MAX_PID_def)
  have u: "used (pid_set_bit 1 (pid_set_bit 0 no_pids)) = {0, 1}"
    using i by (auto simp: used_set_bit MAX_PID_def) (auto simp: used_def word_index MAX_PID_def PID_BITMAP_WORDS_def no_pids_def)
  have step: "snd (alloc_pid_scan (Suc k) u) = 2" if "used u = {0, 1}" "next_pid u = 2" for u k
    using that t by (simp add: Let_def)
  have m: "MAX_PID = Suc 8191" by (simp add: MAX_PID_def)
  show "snd (alloc_pid no_pids) = 2" unfolding alloc_pid_def m by (rule step [OF u]) (simp add: no_pids_def)
qed



end
