(* ===== verification/Sched.thy ===== *)
theory Sched
  imports RBTreeRemove Pid Files "HOL-Library.Signed_Division"
begin

text \<open>
  The scheduler and the process life cycle, \<open>kernel/sched.c\<close> and \<open>kernel/sched.h\<close>, with the sending of
  signals (\<open>do_sys_kill\<close> and \<open>signal_child_event\<close> of \<open>kernel/signal.c\<close>) that process exit relies on.

  Tasks live in a partial map from addresses (NULL is 0), so using a task after \<open>kfree\<close> is the value
  \<^const>\<open>None\<close>. The tree node embedded in a task has the address of the task. Each run queue carries the heap
  of its own tree: a node is in one tree at a time and is accessed through that tree only. A call is a
  step of the processor whose number is an argument; the result of \<open>current_cpu_id\<close>, of \<open>kmalloc\<close> and of
  \<open>alloc_page\<close> are arguments too. \<open>schedule\<close> has three outcomes: it returns, it switches to another task, or it
  halts the processor. Logging and the performance counters are left out.
\<close>

section \<open>State\<close>

definition BASE_SLICE :: int where "BASE_SLICE = 10"
definition NSIG :: int where "NSIG = 32"
definition SIGKILL :: int where "SIGKILL = 9"
definition SIGCHLD :: int where "SIGCHLD = 17"
definition SIG_DFL :: u64 where "SIG_DFL = 0"
definition SIG_IGN :: u64 where "SIG_IGN = 1"
definition MAX_CPUS :: nat where "MAX_CPUS = 8"

record sigaction =
  sa_handler :: u64
  sa_flags :: u64
  sa_mask :: u64

record signal_state =
  actions :: "nat \<Rightarrow> sigaction"
  pending :: u32
  blocked :: u32
  saved_rsp :: u64
  saved_rip :: u64

record task =
  t_pid :: int
  t_state :: task_state
  t_exit_code :: int
  t_parent :: nat
  t_children :: "nat list"
  t_next :: nat
  t_priority :: int
  t_time_slice :: int
  t_vruntime :: u64
  t_need_resched :: bool
  t_preempt_count :: int
  t_sig :: "signal_state option"
  t_cr3 :: u64
  t_stack :: nat
  t_rsp :: nat
  t_frame :: "u64 list"
  t_brk :: u64
  t_rlimit :: "nat \<Rightarrow> u64"
  t_cpu_ticks :: u64
  t_cswitch_count :: u64

record run_queue =
  rq_head :: nat
  rq_count :: int
  ready_tree :: rbt

record sched =
  tasks :: "nat \<rightharpoonup> task"
  current :: nat
  init_task :: nat
  idle_task :: nat
  per_cpu_rq :: "nat \<Rightarrow> run_queue"
  min_vruntime :: u64
  pidmap :: pids
  resched_flag :: bool
  num_cpus :: int
  kernel_cr3 :: u64
  ftab :: fstate
  freed_stacks :: "nat list"
  freed_cr3s :: "u64 list"

definition upd_task :: "nat \<Rightarrow> (task \<Rightarrow> task) \<Rightarrow> sched \<Rightarrow> sched" where
  "upd_task p f s = s\<lparr> tasks := (tasks s)(p := map_option f (tasks s p)) \<rparr>"

definition upd_rq :: "nat \<Rightarrow> (run_queue \<Rightarrow> run_queue) \<Rightarrow> sched \<Rightarrow> sched" where
  "upd_rq c f s = s\<lparr> per_cpu_rq := (per_cpu_rq s)(c := f (per_cpu_rq s c)) \<rparr>"

section \<open>Lookup and the process tree\<close>

definition find_task_by_pid :: "int \<Rightarrow> sched \<Rightarrow> nat option" where
  "find_task_by_pid pid s =
     (if pid < 0 \<or> pid \<ge> int MAX_PID then Some 0
      else let t = pid_table (pidmap s) (nat pid)
           in if t = 0 then Some 0
              else do { x \<leftarrow> tasks s t;
                        Some (if t_state x \<noteq> TASK_DEAD \<and> t_state x \<noteq> TASK_ZOMBIE then t else 0) })"

text \<open>\<open>node_ok\<close>: whether the list node could be allocated.\<close>

definition add_child :: "nat \<Rightarrow> nat \<Rightarrow> bool \<Rightarrow> sched \<Rightarrow> sched" where
  "add_child pr ch node_ok s =
     (if \<not> node_ok then s
      else upd_task ch (t_parent_update (\<lambda>_. pr)) (upd_task pr (t_children_update (\<lambda>xs. ch # xs)) s))"

primrec reparent_loop :: "nat list \<Rightarrow> nat \<Rightarrow> sched \<Rightarrow> sched" where
  "reparent_loop [] ini s = s"
| "reparent_loop (c # cs) ini s =
     reparent_loop cs ini
       (upd_task ini (t_children_update (\<lambda>xs. c # xs)) (if c \<noteq> 0 then upd_task c (t_parent_update (\<lambda>_. ini)) s else s))"

definition reparent_children_to_init :: "nat \<Rightarrow> sched \<Rightarrow> sched option" where
  "reparent_children_to_init p s =
     (if p = 0 then Some s
      else do {
        t \<leftarrow> tasks s p;
        Some (if t_children t = [] \<or> init_task s = 0 then s
              else upd_task p (t_children_update (\<lambda>_. [])) (reparent_loop (t_children t) (init_task s) s)) })"

section \<open>Run queues\<close>

text \<open>The tail shared by \<open>create_task\<close> and \<open>smp_enqueue_task\<close>: the circular list and the tree.\<close>

definition rq_insert :: "nat \<Rightarrow> nat \<Rightarrow> sched \<Rightarrow> sched option" where
  "rq_insert t cpu s = do {
     x \<leftarrow> tasks s t;
     s1 \<leftarrow> (let h = rq_head (per_cpu_rq s cpu)
            in if h = 0 then Some (upd_rq cpu (rq_head_update (\<lambda>_. t)) (upd_task t (t_next_update (\<lambda>_. t)) s))
               else do { hx \<leftarrow> tasks s h;
                         Some (upd_task h (t_next_update (\<lambda>_. t)) (upd_task t (t_next_update (\<lambda>_. t_next hx)) s)) });
     tree \<leftarrow> rb_insert t (upd t (rb_key_update (\<lambda>_. t_vruntime x)) (ready_tree (per_cpu_rq s1 cpu)));
     Some (upd_rq cpu (\<lambda>q. q\<lparr> rq_count := rq_count q + 1, ready_tree := tree \<rparr>) s1) }"

definition smp_enqueue_task :: "nat \<Rightarrow> int \<Rightarrow> sched \<Rightarrow> sched option" where
  "smp_enqueue_task t cpu_id s =
     (if t = 0 \<or> cpu_id < 0 \<or> cpu_id \<ge> int MAX_CPUS then Some s
      else if cpu_id \<ge> num_cpus s then Some s
      else rq_insert t (nat cpu_id) s)"

text \<open>The search for the predecessor in the circular list; 0 when the search is back at the head.\<close>

partial_function (option) find_prev :: "(nat \<rightharpoonup> task) \<Rightarrow> nat \<Rightarrow> nat \<Rightarrow> nat \<Rightarrow> nat option" where
  "find_prev h t q prev = (case h prev of
     None \<Rightarrow> None
   | Some x \<Rightarrow> if t_next x = t then Some prev
               else if t_next x = q then Some 0
               else find_prev h t q (t_next x))"

definition smp_dequeue_task :: "nat \<Rightarrow> int \<Rightarrow> sched \<Rightarrow> sched option" where
  "smp_dequeue_task t cpu_id s =
     (if t = 0 \<or> cpu_id < 0 \<or> cpu_id \<ge> int MAX_CPUS then Some s
      else
        let cpu = nat cpu_id; rq = per_cpu_rq s cpu
        in if rq_head rq = 0 \<or> rq_count rq = 0 then Some s
           else do {
             x \<leftarrow> tasks s t;
             if rq_head rq = t \<and> t_next x = t
             then do {
               tree \<leftarrow> rb_erase t (ready_tree rq);
               Some (upd_rq cpu (\<lambda>q. q\<lparr> rq_head := 0, rq_count := 0, ready_tree := tree \<rparr>) s) }
             else do {
               prev \<leftarrow> find_prev (tasks s) t (rq_head rq) (rq_head rq);
               if prev = 0 then Some s
               else do {
                 tree \<leftarrow> rb_erase t (ready_tree rq);
                 Some (upd_rq cpu (\<lambda>q. q\<lparr> rq_head := (if rq_head q = t then t_next x else rq_head q),
                                        rq_count := rq_count q - 1, ready_tree := tree \<rparr>)
                         (upd_task prev (t_next_update (\<lambda>_. t_next x)) s)) } } })"

section \<open>Choosing the next task\<close>

text \<open>The walk over the tree in order, to the first task that can run and is not the current one.\<close>

partial_function (option) pick :: "sched \<Rightarrow> rbt \<Rightarrow> nat \<Rightarrow> nat option" where
  "pick s tree node =
     (if node = 0 then Some 0
      else case tasks s node of
             None \<Rightarrow> None
           | Some c \<Rightarrow>
               if (t_state c = TASK_READY \<or> t_state c = TASK_RUNNING) \<and> node \<noteq> current s then Some node
               else Option.bind (rb_next tree node) (pick s tree))"

definition full_slice :: "task \<Rightarrow> int" where
  "full_slice t = (let v = (BASE_SLICE * (256 - t_priority t)) sdiv 256 in if v < 1 then 1 else v)"

text \<open>The weighted virtual time for the ticks a task has used; a weight of zero is a division by zero.\<close>

definition vruntime_charge :: "task \<Rightarrow> u64 option" where
  "vruntime_charge t =
     (let consumed = full_slice t - t_time_slice t;
          consumed1 = (if consumed \<le> 0 then 1 else consumed);
          weight = word_of_int (t_priority t + 1) :: u64
      in if weight = 0 then None else Some ((word_of_int consumed1 * 128) div weight))"

datatype outcome = Returns | Switches | Halts

definition switch_to :: "nat \<Rightarrow> sched \<Rightarrow> (sched \<times> outcome) option" where
  "switch_to nxt s = do {
     cur \<leftarrow> tasks s (current s);
     s1 \<leftarrow> (if t_state cur = TASK_RUNNING
            then do { v \<leftarrow> vruntime_charge cur;
                      Some (upd_task (current s) (\<lambda>t. t\<lparr> t_state := TASK_READY, t_vruntime := t_vruntime t + v \<rparr>) s) }
            else Some s);
     n \<leftarrow> tasks s1 nxt;
     (let s2 = (if t_vruntime n \<le> min_vruntime s1 then s1 else s1\<lparr> min_vruntime := t_vruntime n \<rparr>)
      in Some ((upd_task nxt (\<lambda>t. t\<lparr> t_state := TASK_RUNNING, t_cpu_ticks := t_cpu_ticks t + 1, t_cswitch_count := t_cswitch_count t + 1 \<rparr>)
                 s2)\<lparr> current := nxt \<rparr>, Switches)) }"

definition schedule :: "nat \<Rightarrow> sched \<Rightarrow> (sched \<times> outcome) option" where
  "schedule cpu s =
     (if current s = 0 then Some (s, Returns)
      else do {
        cur \<leftarrow> tasks s (current s);
        if t_next cur = 0 then Some (s, Returns)
        else if rq_head (per_cpu_rq s cpu) = 0 then Some (s, Halts)
        else do {
          m \<leftarrow> rb_find_min (ready_tree (per_cpu_rq s cpu));
          nxt \<leftarrow> pick s (ready_tree (per_cpu_rq s cpu)) m;
          if nxt \<noteq> 0 then switch_to nxt s
          else do {
            idle_ready \<leftarrow> (if idle_task s \<noteq> 0 \<and> idle_task s \<noteq> current s
                           then do { i \<leftarrow> tasks s (idle_task s); Some (t_state i = TASK_READY) } else Some False);
            if idle_ready then switch_to (idle_task s) s
            else if t_state cur = TASK_RUNNING then Some (s, Returns)
            else Some (s, Halts) } } })"

definition yield :: "nat \<Rightarrow> sched \<Rightarrow> (sched \<times> outcome) option" where
  "yield cpu s =
     (if current s = 0 then schedule cpu s
      else do {
        cur \<leftarrow> tasks s (current s);
        v \<leftarrow> vruntime_charge cur;
        schedule cpu (upd_task (current s) (\<lambda>t. t\<lparr> t_vruntime := t_vruntime t + v, t_state := TASK_READY \<rparr>) s) })"

definition check_resched :: "nat \<Rightarrow> sched \<Rightarrow> (sched \<times> outcome) option" where
  "check_resched cpu s = do {
     want \<leftarrow> (if resched_flag s then Some True
              else if current s = 0 then Some False
              else map_option t_need_resched (tasks s (current s)));
     (let s1 = s\<lparr> resched_flag := False \<rparr>
      in if \<not> want then Some (s1, Returns)
         else if current s = 0 then schedule cpu s1
         else do {
           _ \<leftarrow> tasks s1 (current s1);
           schedule cpu (upd_task (current s1) (\<lambda>t. t\<lparr> t_need_resched := False, t_state := TASK_READY \<rparr>) s1) }) }"

definition schedule_tick :: "sched \<Rightarrow> sched option" where
  "schedule_tick s =
     (if current s = 0 then Some s
      else do {
        cur \<leftarrow> tasks s (current s);
        if t_preempt_count cur > 0 \<or> t_state cur \<noteq> TASK_RUNNING then Some s
        else
          let ts = (if t_time_slice cur > 0 then t_time_slice cur - 1 else t_time_slice cur)
          in if ts \<le> 0
             then Some ((upd_task (current s) (\<lambda>t. t\<lparr> t_need_resched := True, t_time_slice := full_slice t \<rparr>) s)\<lparr> resched_flag := True \<rparr>)
             else Some (upd_task (current s) (t_time_slice_update (\<lambda>_. ts)) s) })"

definition preempt_disable :: "sched \<Rightarrow> sched option" where
  "preempt_disable s =
     (if current s = 0 then Some s
      else do { _ \<leftarrow> tasks s (current s); Some (upd_task (current s) (t_preempt_count_update (\<lambda>n. n + 1)) s) })"

definition preempt_enable :: "nat \<Rightarrow> sched \<Rightarrow> (sched \<times> outcome) option" where
  "preempt_enable cpu s =
     (if current s = 0 then Some (s, Returns)
      else do {
        cur \<leftarrow> tasks s (current s);
        (let n = (if t_preempt_count cur > 0 then t_preempt_count cur - 1 else t_preempt_count cur);
             s1 = upd_task (current s) (t_preempt_count_update (\<lambda>_. n)) s
         in if n = 0 \<and> t_need_resched cur
            then schedule cpu (upd_task (current s) (\<lambda>t. t\<lparr> t_need_resched := False, t_state := TASK_READY \<rparr>) s1)
            else Some (s1, Returns)) })"

section \<open>Creating tasks\<close>

definition task_zero :: task where
  "task_zero = \<lparr> t_pid = 0, t_state = TASK_RUNNING, t_exit_code = 0, t_parent = 0, t_children = [], t_next = 0, t_priority = 0,
     t_time_slice = 0, t_vruntime = 0, t_need_resched = False, t_preempt_count = 0, t_sig = None, t_cr3 = 0, t_stack = 0,
     t_rsp = 0, t_frame = [], t_brk = 0, t_rlimit = (\<lambda>_. 0), t_cpu_ticks = 0, t_cswitch_count = 0 \<rparr>"

definition default_rlimit :: "nat \<Rightarrow> u64" where
  "default_rlimit = (\<lambda>_. 0)(0 := - 1, 2 := - 1, 3 := 8 * 1024 * 1024, 7 := of_nat MAX_FDS, 9 := - 1)"

text \<open>The words on a new kernel stack, from the stack pointer up: the entry point, or for the child of a fork
  the frame that \<open>context_switch\<close> and \<open>syscall_return_point\<close> pop.\<close>

definition initial_frame :: "u64 option \<Rightarrow> u64 \<Rightarrow> u64 list" where
  "initial_frame fn syscall_return_point = (case fn of
     Some f \<Rightarrow> [f]
   | None \<Rightarrow> (replicate 20 0)[19 := syscall_return_point, 11 := 0x400000, 4 := 0x202])"

text \<open>The results of \<open>kmalloc\<close> for the task, of \<open>alloc_page\<close> for its stack and whether the child list node could
  be allocated are arguments.\<close>

definition create_task :: "u64 option \<Rightarrow> u64 \<Rightarrow> nat \<Rightarrow> nat \<Rightarrow> bool \<Rightarrow> sched \<Rightarrow> (sched \<times> nat) option" where
  "create_task fn syscall_return_point mem stack_page node_ok s =
     (if mem = 0 then Some (s, 0)
      else if stack_page = 0 then Some (s, 0)
      else
        let frame = initial_frame fn syscall_return_point;
            (pm, p) = alloc_pid (pidmap s);
            s0 = s\<lparr> pidmap := pm \<rparr>
        in if p < 0 then Some (s0, 0)
           else
             let t = task_zero\<lparr> t_rlimit := default_rlimit, t_brk := 0x70000000, t_rsp := stack_page + 4096 - 8 * length frame,
                       t_frame := frame, t_cr3 := kernel_cr3 s, t_stack := stack_page, t_state := TASK_READY, t_priority := 128,
                       t_time_slice := full_slice (task_zero\<lparr> t_priority := 128 \<rparr>), t_vruntime := min_vruntime s,
                       t_parent := current s, t_pid := p \<rparr>;
                 n = (if num_cpus s = 0 then 1 else num_cpus s);
                 target = (let c = p smod n in if c \<ge> n then 0 else c);
                 s1 = s0\<lparr> tasks := (tasks s0)(mem \<mapsto> t), pidmap := pid_register p mem pm, num_cpus := n,
                          ftab := fd_table_init mem (ftab s0) \<rparr>
             in do {
                  s2 \<leftarrow> rq_insert mem (nat target) s1;
                  Some (add_child (current s) mem node_ok s2, mem) })"

text \<open>\<open>scheduler_init\<close> with the addresses of the idle and the init task; 0 for the latter when it could not be
  allocated.\<close>

definition scheduler_init :: "nat \<Rightarrow> nat \<Rightarrow> sched \<Rightarrow> sched option" where
  "scheduler_init idle ini s =
     (if idle = 0 then None
      else
        let pm = pid_set_bit 1 (pid_set_bit 0
                   ((pidmap s)\<lparr> pid_bitmap := replicate PID_BITMAP_WORDS 0, pid_table := (\<lambda>_. 0) \<rparr>));
            idle_t = task_zero\<lparr> t_cr3 := kernel_cr3 s, t_state := TASK_RUNNING, t_time_slice := 1, t_next := idle \<rparr>;
            q0 = \<lparr> rq_head = 0, rq_count = 0, ready_tree = rb_init (ready_tree (per_cpu_rq s 0)) \<rparr>
        in do {
             tree \<leftarrow> rb_insert idle (upd idle (rb_key_update (\<lambda>_. 0)) (ready_tree q0));
             (let s1 = s\<lparr> tasks := (tasks s)(idle \<mapsto> idle_t), current := idle, idle_task := idle,
                          per_cpu_rq := (\<lambda>c. if c = 0 then \<lparr> rq_head = idle, rq_count = 1, ready_tree = tree \<rparr>
                                              else \<lparr> rq_head = 0, rq_count = 0, ready_tree = rb_init (ready_tree (per_cpu_rq s c)) \<rparr>),
                          ftab := fd_table_init idle (ftab s), pidmap := pid_register 0 idle pm \<rparr>
              in Some (if ini = 0 then s1
                       else s1\<lparr> tasks := (tasks s1)(ini \<mapsto> task_zero\<lparr> t_cr3 := kernel_cr3 s, t_pid := 1, t_state := TASK_RUNNING,
                                                                     t_parent := idle, t_next := ini \<rparr>),
                                ftab := fd_table_init ini (ftab s1), pidmap := pid_register 1 ini (pidmap s1), init_task := ini \<rparr>)) })"

section \<open>Sending signals\<close>

definition sig_zero :: signal_state where
  "sig_zero = \<lparr> actions = (\<lambda>_. \<lparr> sa_handler = SIG_DFL, sa_flags = 0, sa_mask = 0 \<rparr>), pending = 0, blocked = 0, saved_rsp = 0, saved_rip = 0 \<rparr>"

definition signal_alloc :: "bool \<Rightarrow> signal_state option" where
  "signal_alloc mem_ok = (if mem_ok then Some sig_zero else None)"

definition sigbit :: "int \<Rightarrow> u32" where
  "sigbit sig = push_bit (nat sig) 1"

definition do_sys_kill :: "int \<Rightarrow> int \<Rightarrow> bool \<Rightarrow> sched \<Rightarrow> (sched \<times> int) option" where
  "do_sys_kill pid sig mem_ok s =
     (if sig < 1 \<or> sig \<ge> NSIG then Some (s, - 1)
      else if pid < 0 then Some (s, - 1)
      else do {
        target \<leftarrow> find_task_by_pid pid s;
        if target = 0 then Some (s, - 1)
        else do {
          t \<leftarrow> tasks s target;
          case (case t_sig t of Some g \<Rightarrow> Some g | None \<Rightarrow> signal_alloc mem_ok) of
            None \<Rightarrow> Some (s, - 1)
          | Some g0 \<Rightarrow>
              let g = g0\<lparr> pending := pending g0 OR sigbit sig \<rparr>;
                  wake = (t_state t = TASK_BLOCKED \<and> blocked g AND sigbit sig = 0 \<and>
                          (sig = SIGKILL \<or> sa_handler (actions g (nat sig)) \<noteq> SIG_IGN))
              in Some (upd_task target (\<lambda>x. x\<lparr> t_sig := Some g, t_state := (if wake then TASK_READY else t_state x) \<rparr>) s, 0) } })"

definition signal_child_event :: "nat \<Rightarrow> bool \<Rightarrow> sched \<Rightarrow> sched option" where
  "signal_child_event ch mem_ok s =
     (if ch = 0 then Some s
      else do {
        c \<leftarrow> tasks s ch;
        if t_parent c = 0 then Some s
        else do { p \<leftarrow> tasks s (t_parent c); (s', _) \<leftarrow> do_sys_kill (t_pid p) SIGCHLD mem_ok s; Some s' } })"

section \<open>Exit and wait\<close>

text \<open>The predecessor of a task in its circular list.\<close>

partial_function (option) exit_prev :: "(nat \<rightharpoonup> task) \<Rightarrow> nat \<Rightarrow> nat \<Rightarrow> nat option" where
  "exit_prev h cur p = (case h p of None \<Rightarrow> None | Some x \<Rightarrow> if t_next x \<noteq> cur then exit_prev h cur (t_next x) else Some p)"

definition do_exit_current :: "int \<Rightarrow> nat \<Rightarrow> bool \<Rightarrow> sched \<Rightarrow> (sched \<times> outcome) option" where
  "do_exit_current code cpu mem_ok s =
     (if current s = 0 then Some (s, Returns)
      else do {
        cur0 \<leftarrow> tasks s (current s);
        if t_pid cur0 = 0 then Some (s, Halts)
        else do {
          f \<leftarrow> fd_close_all (Some (current s)) (ftab s);
          s1 \<leftarrow> reparent_children_to_init (current s) (s\<lparr> ftab := f \<rparr>);
          s2 \<leftarrow> signal_child_event (current s) mem_ok s1;
          (let s3 = upd_task (current s) (\<lambda>t. t\<lparr> t_exit_code := code, t_state := TASK_ZOMBIE \<rparr>) s2
           in do {
             cur \<leftarrow> tasks s3 (current s);
             s4 \<leftarrow> (if t_parent cur = 0 then Some s3
                    else do { p \<leftarrow> tasks s3 (t_parent cur);
                              Some (if t_state p = TASK_BLOCKED then upd_task (t_parent cur) (t_state_update (\<lambda>_. TASK_READY)) s3 else s3) });
             prev \<leftarrow> exit_prev (tasks s4) (current s) (current s);
             if prev = current s then Some (s4, Halts)
             else do {
               tree \<leftarrow> rb_erase (current s) (ready_tree (per_cpu_rq s4 cpu));
               schedule cpu (upd_rq cpu (\<lambda>q. q\<lparr> rq_head := (if rq_head q = current s then t_next cur else rq_head q), ready_tree := tree,
                                               rq_count := (if rq_count q > 0 then rq_count q - 1 else rq_count q) \<rparr>)
                              (upd_task prev (t_next_update (\<lambda>_. t_next cur)) s4)) } }) } })"

text \<open>The scan of \<open>waitpid\<close> for a child that has exited; the list node of a NULL child is skipped.\<close>

primrec find_zombie :: "int \<Rightarrow> (nat \<rightharpoonup> task) \<Rightarrow> nat list \<Rightarrow> nat option" where
  "find_zombie pid h [] = Some 0"
| "find_zombie pid h (c # cs) =
     (if c = 0 then find_zombie pid h cs
      else case h c of
             None \<Rightarrow> None
           | Some t \<Rightarrow> if (pid = - 1 \<or> t_pid t = pid) \<and> t_state t = TASK_ZOMBIE then Some c else find_zombie pid h cs)"

datatype wait_result = Collected int int | No_child | Blocks outcome

definition WNOHANG :: nat where "WNOHANG = 1"

text \<open>One iteration of the loop of \<open>waitpid\<close>: it ends with a result or by blocking in \<open>schedule\<close>, after which
  the loop starts again.\<close>

definition waitpid :: "int \<Rightarrow> nat \<Rightarrow> nat \<Rightarrow> sched \<Rightarrow> (sched \<times> wait_result) option" where
  "waitpid pid options cpu s =
     (if current s = 0 then Some (s, Collected (- 1) 0)
      else do {
        cur \<leftarrow> tasks s (current s);
        c \<leftarrow> find_zombie pid (tasks s) (t_children cur);
        if c \<noteq> 0 then do {
          t \<leftarrow> tasks s c;
          (let s1 = upd_task (current s) (t_children_update (\<lambda>_. remove1 c (t_children cur))) s;
               s2 = s1\<lparr> freed_stacks := (if t_stack t \<noteq> 0 then freed_stacks s1 @ [t_stack t] else freed_stacks s1),
                        freed_cr3s := (if t_cr3 t \<noteq> 0 \<and> t_cr3 t \<noteq> kernel_cr3 s1 then freed_cr3s s1 @ [t_cr3 t] else freed_cr3s s1),
                        pidmap := free_pid (t_pid t) (pidmap s1), tasks := (tasks s1)(c := None) \<rparr>
           in Some (s2, Collected (t_pid t) (t_exit_code t))) }
        else if options AND WNOHANG \<noteq> 0 then Some (s, No_child)
        else map_option (\<lambda>(s', r). (s', Blocks r)) (schedule cpu (upd_task (current s) (t_state_update (\<lambda>_. TASK_BLOCKED)) s)) })"

section \<open>Load balancing\<close>

primrec busiest :: "sched \<Rightarrow> nat \<Rightarrow> nat \<Rightarrow> int \<times> int" where
  "busiest s my 0 = (- 1, 0)"
| "busiest s my (Suc i) =
     (let (b, m) = busiest s my i
      in if i = my then (b, m)
         else if rq_count (per_cpu_rq s i) > m then (int i, rq_count (per_cpu_rq s i)) else (b, m))"

partial_function (option) find_stealable :: "(nat \<rightharpoonup> task) \<Rightarrow> nat \<Rightarrow> nat \<Rightarrow> nat option" where
  "find_stealable h start c = (case h c of
     None \<Rightarrow> None
   | Some t \<Rightarrow> if t_state t = TASK_READY \<and> c \<noteq> start then Some c
               else if t_next t \<noteq> start then find_stealable h start (t_next t)
               else Some 0)"

definition smp_schedule :: "int \<Rightarrow> sched \<Rightarrow> sched option" where
  "smp_schedule my s =
     (if my < 0 \<or> my \<ge> num_cpus s then Some s
      else if rq_count (per_cpu_rq s (nat my)) > 1 then Some s
      else
        let (b, m) = busiest s (nat my) (nat (num_cpus s))
        in if b < 0 \<or> m \<le> 1 then Some s
           else do {
             stolen \<leftarrow> (let h = rq_head (per_cpu_rq s (nat b)) in if h = 0 then Some 0 else find_stealable (tasks s) h h);
             if stolen = 0 then Some s
             else do { s1 \<leftarrow> smp_dequeue_task stolen b s; smp_enqueue_task stolen my s1 } })"

end
