(* ===== verification/Signal.thy ===== *)
theory Signal
  imports Sched
begin

text \<open>
  The delivery of signals to user handlers and the system call entry: \<open>kernel/signal.c\<close>, \<open>kernel/signal.h\<close>,
  \<open>kernel/include/trapframe.h\<close>, \<open>kernel/include/userspace.h\<close>, \<open>syscall_trap\<close> of \<open>kernel/syscall.c\<close> and
  \<open>arch/x86_64/syscall.S\<close>.

  User memory is a function from addresses to bytes and \<open>present\<close> says which pages the page tables of the
  current process map for the user (the result of \<open>user_page_present\<close>). The field \<open>is_fork_child\<close> of the tasks
  is kept beside the scheduler's state. The flag that suspends the access protection of user pages is not
  modelled.
\<close>

section \<open>Words and bytes in memory\<close>

primrec bytes_of :: "nat \<Rightarrow> u64 \<Rightarrow> u8 list" where
  "bytes_of 0 w = []"
| "bytes_of (Suc n) w = ucast w # bytes_of n (drop_bit 8 w)"

primrec word_of :: "u8 list \<Rightarrow> u64" where
  "word_of [] = 0"
| "word_of (b # bs) = ucast b OR push_bit 8 (word_of bs)"

definition enc :: "u64 list \<Rightarrow> u8 list" where
  "enc ws = concat (map (bytes_of 8) ws)"

fun dec :: "u8 list \<Rightarrow> u64 list" where
  "dec [] = []"
| "dec (b # bs) = word_of (take 8 (b # bs)) # dec (drop 7 bs)"

definition read_bytes :: "(u64 \<Rightarrow> u8) \<Rightarrow> u64 \<Rightarrow> nat \<Rightarrow> u8 list" where
  "read_bytes m a n = map (\<lambda>i. m (a + of_nat i)) [0..<n]"

definition write_bytes :: "(u64 \<Rightarrow> u8) \<Rightarrow> u64 \<Rightarrow> u8 list \<Rightarrow> u64 \<Rightarrow> u8" where
  "write_bytes m a bs = (\<lambda>x. if unat (x - a) < length bs then bs ! unat (x - a) else m x)"

section \<open>Access to user memory\<close>

definition USER_ADDR_MAX :: u64 where "USER_ADDR_MAX = 0x00007FFFFFFFFFFF"

definition user_addr_range_ok :: "u64 \<Rightarrow> u64 \<Rightarrow> bool" where
  "user_addr_range_ok start len = (let e = start + len in \<not> e < start \<and> \<not> e > USER_ADDR_MAX)"

partial_function (option) pages_mapped_loop :: "(u64 \<Rightarrow> bool) \<Rightarrow> u64 \<Rightarrow> u64 \<Rightarrow> bool option" where
  "pages_mapped_loop present_at page e =
     (if page < e then if \<not> present_at page then Some False else pages_mapped_loop present_at (page + 0x1000) e
      else Some True)"

definition user_pages_mapped :: "(u64 \<Rightarrow> bool) \<Rightarrow> u64 \<Rightarrow> u64 \<Rightarrow> bool option" where
  "user_pages_mapped present_at a len = pages_mapped_loop present_at (a AND NOT 0xFFF) (a + len)"

text \<open>The copies from and to user memory; the inner \<^const>\<open>None\<close> is the error result.\<close>

definition copy_from_user :: "(u64 \<Rightarrow> bool) \<Rightarrow> (u64 \<Rightarrow> u8) \<Rightarrow> u64 \<Rightarrow> nat \<Rightarrow> u8 list option option" where
  "copy_from_user present_at m src n =
     (if src = 0 then Some None
      else if \<not> user_addr_range_ok src (of_nat n) then Some None
      else do { ok \<leftarrow> user_pages_mapped present_at src (of_nat n); Some (if ok then Some (read_bytes m src n) else None) })"

definition copy_to_user :: "(u64 \<Rightarrow> bool) \<Rightarrow> (u64 \<Rightarrow> u8) \<Rightarrow> u64 \<Rightarrow> u8 list \<Rightarrow> (u64 \<Rightarrow> u8) option option" where
  "copy_to_user present_at m dst bs =
     (if dst = 0 then Some None
      else if \<not> user_addr_range_ok dst (of_nat (length bs)) then Some None
      else do { ok \<leftarrow> user_pages_mapped present_at dst (of_nat (length bs)); Some (if ok then Some (write_bytes m dst bs) else None) })"

section \<open>Frames\<close>

record trapframe =
  tf_r15 :: u64
  tf_r14 :: u64
  tf_r13 :: u64
  tf_r12 :: u64
  tf_r11 :: u64
  tf_r10 :: u64
  tf_r9 :: u64
  tf_r8 :: u64
  tf_rsi :: u64
  tf_rdi :: u64
  tf_rdx :: u64
  tf_rcx :: u64
  tf_rax :: u64
  tf_rip :: u64
  tf_rsp :: u64

record sigframe =
  sf_ret_addr :: u64
  sf_signo :: u64
  sf_r15 :: u64
  sf_r14 :: u64
  sf_r13 :: u64
  sf_r12 :: u64
  sf_r11 :: u64
  sf_r10 :: u64
  sf_r9 :: u64
  sf_r8 :: u64
  sf_rsi :: u64
  sf_rdi :: u64
  sf_rdx :: u64
  sf_rcx :: u64
  sf_rax :: u64
  sf_rip :: u64
  sf_rflags :: u64
  sf_rsp :: u64

definition SIGFRAME_SIZE :: nat where "SIGFRAME_SIZE = 144"
definition TRAMPOLINE_SIZE :: nat where "TRAMPOLINE_SIZE = 16"
definition SYS_SIGRETURN :: u32 where "SYS_SIGRETURN = 15"
definition SIGINT :: int where "SIGINT = 2"
definition SIGTERM :: int where "SIGTERM = 15"

definition sigframe_of :: "u64 list \<Rightarrow> sigframe" where
  "sigframe_of w = \<lparr> sf_ret_addr = w ! 0, sf_signo = w ! 1, sf_r15 = w ! 2, sf_r14 = w ! 3, sf_r13 = w ! 4, sf_r12 = w ! 5, sf_r11 = w ! 6,
     sf_r10 = w ! 7, sf_r9 = w ! 8, sf_r8 = w ! 9, sf_rsi = w ! 10, sf_rdi = w ! 11, sf_rdx = w ! 12, sf_rcx = w ! 13, sf_rax = w ! 14,
     sf_rip = w ! 15, sf_rflags = w ! 16, sf_rsp = w ! 17 \<rparr>"

record trap_state =
  sch :: sched
  current_tf :: "trapframe option"
  umem :: "u64 \<Rightarrow> u8"
  present :: "u64 \<Rightarrow> bool"
  is_fork_child :: "nat \<Rightarrow> bool"

definition set_sig :: "signal_state \<Rightarrow> trap_state \<Rightarrow> trap_state" where
  "set_sig g st = st\<lparr> sch := upd_task (current (sch st)) (t_sig_update (\<lambda>_. Some g)) (sch st) \<rparr>"

definition cur_sig :: "trap_state \<Rightarrow> signal_state option option" where
  "cur_sig st = map_option t_sig (tasks (sch st) (current (sch st)))"

section \<open>Installing handlers\<close>

definition sigaction_words :: "sigaction \<Rightarrow> u64 list" where
  "sigaction_words a = [sa_handler a, sa_flags a, sa_mask a]"

definition sigaction_of :: "u64 list \<Rightarrow> sigaction" where
  "sigaction_of w = \<lparr> sa_handler = w ! 0, sa_flags = w ! 1, sa_mask = w ! 2 \<rparr>"

definition do_sys_sigaction :: "int \<Rightarrow> u64 \<Rightarrow> u64 \<Rightarrow> bool \<Rightarrow> trap_state \<Rightarrow> (trap_state \<times> int) option" where
  "do_sys_sigaction signo act oldact mem_ok st =
     (if signo < 1 \<or> signo \<ge> NSIG then Some (st, - 1)
      else if signo = SIGKILL then Some (st, - 1)
      else do {
        g0 \<leftarrow> cur_sig st;
        case (case g0 of Some g \<Rightarrow> Some g | None \<Rightarrow> signal_alloc mem_ok) of
          None \<Rightarrow> Some (st, - 1)
        | Some g \<Rightarrow> do {
            (let st1 = set_sig g st
             in do {
               r1 \<leftarrow> (if oldact = 0 then Some (Some (umem st1))
                      else copy_to_user (present st1) (umem st1) oldact (enc (sigaction_words (actions g (nat signo)))));
               case r1 of
                 None \<Rightarrow> Some (st1, - 1)
               | Some m \<Rightarrow>
                   let st2 = st1\<lparr> umem := m \<rparr>
                   in if act = 0 then Some (st2, 0)
                      else do {
                        r2 \<leftarrow> copy_from_user (present st2) (umem st2) act 24;
                        case r2 of
                          None \<Rightarrow> Some (st2, - 1)
                        | Some bs \<Rightarrow> Some (set_sig (g\<lparr> actions := (actions g)(nat signo := sigaction_of (dec bs)) \<rparr>) st2, 0) } }) } })"

section \<open>Returning from a handler\<close>

text \<open>The registers after \<open>sigreturn\<close>, from the bytes copied from the user stack or, when the copy failed or the
  signal number in it is out of range, from the saved instruction and stack pointers only.\<close>

definition restore_context :: "u8 list option \<Rightarrow> signal_state \<Rightarrow> trapframe \<Rightarrow> trapframe" where
  "restore_context r g tf =
     (let fallback = tf\<lparr> tf_rip := saved_rip g, tf_rsp := saved_rsp g \<rparr>
      in case r of
           None \<Rightarrow> fallback
         | Some bs \<Rightarrow>
             let f = sigframe_of (dec bs)
             in if sf_signo f > 0 \<and> sf_signo f < word_of_int NSIG
                then \<lparr> tf_r15 = sf_r15 f, tf_r14 = sf_r14 f, tf_r13 = sf_r13 f, tf_r12 = sf_r12 f,
                       tf_r11 = sf_rflags f AND 0x3F7FD7, tf_r10 = sf_r10 f, tf_r9 = sf_r9 f, tf_r8 = sf_r8 f,
                       tf_rsi = sf_rsi f, tf_rdi = sf_rdi f, tf_rdx = sf_rdx f, tf_rcx = sf_rcx f, tf_rax = sf_rax f,
                       tf_rip = sf_rip f, tf_rsp = sf_rsp f \<rparr>
                else fallback)"

definition do_sys_sigreturn :: "nat \<Rightarrow> bool \<Rightarrow> trap_state \<Rightarrow> (trap_state \<times> outcome) option" where
  "do_sys_sigreturn cpu mem_ok st = (case current_tf st of
     None \<Rightarrow> map_option (\<lambda>(s, r). (st\<lparr> sch := s \<rparr>, r)) (do_exit_current 1 cpu mem_ok (sch st))
   | Some tf \<Rightarrow> do {
       g0 \<leftarrow> cur_sig st;
       case g0 of
         None \<Rightarrow> Some (st, Returns)
       | Some g \<Rightarrow>
           if saved_rip g = 0 then Some (st, Returns)
           else do {
             r \<leftarrow> copy_from_user (present st) (umem st) (saved_rsp g - of_nat SIGFRAME_SIZE) SIGFRAME_SIZE;
             Some (set_sig (g\<lparr> saved_rip := 0, saved_rsp := 0, blocked := 0 \<rparr>)
                     (st\<lparr> current_tf := Some (restore_context r g tf) \<rparr>), Returns) } })"

section \<open>Delivery\<close>

definition do_signal_default :: "int \<Rightarrow> nat \<Rightarrow> bool \<Rightarrow> trap_state \<Rightarrow> (trap_state \<times> outcome) option" where
  "do_signal_default sig cpu mem_ok st =
     (let die = map_option (\<lambda>(s, r). (st\<lparr> sch := s \<rparr>, r)) (do_exit_current (128 + sig) cpu mem_ok (sch st))
      in if sig = SIGKILL \<or> sig = SIGTERM \<or> sig = SIGINT then die
         else if sig = SIGCHLD then Some (st, Returns)
         else die)"

definition frame_size :: u64 where
  "frame_size = of_nat (SIGFRAME_SIZE + 8 + TRAMPOLINE_SIZE)"

text \<open>The checks on the user stack before the frame is written.\<close>

definition stack_ok :: "trap_state \<Rightarrow> u64 \<Rightarrow> bool option" where
  "stack_ok st user_rsp =
     (if user_rsp < frame_size + 0x1000 then Some False
      else
        let new_rsp = user_rsp - frame_size
        in if new_rsp > user_rsp then Some False
           else if \<not> user_addr_range_ok new_rsp frame_size then Some False
           else user_pages_mapped (present st) new_rsp frame_size)"

definition trampoline :: "u8 list" where
  "trampoline = 0xB8 # map (\<lambda>i. ucast (drop_bit (8 * i) SYS_SIGRETURN)) [0..<4] @ [0x0F, 0x05] @ replicate (TRAMPOLINE_SIZE - 7) 0"

text \<open>The fields of the frame that are written, in the order of the struct; \<open>ret_addr\<close> is not.\<close>

definition saved_words :: "nat \<Rightarrow> trapframe \<Rightarrow> u64 list" where
  "saved_words s tf = [of_nat s, tf_r15 tf, tf_r14 tf, tf_r13 tf, tf_r12 tf, tf_r11 tf, tf_r10 tf, tf_r9 tf, tf_r8 tf, tf_rsi tf, tf_rdi tf,
     tf_rdx tf, tf_rcx tf, tf_rax tf, tf_rip tf, tf_r11 tf, tf_rsp tf]"

definition push_sigframe :: "nat \<Rightarrow> u64 \<Rightarrow> trapframe \<Rightarrow> signal_state \<Rightarrow> trap_state \<Rightarrow> trap_state" where
  "push_sigframe s handler tf g st =
     (let new_rsp = tf_rsp tf - frame_size;
          m1 = write_bytes (umem st) (new_rsp + 8) trampoline;
          m2 = write_bytes m1 new_rsp (bytes_of 8 (new_rsp + 8));
          frame = new_rsp + 8 + of_nat TRAMPOLINE_SIZE;
          m3 = write_bytes m2 (frame + 8) (enc (saved_words s tf))
      in set_sig (g\<lparr> saved_rsp := tf_rsp tf, saved_rip := tf_rip tf, blocked := blocked g OR sigbit (int s) \<rparr>)
           (st\<lparr> umem := m3, current_tf := Some (tf\<lparr> tf_rip := handler, tf_rsp := new_rsp, tf_rdi := of_nat s \<rparr>) \<rparr>))"

fun deliver :: "nat list \<Rightarrow> nat \<Rightarrow> bool \<Rightarrow> trapframe \<Rightarrow> signal_state \<Rightarrow> trap_state \<Rightarrow> (trap_state \<times> outcome) option" where
  "deliver [] cpu mem_ok tf g st = Some (st, Returns)"
| "deliver (s # ss) cpu mem_ok tf g st =
     (if pending g AND sigbit (int s) = 0 then deliver ss cpu mem_ok tf g st
      else if blocked g AND sigbit (int s) \<noteq> 0 then deliver ss cpu mem_ok tf g st
      else
        let g1 = g\<lparr> pending := pending g AND NOT (sigbit (int s)) \<rparr>;
            st1 = set_sig g1 st;
            handler = sa_handler (actions g1 s)
        in if handler = SIG_DFL then do_signal_default (int s) cpu mem_ok st1
           else if handler = SIG_IGN then deliver ss cpu mem_ok tf g1 st1
           else do {
             ok \<leftarrow> stack_ok st1 (tf_rsp tf);
             if \<not> ok then do_signal_default (int s) cpu mem_ok st1
             else Some (push_sigframe s handler tf g1 st1, Returns) })"

definition check_signals :: "nat \<Rightarrow> bool \<Rightarrow> trap_state \<Rightarrow> (trap_state \<times> outcome) option" where
  "check_signals cpu mem_ok st =
     (if current (sch st) = 0 then Some (st, Returns)
      else do {
        g0 \<leftarrow> cur_sig st;
        case (g0, current_tf st) of
          (Some g, Some tf) \<Rightarrow> if pending g = 0 then Some (st, Returns) else deliver [1..<nat NSIG] cpu mem_ok tf g st
        | _ \<Rightarrow> Some (st, Returns) })"

section \<open>System call entry\<close>

record user_regs =
  u_rax :: u64
  u_rcx :: u64
  u_rdx :: u64
  u_rdi :: u64
  u_rsi :: u64
  u_r8 :: u64
  u_r9 :: u64
  u_r10 :: u64
  u_r11 :: u64
  u_r12 :: u64
  u_r13 :: u64
  u_r14 :: u64
  u_r15 :: u64

text \<open>The pushes of \<open>syscall_entry\<close>; a stack is the list of its words from the stack pointer upwards.\<close>

definition syscall_entry_pushes :: "user_regs \<Rightarrow> u64 list \<Rightarrow> u64 list" where
  "syscall_entry_pushes u stack =
     foldl (\<lambda>stk v. v # stk) stack
       [u_r15 u, u_r14 u, u_r13 u, u_r12 u, u_r11 u, u_r10 u, u_r9 u, u_r8 u, u_rsi u, u_rdi u, u_rdx u, u_rcx u, u_rax u]"

text \<open>The pops from \<open>syscall_return_point\<close> on.\<close>

definition syscall_return_pops :: "u64 list \<Rightarrow> user_regs" where
  "syscall_return_pops stk = \<lparr> u_rax = stk ! 0, u_rcx = stk ! 1, u_rdx = stk ! 2, u_rdi = stk ! 3, u_rsi = stk ! 4, u_r8 = stk ! 5,
     u_r9 = stk ! 6, u_r10 = stk ! 7, u_r11 = stk ! 8, u_r12 = stk ! 9, u_r13 = stk ! 10, u_r14 = stk ! 11, u_r15 = stk ! 12 \<rparr>"

text \<open>The C struct at the stack pointer: its fields are consecutive words, the first at the lowest address.\<close>

definition trapframe_at :: "u64 list \<Rightarrow> trapframe" where
  "trapframe_at stk = \<lparr> tf_r15 = stk ! 0, tf_r14 = stk ! 1, tf_r13 = stk ! 2, tf_r12 = stk ! 3, tf_r11 = stk ! 4, tf_r10 = stk ! 5,
     tf_r9 = stk ! 6, tf_r8 = stk ! 7, tf_rsi = stk ! 8, tf_rdi = stk ! 9, tf_rdx = stk ! 10, tf_rcx = stk ! 11, tf_rax = stk ! 12,
     tf_rip = stk ! 13, tf_rsp = stk ! 14 \<rparr>"

definition store_trapframe :: "trapframe \<Rightarrow> u64 list \<Rightarrow> u64 list" where
  "store_trapframe tf stk = [tf_r15 tf, tf_r14 tf, tf_r13 tf, tf_r12 tf, tf_r11 tf, tf_r10 tf, tf_r9 tf, tf_r8 tf, tf_rsi tf, tf_rdi tf,
     tf_rdx tf, tf_rcx tf, tf_rax tf, tf_rip tf, tf_rsp tf] @ drop 15 stk"

text \<open>\<open>syscall_trap\<close>, with the dispatcher \<open>handle_syscall\<close> as an argument: a function of the number, the six
  arguments and the state. The frame it leaves on the stack is part of the result. The performance
  counters are left out.\<close>

definition syscall_trap ::
  "(int \<Rightarrow> u64 list \<Rightarrow> trap_state \<Rightarrow> (trap_state \<times> u64) option) \<Rightarrow> nat \<Rightarrow> bool \<Rightarrow> trapframe \<Rightarrow> trap_state \<Rightarrow> (trap_state \<times> trapframe \<times> outcome) option" where
  "syscall_trap handle cpu mem_ok tf st =
     (let st0 = st\<lparr> current_tf := Some tf \<rparr>
      in do {
        (st1, ret) \<leftarrow>
          (if current (sch st0) \<noteq> 0 \<and> is_fork_child st0 (current (sch st0))
           then Some (st0\<lparr> is_fork_child := (is_fork_child st0)(current (sch st0) := False) \<rparr>, 0)
           else handle (sint (ucast (tf_rax tf) :: u32)) [tf_rdi tf, tf_rsi tf, tf_rdx tf, tf_r10 tf, tf_r8 tf, tf_r9 tf] st0);
        tf1 \<leftarrow> current_tf st1;
        (st2, r) \<leftarrow> check_signals cpu mem_ok (st1\<lparr> current_tf := Some (tf1\<lparr> tf_rax := ret \<rparr>) \<rparr>);
        tf2 \<leftarrow> current_tf st2;
        Some (st2\<lparr> current_tf := None \<rparr>, tf2, r) })"

definition wrap_sys_sigreturn :: "nat \<Rightarrow> bool \<Rightarrow> trap_state \<Rightarrow> (trap_state \<times> u64) option" where
  "wrap_sys_sigreturn cpu mem_ok st = map_option (\<lambda>(st', r). (st', 0)) (do_sys_sigreturn cpu mem_ok st)"

end
