(* ===== verification/SchedProps.thy ===== *)
theory SchedProps
  imports Sched
begin

text \<open>
  Properties of the scheduler: which task \<open>schedule\<close> chooses, what is charged to a task and what this means for
  fairness, the timer tick, the run queues under load balancing, and \<open>waitpid\<close>.
\<close>

section \<open>Updates\<close>

lemma upd_task_simps [simp]:
  "tasks (upd_task p f s) p = map_option f (tasks s p)" "q \<noteq> p \<Longrightarrow> tasks (upd_task p f s) q = tasks s q"
  "current (upd_task p f s) = current s" "per_cpu_rq (upd_task p f s) = per_cpu_rq s" "idle_task (upd_task p f s) = idle_task s"
  "min_vruntime (upd_task p f s) = min_vruntime s" "num_cpus (upd_task p f s) = num_cpus s" "resched_flag (upd_task p f s) = resched_flag s"
  "pidmap (upd_task p f s) = pidmap s" "ftab (upd_task p f s) = ftab s" "init_task (upd_task p f s) = init_task s"
  by (simp_all add: upd_task_def)

lemma upd_rq_simps [simp]:
  "tasks (upd_rq c f s) = tasks s" "current (upd_rq c f s) = current s" "per_cpu_rq (upd_rq c f s) c = f (per_cpu_rq s c)"
  "d \<noteq> c \<Longrightarrow> per_cpu_rq (upd_rq c f s) d = per_cpu_rq s d" "num_cpus (upd_rq c f s) = num_cpus s"
  by (simp_all add: upd_rq_def)

section \<open>Choosing a task\<close>

definition runnable :: "sched \<Rightarrow> nat \<Rightarrow> bool" where
  "runnable s a \<longleftrightarrow> a \<noteq> current s \<and> (case tasks s a of None \<Rightarrow> False | Some t \<Rightarrow> t_state t = TASK_READY \<or> t_state t = TASK_RUNNING)"

lemma pick_ok:
  assumes q: "rb_queue tree xs" and live: "\<forall>a \<in> set xs. tasks s a \<noteq> None" and xs: "xs = ys @ zs"
  shows "pick s tree (case zs of [] \<Rightarrow> 0 | z # _ \<Rightarrow> z) = Some (case filter (runnable s) zs of [] \<Rightarrow> 0 | z # _ \<Rightarrow> z)"
  using xs
proof (induction zs arbitrary: ys)
  case Nil
  then show ?case by (subst pick.simps) simp
next
  case (Cons z zs)
  obtain t where t: "tasks s z = Some t" using live Cons.prems by auto
  have z: "z \<noteq> 0" using rq.inv_sorted [OF q] Cons.prems by auto
  have "rb_next tree z = Some (case zs of [] \<Rightarrow> 0 | a # _ \<Rightarrow> a)" by (rule rb_next_ok [OF q Cons.prems])
  moreover have "pick s tree (case zs of [] \<Rightarrow> 0 | z # _ \<Rightarrow> z) = Some (case filter (runnable s) zs of [] \<Rightarrow> 0 | z # _ \<Rightarrow> z)"
    using Cons.IH [of "ys @ [z]"] Cons.prems by simp
  ultimately show ?case using z t by (subst pick.simps) (auto simp: runnable_def)
qed

text \<open>The state in which \<open>schedule\<close> works: the tree of the processor holds live tasks.\<close>

definition rq_live :: "sched \<Rightarrow> nat \<Rightarrow> nat list \<Rightarrow> bool" where
  "rq_live s cpu ys \<longleftrightarrow> rb_queue (ready_tree (per_cpu_rq s cpu)) ys \<and> rq_head (per_cpu_rq s cpu) \<noteq> 0 \<and> (\<forall>a \<in> set ys. tasks s a \<noteq> None)"

definition good_current :: "sched \<Rightarrow> task \<Rightarrow> bool" where
  "good_current s cur \<longleftrightarrow> current s \<noteq> 0 \<and> tasks s (current s) = Some cur \<and> t_next cur \<noteq> 0 \<and> 0 \<le> t_priority cur \<and> t_priority cur \<le> 255"

lemma charge_defined: "0 \<le> t_priority t \<Longrightarrow> t_priority t \<le> 255 \<Longrightarrow> \<exists>v. vruntime_charge t = Some v"
proof -
  assume p: "0 \<le> t_priority t" "t_priority t \<le> 255"
  have "(word_of_int k :: u64) \<noteq> 0" if "0 < k" "k \<le> 256" for k
    using that by (auto simp: word_of_int_eq_0_iff dest: zdvd_imp_le)
  from this [of "t_priority t + 1"] have "(word_of_int (t_priority t + 1) :: u64) \<noteq> 0" using p by linarith
  then show ?thesis by (simp add: vruntime_charge_def Let_def)
qed

lemma pick_first:
  assumes "rq_live s cpu ys"
  shows "\<exists>m. rb_find_min (ready_tree (per_cpu_rq s cpu)) = Some m \<and>
    pick s (ready_tree (per_cpu_rq s cpu)) m = Some (case filter (runnable s) ys of [] \<Rightarrow> 0 | z # _ \<Rightarrow> z)"
  using assms rb_first_ok [of "ready_tree (per_cpu_rq s cpu)" ys] pick_ok [of "ready_tree (per_cpu_rq s cpu)" ys s "[]" ys]
  by (auto simp: rq_live_def rb_first_def)

lemma schedule_switch:
  assumes q: "rq_live s cpu ys" and cur: "good_current s cur" and a: "filter (runnable s) ys = a # as"
  shows "schedule cpu s = switch_to a s"
proof -
  obtain m where m: "rb_find_min (ready_tree (per_cpu_rq s cpu)) = Some m" "pick s (ready_tree (per_cpu_rq s cpu)) m = Some a"
    using pick_first [OF q] a by auto
  have "a \<in> set ys" using a by (metis Cons_eq_filterD in_set_conv_decomp)
  moreover have "0 \<notin> set ys" using q rq.inv_sorted [of "ready_tree (per_cpu_rq s cpu)" ys] by (simp add: rq_live_def)
  ultimately have "a \<noteq> 0" by metis
  then show ?thesis using cur q m by (simp add: schedule_def good_current_def rq_live_def)
qed

text \<open>The effect of a switch on the tasks.\<close>

lemma switch_to_ok:
  assumes cur: "good_current s cur" and a: "tasks s a = Some t" "a \<noteq> current s"
  shows "\<exists>s' v. switch_to a s = Some (s', Switches) \<and> current s' = a \<and> per_cpu_rq s' = per_cpu_rq s \<and> idle_task s' = idle_task s \<and>
    tasks s' = (tasks s)(a \<mapsto> t\<lparr> t_state := TASK_RUNNING, t_cpu_ticks := t_cpu_ticks t + 1, t_cswitch_count := t_cswitch_count t + 1 \<rparr>,
      current s \<mapsto> (if t_state cur = TASK_RUNNING then cur\<lparr> t_state := TASK_READY, t_vruntime := t_vruntime cur + v \<rparr> else cur)) \<and>
    min_vruntime s' = max (min_vruntime s) (t_vruntime t)"
proof -
  obtain v where v: "vruntime_charge cur = Some v" using charge_defined cur by (auto simp: good_current_def)
  show ?thesis
    using cur a v
    by (cases "t_state cur = TASK_RUNNING"; cases "t_vruntime t \<le> min_vruntime s")
      (auto simp: switch_to_def good_current_def upd_task_def fun_eq_iff max_def intro!: exI [of _ v])
qed

section \<open>Two tasks that yield to each other\<close>

fun yields :: "nat \<Rightarrow> nat \<Rightarrow> sched \<Rightarrow> sched option" where
  "yields 0 cpu s = Some s"
| "yields (Suc n) cpu s = Option.bind (yield cpu s) (\<lambda>(s', r). yields n cpu s')"

definition can_run :: "task \<Rightarrow> bool" where
  "can_run t \<longleftrightarrow> (t_state t = TASK_READY \<or> t_state t = TASK_RUNNING) \<and> 0 \<le> t_priority t \<and> t_priority t \<le> 255 \<and> t_next t \<noteq> 0"

definition ping_pong :: "sched \<Rightarrow> nat \<Rightarrow> nat \<Rightarrow> nat \<Rightarrow> nat list \<Rightarrow> bool" where
  "ping_pong s cpu a b zs \<longleftrightarrow> rq_live s cpu (a # b # zs) \<and> current s \<in> {a, b} \<and>
     (\<exists>ta tb. tasks s a = Some ta \<and> tasks s b = Some tb \<and> can_run ta \<and> can_run tb)"

lemma ping_pong_step:
  assumes "ping_pong s cpu a b zs"
  shows "\<exists>s' r. yield cpu s = Some (s', r) \<and> ping_pong s' cpu a b zs \<and> (\<forall>c \<in> set zs. tasks s' c = tasks s c)"
proof -
  have q: "rq_live s cpu (a # b # zs)" and c: "current s \<in> {a, b}" using assms by (simp_all add: ping_pong_def)
  obtain ta tb where t: "tasks s a = Some ta" "tasks s b = Some tb" "can_run ta" "can_run tb" using assms by (auto simp: ping_pong_def)
  have d: "a \<noteq> b" "a \<noteq> 0" "b \<noteq> 0" "a \<notin> set zs" "b \<notin> set zs" using q rq.inv_sorted by (fastforce simp: rq_live_def)+
  obtain cur oth where co: "current s = cur" "{cur, oth} = {a, b}" "cur \<noteq> oth" using c d(1) by blast
  obtain tc to' where tc: "tasks s cur = Some tc" "tasks s oth = Some to'" "can_run tc" "can_run to'" "cur \<noteq> 0" "cur \<notin> set zs" "oth \<notin> set zs"
    using co(2,3) t d by (metis doubleton_eq_iff)
  obtain v where v: "vruntime_charge tc = Some v" using charge_defined tc(3) by (auto simp: can_run_def)
  let ?tc = "tc\<lparr> t_vruntime := t_vruntime tc + v, t_state := TASK_READY \<rparr>"
  let ?s = "upd_task cur (\<lambda>t. t\<lparr> t_vruntime := t_vruntime t + v, t_state := TASK_READY \<rparr>) s"
  have live: "rq_live ?s cpu (a # b # zs)" using q unfolding rq_live_def upd_task_simps(4) by (auto simp: upd_task_def)
  have gc: "good_current ?s ?tc" using tc co by (simp add: good_current_def can_run_def)
  have run: "runnable ?s oth" "\<not> runnable ?s cur" using tc co by (auto simp: runnable_def can_run_def)
  then have f: "\<exists>as. filter (runnable ?s) (a # b # zs) = oth # as" using co(2,3) by (auto simp: doubleton_eq_iff)
  have y: "yield cpu s = schedule cpu ?s" using tc co v by (simp add: yield_def)
  obtain s' where s': "schedule cpu ?s = Some (s', Switches)" "current s' = oth" "per_cpu_rq s' = per_cpu_rq s"
      "tasks s' = (tasks ?s)(oth \<mapsto> to'\<lparr> t_state := TASK_RUNNING, t_cpu_ticks := t_cpu_ticks to' + 1, t_cswitch_count := t_cswitch_count to' + 1 \<rparr>, cur \<mapsto> ?tc)"
    using f schedule_switch [OF live gc] switch_to_ok [OF gc, of oth to'] tc(2) co by auto
  have "ping_pong s' cpu a b zs"
  proof -
    have "rq_live s' cpu (a # b # zs)" using q s'(3,4) by (auto simp: rq_live_def upd_task_def)
    moreover have "\<exists>x y. tasks s' cur = Some x \<and> tasks s' oth = Some y \<and> can_run x \<and> can_run y"
      using s'(4) tc co(3) by (auto simp: can_run_def)
    ultimately show ?thesis using co(2) s'(2) by (auto simp: ping_pong_def doubleton_eq_iff)
  qed
  moreover have "\<forall>c \<in> set zs. tasks s' c = tasks s c" using s'(4) tc(6,7) by (auto simp: upd_task_def)
  ultimately show ?thesis using y s'(1) by auto
qed

section \<open>Preemption\<close>

lemma switch_to_vruntime:
  assumes "switch_to a s = Some (s', r)" "tasks s (current s) = Some cur" "t_state cur \<noteq> TASK_RUNNING"
  shows "map_option t_vruntime (tasks s' p) = map_option t_vruntime (tasks s p)"
  using assms by (auto simp: switch_to_def upd_task_def Let_def split: bind_splits if_splits)

lemma schedule_vruntime:
  assumes "schedule cpu s = Some (s', r)" "tasks s (current s) = Some cur" "t_state cur \<noteq> TASK_RUNNING"
  shows "map_option t_vruntime (tasks s' p) = map_option t_vruntime (tasks s p)"
  using assms switch_to_vruntime [OF _ assms(2,3)]
  by (auto simp: schedule_def split: bind_splits if_splits)

fun ticks :: "nat \<Rightarrow> sched \<Rightarrow> sched option" where
  "ticks 0 s = Some s"
| "ticks (Suc n) s = Option.bind (schedule_tick s) (ticks n)"

lemma full_slice_range: "0 \<le> t_priority t \<Longrightarrow> t_priority t \<le> 255 \<Longrightarrow> 1 \<le> full_slice t \<and> full_slice t \<le> 10"
  by (auto simp: full_slice_def BASE_SLICE_def Let_def signed_divide_int_def sgn_if)

lemma ticks_before:
  assumes "current s \<noteq> 0" "tasks s (current s) = Some cur" "t_state cur = TASK_RUNNING" "t_preempt_count cur \<le> 0" "int k < t_time_slice cur"
  shows "ticks k s = Some (upd_task (current s) (t_time_slice_update (\<lambda>_. t_time_slice cur - int k)) s)"
  using assms
proof (induction k arbitrary: s cur)
  case 0
  then show ?case by (auto simp: upd_task_def fun_eq_iff)
next
  case (Suc k)
  let ?s = "upd_task (current s) (t_time_slice_update (\<lambda>_. t_time_slice cur - 1)) s"
  have "schedule_tick s = Some ?s" using Suc.prems by (simp add: schedule_tick_def Let_def)
  moreover have "ticks k ?s = Some (upd_task (current s) (t_time_slice_update (\<lambda>_. t_time_slice cur - 1 - int k)) ?s)"
    using Suc.IH [of ?s "cur\<lparr> t_time_slice := t_time_slice cur - 1 \<rparr>"] Suc.prems by simp
  ultimately show ?case using Suc.prems(2) by (simp add: upd_task_def algebra_simps)
qed

lemma ticks_Suc_right: "ticks (Suc k) s = Option.bind (ticks k s) schedule_tick"
proof (induction k arbitrary: s)
  case (Suc k)
  then show ?case by (cases "schedule_tick s") simp_all
qed (simp split: bind_split)

section \<open>Waiting\<close>

definition waited_for :: "int \<Rightarrow> task \<Rightarrow> bool" where
  "waited_for pid t \<longleftrightarrow> (pid = - 1 \<or> t_pid t = pid) \<and> t_state t = TASK_ZOMBIE"

lemma find_zombie_ok:
  assumes "\<forall>c \<in> set cs. c \<noteq> 0 \<and> h c \<noteq> None"
  shows "find_zombie pid h cs = Some (case filter (\<lambda>c. waited_for pid (the (h c))) cs of [] \<Rightarrow> 0 | c # _ \<Rightarrow> c)"
  using assms by (induction cs) (auto simp: waited_for_def)

section \<open>A sample state\<close>

text \<open>Three tasks in the tree of every processor, the first of them running, and a fourth one that has exited.\<close>

definition sample_task :: "nat \<Rightarrow> nat \<Rightarrow> task_state \<Rightarrow> task" where
  "sample_task p nx st = task_zero\<lparr> t_pid := int p, t_next := nx, t_state := st, t_priority := 128, t_time_slice := 1 \<rparr>"

definition sample_sched :: "rbt \<Rightarrow> sched" where
  "sample_sched tree = \<lparr>
     tasks = [1 \<mapsto> (sample_task 1 2 TASK_RUNNING)\<lparr> t_children := [2, 4] \<rparr>, 2 \<mapsto> sample_task 2 3 TASK_READY,
              3 \<mapsto> sample_task 3 1 TASK_READY, 4 \<mapsto> (sample_task 4 4 TASK_ZOMBIE)\<lparr> t_exit_code := 42, t_stack := 4096 \<rparr>],
     current = 1, init_task = 0, idle_task = 0, per_cpu_rq = (\<lambda>_. \<lparr> rq_head = 1, rq_count = 3, ready_tree = tree \<rparr>), min_vruntime = 0,
     pidmap = no_pids, resched_flag = False,
     num_cpus = 1, kernel_cr3 = 0, ftab = no_files, freed_stacks = [], freed_cr3s = [] \<rparr>"

lemma three_nodes: "\<exists>s. rb_queue s [1, 2, 3]"
proof -
  obtain s1 where s1: "rb_queue s1 [1]" "keys s1 = keys no_nodes"
    using rb_insert_ok [OF no_nodes_queue, of 1] by (auto simp: queue_insert_def)
  obtain s2 where s2: "rb_queue s2 [1, 2]" "keys s2 = keys no_nodes"
    using rb_insert_ok [OF s1(1), of 2] by (auto simp: queue_insert_def s1(2) keys_def no_nodes_def)
  from rb_insert_ok [OF s2(1), of 3] show ?thesis by (auto simp: queue_insert_def s2(2) keys_def no_nodes_def)
qed

lemma sample_facts:
  "rb_queue tree [1, 2, 3] \<Longrightarrow> rq_live (sample_sched tree) c [1, 2, 3]"
  "good_current (sample_sched tree) ((sample_task 1 2 TASK_RUNNING)\<lparr> t_children := [2, 4] \<rparr>)"
  "filter (runnable (sample_sched tree)) [1, 2, 3] = [2, 3]"
  by (simp_all add: rq_live_def good_current_def runnable_def sample_sched_def sample_task_def task_zero_def)

section \<open>Properties\<close>

text \<open>C25: When some other task of the processor's tree can run, \<open>schedule\<close> switches to the first such task in the
  order of the tree; a running task that is switched out becomes ready, the chosen one runs, and
  \<open>min_vruntime\<close> does not decrease.\<close>

theorem schedule_picks_first:
  assumes "rq_live s cpu ys" "good_current s cur" "filter (runnable s) ys = a # as"
  shows "\<exists>s'. schedule cpu s = Some (s', Switches) \<and> current s' = a \<and> map_option t_state (tasks s' a) = Some TASK_RUNNING \<and>
    (t_state cur = TASK_RUNNING \<longrightarrow> map_option t_state (tasks s' (current s)) = Some TASK_READY) \<and>
    min_vruntime s \<le> min_vruntime s' \<and> (\<forall>b. b \<noteq> a \<and> b \<noteq> current s \<longrightarrow> tasks s' b = tasks s b)"
proof -
  have "runnable s a" using assms(3) by (metis Cons_eq_filterD)
  then obtain t where t: "tasks s a = Some t" "a \<noteq> current s" by (auto simp: runnable_def split: option.splits)
  from switch_to_ok [OF assms(2) t] schedule_switch [OF assms] show ?thesis using t(2) by auto
qed

theorem schedule_picks_first_witness:
  "\<exists>s s'. rq_live s 0 [1, 2, 3] \<and> filter (runnable s) [1, 2, 3] = [2, 3] \<and> schedule 0 s = Some (s', Switches) \<and> current s' = 2"
proof -
  obtain tree where t: "rb_queue tree [1, 2, 3]" using three_nodes by blast
  from schedule_picks_first [OF sample_facts(1) [OF t] sample_facts(2,3), of 0] sample_facts(1) [OF t, of 0] sample_facts(3) [of tree]
  show ?thesis by blast
qed

text \<open>C39: The order of the tree is the virtual time at insertion; \<open>yield\<close> and \<open>schedule\<close> add to a task's virtual time
  but never move its node. So two runnable tasks that are first in the tree and yield hand the processor
  to each other for ever, however much virtual time they use, and no other task of the queue runs.\<close>

theorem yield_starves:
  assumes "ping_pong s cpu a b zs"
  shows "\<exists>s'. yields n cpu s = Some s' \<and> current s' \<in> {a, b} \<and> (\<forall>c \<in> set zs. tasks s' c = tasks s c)"
  using assms
proof (induction n arbitrary: s)
  case 0
  then show ?case by (simp add: ping_pong_def)
next
  case (Suc n)
  obtain s1 r where s1: "yield cpu s = Some (s1, r)" "ping_pong s1 cpu a b zs" "\<forall>c \<in> set zs. tasks s1 c = tasks s c"
    using ping_pong_step [OF Suc.prems] by blast
  from Suc.IH [OF s1(2)] s1 show ?case by auto
qed

theorem yield_starves_witness:
  "\<exists>s s'. ping_pong s 0 1 2 [3] \<and> yields 1000 0 s = Some s' \<and> current s' \<in> {1, 2} \<and> tasks s' 3 = tasks s 3"
proof -
  obtain tree where t: "rb_queue tree [1, 2, 3]" using three_nodes by blast
  have "ping_pong (sample_sched tree) 0 1 2 [3]"
    using sample_facts(1) [OF t, of 0] by (simp add: ping_pong_def can_run_def sample_sched_def sample_task_def task_zero_def)
  from yield_starves [OF this, of 1000] this show ?thesis by auto
qed

text \<open>A task whose time slice runs out is charged nothing: when the timer tick exhausts the slice and the task
  is preempted at the next check, its virtual time is what it was before, because the slice is refilled
  before it is measured and the task is no longer in the running state when \<open>schedule\<close> looks at it.\<close>

theorem preempted_not_charged:
  assumes "good_current s cur" "t_state cur = TASK_RUNNING" "t_preempt_count cur = 0" "t_time_slice cur \<le> 1"
    and "schedule_tick s = Some s1" "check_resched cpu s1 = Some (s2, r)"
  shows "\<exists>t. tasks s2 (current s) = Some t \<and> t_vruntime t = t_vruntime cur"
proof -
  let ?f = "\<lambda>t. t\<lparr> t_need_resched := True, t_time_slice := full_slice t \<rparr>"
  have c: "current s \<noteq> 0" "tasks s (current s) = Some cur" using assms(1) by (simp_all add: good_current_def)
  have s1: "s1 = (upd_task (current s) ?f s)\<lparr> resched_flag := True \<rparr>"
    using assms(2-5) c by (auto simp: schedule_tick_def Let_def split: if_splits)
  let ?s = "upd_task (current s) (\<lambda>t. t\<lparr> t_need_resched := False, t_state := TASK_READY \<rparr>) (s1\<lparr> resched_flag := False \<rparr>)"
  have cr: "schedule cpu ?s = Some (s2, r)" using assms(6) c s1 by (simp add: check_resched_def)
  have "tasks ?s (current ?s) = Some ((?f cur)\<lparr> t_need_resched := False, t_state := TASK_READY \<rparr>)" using c s1 by simp
  from schedule_vruntime [OF cr this, of "current s"] show ?thesis using c s1 by (auto simp: map_option_eq_Some)
qed

theorem preempted_not_charged_witness:
  "\<exists>s s1 s2 r t. schedule_tick s = Some s1 \<and> check_resched 0 s1 = Some (s2, r) \<and> current s2 \<noteq> current s \<and> tasks s2 (current s) = Some t \<and> t_vruntime t = 0"
proof -
  obtain tree where t: "rb_queue tree [1, 2, 3]" using three_nodes by blast
  let ?cur = "(sample_task 1 2 TASK_RUNNING)\<lparr> t_children := [2, 4] \<rparr>" and ?s = "sample_sched tree"
  let ?f = "\<lambda>t. t\<lparr> t_need_resched := True, t_time_slice := full_slice t \<rparr>"
  let ?s1 = "(upd_task 1 ?f ?s)\<lparr> resched_flag := True \<rparr>"
  let ?s2 = "upd_task 1 (\<lambda>t. t\<lparr> t_need_resched := False, t_state := TASK_READY \<rparr>) (?s1\<lparr> resched_flag := False \<rparr>)"
  have s1: "schedule_tick ?s = Some ?s1" by (simp add: schedule_tick_def sample_sched_def sample_task_def task_zero_def)
  have c: "check_resched 0 ?s1 = schedule 0 ?s2" by (simp add: check_resched_def sample_sched_def)
  have l: "rq_live ?s2 0 [1, 2, 3]" using sample_facts(1) [OF t, of 0] by (simp add: rq_live_def upd_task_def)
  have "filter (runnable ?s2) [1, 2, 3] = [2, 3]" by (simp add: runnable_def upd_task_def sample_sched_def sample_task_def task_zero_def)
  moreover have g: "good_current ?s2 ((?f ?cur)\<lparr> t_need_resched := False, t_state := TASK_READY \<rparr>)"
    by (simp add: good_current_def upd_task_def sample_sched_def sample_task_def task_zero_def)
  ultimately have "schedule 0 ?s2 = switch_to 2 ?s2" using schedule_switch [OF l g] by simp
  moreover have "tasks ?s2 2 = Some (sample_task 2 3 TASK_READY)" "2 \<noteq> current ?s2" by (simp_all add: sample_sched_def)
  moreover from switch_to_ok [OF g this] obtain s2 where "switch_to 2 ?s2 = Some (s2, Switches)" "current s2 = 2" by blast
  ultimately have s2: "check_resched 0 ?s1 = Some (s2, Switches)" "current s2 = 2" unfolding c by simp_all
  have cur: "current ?s = 1" "t_state ?cur = TASK_RUNNING" "t_preempt_count ?cur = 0" "t_time_slice ?cur \<le> 1" "t_vruntime ?cur = 0"
    by (simp_all add: sample_sched_def sample_task_def task_zero_def)
  obtain x where "tasks s2 1 = Some x" "t_vruntime x = 0"
    using preempted_not_charged [OF sample_facts(2) cur(2-4) s1 s2(1)] unfolding cur(1,5) by blast
  then show ?thesis using s1 s2 cur(1) by (intro exI [of _ ?s] exI [of _ ?s1] exI [of _ s2] exI [of _ Switches] exI [of _ x]) simp
qed





end
