(* ===== verification/SignalProps.thy ===== *)
theory SignalProps
  imports Signal SchedProps
begin

text \<open>
  Properties of signals and of the system call entry: the frame a handler runs on and the return from it,
  what a forged frame can do, that SIGKILL cannot be caught, and the layout of the trap frame.
\<close>

section \<open>Words and bytes\<close>

lemma length_bytes_of [simp]: "length (bytes_of n w) = n"
  by (induction n arbitrary: w) simp_all

lemma word_of_bytes: "word_of (bytes_of n w) = take_bit (8 * n) w"
proof (induction n arbitrary: w)
  case (Suc n)
  have "ucast (ucast w :: u8) OR push_bit 8 (take_bit (8 * n) (drop_bit 8 w)) = take_bit (8 + 8 * n) w"
    by (rule bit_word_eqI) (auto simp: bit_simps)
  then show ?case using Suc by simp
qed simp

lemma length_enc [simp]: "length (enc ws) = 8 * length ws"
  by (induction ws) (simp_all add: enc_def)

lemma dec_append: "length bs = 8 \<Longrightarrow> dec (bs @ cs) = word_of bs # dec cs"
  by (cases bs) simp_all

lemma enc_Cons: "enc (w # ws) = bytes_of 8 w @ enc ws"
  by (simp add: enc_def)

lemma dec_enc: "dec (enc ws) = ws"
proof (induction ws)
  case (Cons w ws)
  have "take_bit 64 w = w" by (rule bit_word_eqI) (simp add: bit_take_bit_iff)
  then have "word_of (bytes_of 8 w) = w" using word_of_bytes [of 8 w] by simp
  then show ?case using Cons dec_append [of "bytes_of 8 w" "enc ws"] by (simp only: enc_Cons length_bytes_of)
qed (simp add: enc_def)

lemma length_read [simp]: "length (read_bytes m a n) = n"
  by (simp add: read_bytes_def)

lemma read_append: "read_bytes m a (n + k) = read_bytes m a n @ read_bytes m (a + of_nat n) k"
  by (rule nth_equalityI) (auto simp: read_bytes_def nth_append add.assoc of_nat_diff)

lemma read_cong: "(\<And>i. i < n \<Longrightarrow> m (a + of_nat i) = m' (a + of_nat i)) \<Longrightarrow> read_bytes m a n = read_bytes m' a n"
  by (simp add: read_bytes_def)

lemma unat_of_nat_small: "n < 2 ^ 64 \<Longrightarrow> unat (of_nat n :: u64) = n"
  by (simp add: unat_of_nat take_bit_nat_eq_self)

lemma read_write:
  assumes "length bs \<le> 2 ^ 64"
  shows "read_bytes (write_bytes m a bs) a (length bs) = bs"
  using assms by (intro nth_equalityI) (simp_all add: read_bytes_def write_bytes_def unat_of_nat_small)

lemma read_write_apart:
  assumes "n \<le> unat (a - b)" "unat (a - b) + length bs \<le> 2 ^ 64"
  shows "read_bytes (write_bytes m a bs) b n = read_bytes m b n"
proof (rule read_cong)
  fix i assume i: "i < n"
  let ?d = "a - b"
  have ui: "unat (of_nat i :: u64) = i" by (rule unat_of_nat_small) (use i assms in simp)
  have "b + of_nat i - a = of_nat i - ?d" by simp
  then have "unat (b + of_nat i - a) = i + 2 ^ 64 - unat ?d" using i assms(1) ui by (simp only: unat_sub_if' ui) simp
  then have "length bs \<le> unat (b + of_nat i - a)" using assms(2) by linarith
  then show "write_bytes m a bs (b + of_nat i) = m (b + of_nat i)" by (simp add: write_bytes_def)
qed

section \<open>Pages of the user stack\<close>

lemma unat_page: "unat ((x :: u64) AND NOT 0xFFF) = unat x div 4096 * 4096"
proof -
  have "x AND NOT 0xFFF = x - take_bit 12 x"
  proof -
    have "x AND NOT (mask 12) = push_bit 12 (drop_bit 12 x)" by (rule bit_word_eqI) (auto simp: bit_simps)
    then show ?thesis using bits_ident [of 12 x] by (simp add: mask_eq_exp_minus_1 algebra_simps)
  qed
  moreover have t: "unat (take_bit 12 x) = unat x mod 4096" by (simp add: take_bit_eq_mod unat_mod)
  ultimately have "unat (x AND NOT 0xFFF) = unat x - unat x mod 4096" by (simp add: unat_sub word_le_nat_alt)
  then show ?thesis by (simp add: minus_mod_eq_div_mult)
qed

lemma mapped_later:
  assumes "user_pages_mapped P a l = Some True" "a < a + l" "k < 4096" "unat a + k + 4096 < 2 ^ 64"
  shows "user_pages_mapped P (a + of_nat k) (l - of_nat k) = Some True"
proof -
  let ?p = "a AND NOT 0xFFF" and ?q = "(a + of_nat k) AND NOT 0xFFF"
  have uk: "unat (a + of_nat k) = unat a + k" using assms(3,4) by (simp add: unat_plus_if' unat_of_nat_small)
  have up: "unat ?p = unat a div 4096 * 4096" and uq: "unat ?q = (unat a + k) div 4096 * 4096"
    using unat_page [of a] unat_page [of "a + of_nat k"] uk by simp_all
  have "(unat a + k) div 4096 = unat a div 4096 \<or> (unat a + k) div 4096 = unat a div 4096 + 1" using assms(3) by linarith
  then have "unat ?q = unat ?p \<or> unat ?q = unat ?p + 4096" unfolding up uq by auto
  moreover have "unat (?p + 0x1000) = unat ?p + 4096" using up assms(4) by (simp add: unat_plus_if')
  ultimately have pq: "?q = ?p \<or> ?q = ?p + 0x1000" by (metis word_unat_eq_iff)
  have "?p < a + l" using assms(2) up by (simp add: word_less_nat_alt)
  then have "pages_mapped_loop P (?p + 0x1000) (a + l) = Some True"
    using assms(1) by (subst (asm) user_pages_mapped_def, subst (asm) pages_mapped_loop.simps) (simp split: if_splits)
  then show ?thesis using pq assms(1) by (auto simp: user_pages_mapped_def)
qed

section \<open>The state of the current task\<close>

lemma set_sig_simps [simp]:
  "current_tf (set_sig g st) = current_tf st" "umem (set_sig g st) = umem st" "present (set_sig g st) = present st"
  "current (sch (set_sig g st)) = current (sch st)" "is_fork_child (set_sig g st) = is_fork_child st"
  "stack_ok (set_sig g st) r = stack_ok st r" "set_sig g (set_sig g' st) = set_sig g st"
  "set_sig g (st\<lparr> current_tf := x \<rparr>) = (set_sig g st)\<lparr> current_tf := x \<rparr>" "set_sig g (st\<lparr> umem := m \<rparr>) = (set_sig g st)\<lparr> umem := m \<rparr>"
  "cur_sig st = Some g0 \<Longrightarrow> cur_sig (set_sig g st) = Some (Some g)"
  by (auto simp: set_sig_def stack_ok_def Let_def upd_task_def cur_sig_def option.map_comp comp_def)

lemma cur_sig_simps [simp]:
  "cur_sig (st\<lparr> current_tf := x \<rparr>) = cur_sig st" "cur_sig (st\<lparr> umem := m \<rparr>) = cur_sig st"
  by (simp_all add: cur_sig_def)

lemma stack_ok_tf [simp]: "stack_ok (st\<lparr> current_tf := x \<rparr>) r = stack_ok st r"
  by (simp add: stack_ok_def Let_def)

section \<open>Delivery\<close>

definition deliverable :: "signal_state \<Rightarrow> nat \<Rightarrow> bool" where
  "deliverable g s \<longleftrightarrow> pending g AND sigbit (int s) \<noteq> 0 \<and> blocked g AND sigbit (int s) = 0"

definition first_signal :: "signal_state \<Rightarrow> nat \<Rightarrow> bool" where
  "first_signal g s \<longleftrightarrow> 1 \<le> s \<and> s < nat NSIG \<and> deliverable g s \<and> (\<forall>i. 1 \<le> i \<and> i < s \<longrightarrow> \<not> deliverable g i)"

lemma deliver_skip: "\<forall>s \<in> set xs. \<not> deliverable g s \<Longrightarrow> deliver (xs @ ys) cpu mem_ok tf g st = deliver ys cpu mem_ok tf g st"
  by (induction xs) (auto simp: deliverable_def)

definition taken :: "nat \<Rightarrow> signal_state \<Rightarrow> signal_state" where
  "taken s g = g\<lparr> pending := pending g AND NOT (sigbit (int s)) \<rparr>"

text \<open>\<open>check_signals\<close> acts on the deliverable signal with the smallest number.\<close>

lemma check_signals_first:
  assumes "current (sch st) \<noteq> 0" "cur_sig st = Some (Some g)" "current_tf st = Some tf" "first_signal g s"
  shows "check_signals cpu mem_ok st = deliver (s # [Suc s..<nat NSIG]) cpu mem_ok tf g st"
proof -
  have "pending g \<noteq> 0" using assms(4) by (auto simp: first_signal_def deliverable_def)
  then have "check_signals cpu mem_ok st = deliver [1..<nat NSIG] cpu mem_ok tf g st"
    using assms(1-3) by (simp add: check_signals_def)
  also have "[1..<nat NSIG] = [1..<s] @ s # [Suc s..<nat NSIG]"
    using assms(4) upt_add_eq_append [of 1 s "nat NSIG - s"] upt_conv_Cons [of s "nat NSIG"] by (simp add: first_signal_def)
  also have "deliver \<dots> cpu mem_ok tf g st = deliver (s # [Suc s..<nat NSIG]) cpu mem_ok tf g st"
    by (rule deliver_skip) (use assms(4) in \<open>auto simp: first_signal_def\<close>)
  finally show ?thesis .
qed

lemma check_signals_handler:
  assumes "current (sch st) \<noteq> 0" "cur_sig st = Some (Some g)" "current_tf st = Some tf" "first_signal g s"
    "sa_handler (actions g s) \<notin> {SIG_DFL, SIG_IGN}" "stack_ok st (tf_rsp tf) = Some True"
  shows "check_signals cpu mem_ok st = Some (push_sigframe s (sa_handler (actions g s)) tf (taken s g) (set_sig (taken s g) st), Returns)"
  using assms(4-6) unfolding check_signals_first [OF assms(1-4)]
  by (simp add: first_signal_def deliverable_def Let_def taken_def)

section \<open>The frame\<close>

lemma sizes: "frame_size = 168" "length trampoline = 16" "length (saved_words s tf) = 17"
  by (simp_all add: frame_size_def SIGFRAME_SIZE_def TRAMPOLINE_SIZE_def trampoline_def saved_words_def)

definition frame_mem :: "nat \<Rightarrow> trapframe \<Rightarrow> (u64 \<Rightarrow> u8) \<Rightarrow> u64 \<Rightarrow> u8" where
  "frame_mem s tf m = write_bytes (write_bytes (write_bytes m (tf_rsp tf - 160) trampoline) (tf_rsp tf - 168) (bytes_of 8 (tf_rsp tf - 160)))
     (tf_rsp tf - 136) (enc (saved_words s tf))"

lemma push_sigframe_eq:
  "push_sigframe s h tf g st = set_sig (g\<lparr> saved_rsp := tf_rsp tf, saved_rip := tf_rip tf, blocked := blocked g OR sigbit (int s) \<rparr>)
     (st\<lparr> umem := frame_mem s tf (umem st), current_tf := Some (tf\<lparr> tf_rip := h, tf_rsp := tf_rsp tf - 168, tf_rdi := of_nat s \<rparr>) \<rparr>)"
  by (simp add: push_sigframe_def frame_mem_def sizes(1) TRAMPOLINE_SIZE_def Let_def)

lemma frame_read:
  "\<exists>w. dec (read_bytes (frame_mem s tf m) (tf_rsp tf - 144) 144) = w # saved_words s tf"
proof -
  let ?m = "frame_mem s tf m"
  have "read_bytes ?m (tf_rsp tf - 136) 136 = enc (saved_words s tf)"
    unfolding frame_mem_def using read_write [of "enc (saved_words s tf)"] by (simp add: sizes)
  moreover have "tf_rsp tf - 144 + of_nat 8 = tf_rsp tf - 136" by simp
  ultimately have "read_bytes ?m (tf_rsp tf - 144) (8 + 136) = read_bytes ?m (tf_rsp tf - 144) 8 @ enc (saved_words s tf)"
    by (simp only: read_append)
  then show ?thesis using dec_append [of "read_bytes ?m (tf_rsp tf - 144) 8"] by (simp add: dec_enc)
qed

lemma frame_return:
  "read_bytes (frame_mem s tf m) (tf_rsp tf - 168) 8 = bytes_of 8 (tf_rsp tf - 160)"
  "read_bytes (frame_mem s tf m) (tf_rsp tf - 160) 16 = trampoline"
proof -
  let ?m1 = "write_bytes m (tf_rsp tf - 160) trampoline" and ?b = "bytes_of 8 (tf_rsp tf - 160)"
  let ?m2 = "write_bytes ?m1 (tf_rsp tf - 168) ?b"
  have "read_bytes (frame_mem s tf m) (tf_rsp tf - 168) 8 = read_bytes ?m2 (tf_rsp tf - 168) 8"
    unfolding frame_mem_def by (rule read_write_apart) (simp_all add: sizes)
  then show "read_bytes (frame_mem s tf m) (tf_rsp tf - 168) 8 = ?b" using read_write [of ?b ?m1 "tf_rsp tf - 168"] by simp
  have "read_bytes (frame_mem s tf m) (tf_rsp tf - 160) 16 = read_bytes ?m2 (tf_rsp tf - 160) 16"
    unfolding frame_mem_def by (rule read_write_apart) (simp_all add: sizes)
  also have "\<dots> = read_bytes ?m1 (tf_rsp tf - 160) 16" by (rule read_write_apart) simp_all
  also have "\<dots> = trampoline" using read_write [of trampoline m "tf_rsp tf - 160"] by (simp add: sizes)
  finally show "read_bytes (frame_mem s tf m) (tf_rsp tf - 160) 16 = trampoline" .
qed

text \<open>The checks before delivery make the later copy of the frame succeed.\<close>

lemma stack_ok_copy:
  assumes "stack_ok st r = Some True"
  shows "copy_from_user (present st) m (r - 144) 144 = Some (Some (read_bytes m (r - 144) 144))"
proof -
  have c: "\<not> r < 168 + 0x1000" "user_addr_range_ok (r - 168) 168" "user_pages_mapped (present st) (r - 168) 168 = Some True"
    using assms by (auto simp: stack_ok_def sizes Let_def split: if_splits)
  have lo: "4264 \<le> unat r" using c(1) by (simp add: word_less_nat_alt)
  have hi: "r \<le> USER_ADDR_MAX" using c(2) by (auto simp: user_addr_range_ok_def)
  then have hn: "unat r < 2 ^ 47" by (simp add: USER_ADDR_MAX_def word_le_nat_alt)
  have u: "unat (r - 168) = unat r - 168" "unat (r - 144) = unat r - 144" using lo by (simp_all add: unat_sub_if')
  have "r - 168 < r - 168 + 168" using u(1) lo by (simp add: word_less_nat_alt)
  moreover have "unat (r - 168) + 24 + 4096 < 2 ^ 64" using hn lo unfolding u(1) by simp
  ultimately have "user_pages_mapped (present st) (r - 168 + of_nat 24) (168 - of_nat 24) = Some True"
    by (intro mapped_later [OF c(3)]) simp_all
  moreover have "user_addr_range_ok (r - 144) 144" using hi lo u by (simp add: user_addr_range_ok_def word_less_nat_alt word_le_nat_alt)
  moreover have "r - 144 \<noteq> 0" using lo by auto
  ultimately show ?thesis by (simp add: copy_from_user_def)
qed

section \<open>SIGKILL\<close>

definition sig_ok :: "signal_state \<Rightarrow> bool" where
  "sig_ok g \<longleftrightarrow> sa_handler (actions g (nat SIGKILL)) = SIG_DFL \<and> blocked g AND sigbit SIGKILL = 0"

definition kill_inv :: "sched \<Rightarrow> bool" where
  "kill_inv s \<longleftrightarrow> (\<forall>p t g. tasks s p = Some t \<longrightarrow> t_sig t = Some g \<longrightarrow> sig_ok g)"

lemma kill_inv_tasks: "tasks s' = tasks s \<Longrightarrow> kill_inv s' = kill_inv s"
  by (simp add: kill_inv_def)

lemma kill_inv_upd: "(\<And>t. t_sig (f t) = t_sig t) \<Longrightarrow> kill_inv s \<Longrightarrow> kill_inv (upd_task p f s)"
  by (auto simp: kill_inv_def upd_task_def)

lemma kill_inv_frames [simp]:
  "kill_inv (s\<lparr> current := c \<rparr>) = kill_inv s" "kill_inv (s\<lparr> min_vruntime := v \<rparr>) = kill_inv s" "kill_inv (s\<lparr> ftab := f \<rparr>) = kill_inv s"
  "kill_inv (upd_rq n q s) = kill_inv s"
  by (simp_all add: kill_inv_def)

lemma sig_ok_simps [simp]:
  "sig_ok (g\<lparr> pending := x \<rparr>) = sig_ok g" "sig_ok (g\<lparr> saved_rip := r \<rparr>) = sig_ok g" "sig_ok (g\<lparr> saved_rsp := r \<rparr>) = sig_ok g"
  by (simp_all add: sig_ok_def)

lemma sig_ok_zero: "sig_ok sig_zero"
  by (simp add: sig_ok_def sig_zero_def)

lemma kill_inv_switch: "kill_inv s \<Longrightarrow> switch_to a s = Some (s', r) \<Longrightarrow> kill_inv s'"
  by (auto simp: switch_to_def Let_def intro!: kill_inv_upd split: bind_splits if_splits)

lemma kill_inv_schedule: "kill_inv s \<Longrightarrow> schedule cpu s = Some (s', r) \<Longrightarrow> kill_inv s'"
  by (auto simp: schedule_def intro: kill_inv_switch split: bind_splits if_splits)

lemma sig_ok_alloc: "signal_alloc m = Some g \<Longrightarrow> sig_ok g"
  by (auto simp: signal_alloc_def sig_ok_zero split: if_splits)

lemma kill_inv_kill:
  assumes "kill_inv s" "do_sys_kill pid sig mem_ok s = Some (s', r)"
  shows "kill_inv s'"
  using assms
  by (auto simp: do_sys_kill_def Let_def kill_inv_def upd_task_def dest!: sig_ok_alloc split: bind_splits if_splits option.splits)

lemma kill_inv_reparent: "kill_inv s \<Longrightarrow> kill_inv (reparent_loop cs i s)"
proof (induction cs arbitrary: s)
  case (Cons c cs)
  then show ?case unfolding reparent_loop.simps by (intro Cons.IH kill_inv_upd) (auto intro: kill_inv_upd)
qed simp

lemma kill_inv_exit:
  assumes "kill_inv s" "do_exit_current code cpu mem_ok s = Some (s', r)"
  shows "kill_inv s'"
proof -
  have rp: "kill_inv s2" if "kill_inv s1" "reparent_children_to_init p s1 = Some s2" for p s1 s2
    using that by (auto simp: reparent_children_to_init_def intro!: kill_inv_upd kill_inv_reparent split: bind_splits if_splits)
  have ch: "kill_inv s2" if "kill_inv s1" "signal_child_event p mem_ok s1 = Some s2" for p s1 s2
    using that by (auto simp: signal_child_event_def intro: kill_inv_kill split: bind_splits if_splits)
  show ?thesis
    using assms
    by (auto simp: do_exit_current_def Let_def dest!: rp [rotated] ch [rotated] kill_inv_schedule [rotated]
      intro!: kill_inv_upd split: bind_splits if_splits)
qed

definition kill_ok :: "trap_state \<Rightarrow> bool" where
  "kill_ok st \<longleftrightarrow> kill_inv (sch st)"

lemma kill_ok_simps [simp]:
  "kill_ok (st\<lparr> current_tf := x \<rparr>) = kill_ok st" "kill_ok (st\<lparr> umem := m \<rparr>) = kill_ok st"
  by (simp_all add: kill_ok_def)

lemma kill_ok_set: "kill_ok st \<Longrightarrow> sig_ok g \<Longrightarrow> kill_ok (set_sig g st)"
  by (auto simp: kill_ok_def set_sig_def kill_inv_def upd_task_def)

lemma kill_ok_cur: "kill_ok st \<Longrightarrow> cur_sig st = Some (Some g) \<Longrightarrow> sig_ok g"
  by (auto simp: kill_ok_def cur_sig_def kill_inv_def)

lemma kill_ok_default: "kill_ok st \<Longrightarrow> do_signal_default s cpu mem_ok st = Some (st', r) \<Longrightarrow> kill_ok st'"
  by (auto simp: do_signal_default_def kill_ok_def Let_def intro: kill_inv_exit split: if_splits)

lemma sigbit_and: "i < 32 \<Longrightarrow> (x :: u32) AND sigbit (int i) = 0 \<longleftrightarrow> \<not> bit x i"
  by (simp add: sigbit_def push_bit_of_1 and_exp_eq_0_iff_not_bit)

lemma bit_sigbit: "bit (sigbit (int i)) j \<longleftrightarrow> i = j \<and> j < 32"
  by (auto simp: sigbit_def bit_simps)

lemma kill_ok_push:
  assumes "kill_ok st" "sig_ok g" "s < 32" "sa_handler (actions g s) \<noteq> SIG_DFL"
  shows "kill_ok (push_sigframe s h tf g st)"
proof -
  have "s \<noteq> 9" using assms(2,4) by (auto simp: sig_ok_def SIGKILL_def)
  then have "sig_ok (g\<lparr> saved_rsp := r, saved_rip := i, blocked := blocked g OR sigbit (int s) \<rparr>)" for r i
    using assms(2) sigbit_and [of 9] by (auto simp: sig_ok_def SIGKILL_def bit_or_iff bit_sigbit)
  then show ?thesis unfolding push_sigframe_eq using assms(1) by (intro kill_ok_set) simp_all
qed

lemma kill_ok_deliver:
  "kill_ok st \<Longrightarrow> sig_ok g \<Longrightarrow> \<forall>s \<in> set ss. s < 32 \<Longrightarrow> deliver ss cpu mem_ok tf g st = Some (st', r) \<Longrightarrow> kill_ok st'"
proof (induction ss arbitrary: g st)
  case (Cons s ss)
  let ?g = "g\<lparr> pending := pending g AND NOT (sigbit (int s)) \<rparr>"
  have g: "kill_ok (set_sig ?g st)" "sig_ok ?g" using Cons.prems by (auto intro: kill_ok_set)
  show ?case using Cons.prems g Cons.IH [OF g] Cons.IH [OF Cons.prems(1,2)]
    by (auto simp: Let_def split: if_splits bind_splits intro: kill_ok_default kill_ok_push)
qed simp

lemma kill_ok_check: "kill_ok st \<Longrightarrow> check_signals cpu mem_ok st = Some (st', r) \<Longrightarrow> kill_ok st'"
  using kill_ok_deliver [of st _ "[1..<nat NSIG]" cpu mem_ok _ st' r] kill_ok_cur [of st]
  by (auto simp: check_signals_def NSIG_def split: if_splits bind_splits option.splits)

lemma kill_ok_sigaction:
  assumes "kill_ok st" "do_sys_sigaction signo act oldact mem_ok st = Some (st', r)"
  shows "kill_ok st'"
proof -
  have g: "sig_ok g" if "cur_sig st = Some g0" "(case g0 of Some g \<Rightarrow> Some g | None \<Rightarrow> signal_alloc mem_ok) = Some g" for g0 g
    using that kill_ok_cur [OF assms(1)] sig_ok_alloc by (cases g0) auto
  have a: "sig_ok (g\<lparr> actions := (actions g)(nat signo := x) \<rparr>)" if "sig_ok g" "1 \<le> signo" "signo \<noteq> SIGKILL" for g x
    using that by (auto simp: sig_ok_def SIGKILL_def nat_eq_iff)
  show ?thesis
    using assms
    by (auto simp: do_sys_sigaction_def Let_def split: if_splits bind_splits option.splits prod.splits
      intro!: kill_ok_set a dest: kill_ok_cur sig_ok_alloc)
qed

lemma kill_ok_sigreturn:
  assumes "kill_ok st" "do_sys_sigreturn cpu mem_ok st = Some (st', r)"
  shows "kill_ok st'"
proof (cases "current_tf st")
  case None
  then show ?thesis using assms by (auto simp: do_sys_sigreturn_def kill_ok_def intro: kill_inv_exit)
next
  case (Some tf)
  have "sig_ok (g\<lparr> saved_rip := 0, saved_rsp := 0, blocked := 0 \<rparr>)" if "sig_ok g" for g using that by (simp add: sig_ok_def)
  then show ?thesis using assms Some kill_ok_cur [OF assms(1)]
    by (auto simp: do_sys_sigreturn_def intro!: kill_ok_set split: if_splits bind_splits option.splits)
qed

text \<open>The operations that touch signal state, by the current task or another one, and switching tasks.\<close>

inductive sig_step :: "trap_state \<Rightarrow> trap_state \<Rightarrow> bool" where
  kill: "do_sys_kill pid sig mem_ok (sch st) = Some (s', r) \<Longrightarrow> sig_step st (st\<lparr> sch := s' \<rparr>)"
| action: "do_sys_sigaction signo act oldact mem_ok st = Some (st', r) \<Longrightarrow> sig_step st st'"
| sigreturn: "do_sys_sigreturn cpu mem_ok st = Some (st', oc) \<Longrightarrow> sig_step st st'"
| check: "check_signals cpu mem_ok st = Some (st', oc) \<Longrightarrow> sig_step st st'"
| sched: "schedule cpu (sch st) = Some (s', oc) \<Longrightarrow> sig_step st (st\<lparr> sch := s' \<rparr>)"
| user: "sig_step st (st\<lparr> umem := m, current_tf := Some tf \<rparr>)"

lemma sig_step_ok: "sig_step st st' \<Longrightarrow> kill_ok st \<Longrightarrow> kill_ok st'"
proof (induction rule: sig_step.induct)
  case (kill pid sig mem_ok st s' r)
  then show ?case using kill_inv_kill [of "sch st"] by (simp add: kill_ok_def)
next
  case (sched cpu st s' oc)
  then show ?case using kill_inv_schedule [of "sch st"] by (simp add: kill_ok_def)
qed (auto intro: kill_ok_sigaction kill_ok_sigreturn kill_ok_check)

lemma sig_steps_ok: "sig_step\<^sup>*\<^sup>* st st' \<Longrightarrow> kill_ok st \<Longrightarrow> kill_ok st'"
  by (induction rule: rtranclp_induct) (auto intro: sig_step_ok)

section \<open>A sample state\<close>

definition sample_sig :: signal_state where
  "sample_sig = sig_zero\<lparr> actions := (actions sig_zero)(2 := \<lparr> sa_handler = 0x401000, sa_flags = 0, sa_mask = 0 \<rparr>), pending := 4 \<rparr>"

definition sample_tf :: trapframe where
  "sample_tf = \<lparr> tf_r15 = 15, tf_r14 = 14, tf_r13 = 13, tf_r12 = 12, tf_r11 = 0x202, tf_r10 = 10, tf_r9 = 9, tf_r8 = 8, tf_rsi = 7,
     tf_rdi = 6, tf_rdx = 5, tf_rcx = 4, tf_rax = 3, tf_rip = 0x400500, tf_rsp = 0x7FFFFF00 \<rparr>"

definition sample_trap :: "signal_state \<Rightarrow> trap_state" where
  "sample_trap g = \<lparr> sch = (sample_sched no_nodes)\<lparr> tasks := [1 \<mapsto> (sample_task 1 1 TASK_RUNNING)\<lparr> t_sig := Some g \<rparr>] \<rparr>,
     current_tf = Some sample_tf, umem = (\<lambda>_. 0), present = (\<lambda>_. True), is_fork_child = (\<lambda>_. False) \<rparr>"

lemma sample_trap_simps [simp]:
  "current (sch (sample_trap g)) = 1" "cur_sig (sample_trap g) = Some (Some g)" "current_tf (sample_trap g) = Some sample_tf"
  "present (sample_trap g) = (\<lambda>_. True)" "kill_ok (sample_trap g) = sig_ok g"
  by (simp_all add: sample_trap_def sample_sched_def cur_sig_def kill_ok_def kill_inv_def)

lemma sample_sig_facts: "first_signal sample_sig 2" "sig_ok sample_sig"
proof -
  have "\<not> deliverable sample_sig i" if "1 \<le> i" "i < 2" for i
  proof -
    have "i = 1" using that by simp
    then show ?thesis by (simp add: deliverable_def sample_sig_def sigbit_def)
  qed
  then show "first_signal sample_sig 2" by (auto simp: first_signal_def deliverable_def sample_sig_def sig_zero_def sigbit_def NSIG_def)
  show "sig_ok sample_sig" using sig_ok_zero by (simp add: sig_ok_def sample_sig_def SIGKILL_def)
qed

lemma sample_stack: "stack_ok (sample_trap g) (tf_rsp sample_tf) = Some True"
proof -
  have "pages_mapped_loop (\<lambda>_. True) 0x7FFFF000 0x7FFFFF00 = Some True" by (subst pages_mapped_loop.simps, simp, subst pages_mapped_loop.simps, simp)
  then show ?thesis by (simp add: stack_ok_def sizes sample_tf_def user_addr_range_ok_def USER_ADDR_MAX_def user_pages_mapped_def)
qed

section \<open>Properties\<close>



text \<open>The mask applied to the flags that \<open>sigreturn\<close> reads from user memory removes none of the flags its
  comment names: the interrupt, trap, nested task and alignment flags and both bits of the I/O privilege
  level are what the user wrote into the frame.\<close>

theorem sigreturn_keeps_privileged_flags:
  assumes "current_tf st = Some tf" "cur_sig st = Some (Some g)" "saved_rip g \<noteq> 0"
    and "copy_from_user (present st) (umem st) (saved_rsp g - 144) 144 = Some (Some bs)" "0 < sf_signo (sigframe_of (dec bs))" "sf_signo (sigframe_of (dec bs)) < 32"
  shows "\<exists>st' tf'. do_sys_sigreturn cpu mem_ok st = Some (st', Returns) \<and> current_tf st' = Some tf' \<and>
    (\<forall>k \<in> {8, 9, 12, 13, 14, 18}. bit (tf_r11 tf') k = bit (sf_rflags (sigframe_of (dec bs))) k)"
proof -
  let ?v = "sf_rflags (sigframe_of (dec bs))"
  let ?tf = "restore_context (Some bs) g tf"
  have r11: "tf_r11 ?tf = ?v AND 0x3F7FD7" using assms(5,6) by (simp add: restore_context_def NSIG_def Let_def)
  have "bit (0x3F7FD7 :: u64) k" if "k \<in> {8, 9, 12, 13, 14, 18}" for k using that by (auto simp: bit_iff_odd)
  then have "\<forall>k \<in> {8, 9, 12, 13, 14, 18}. bit (tf_r11 ?tf) k = bit ?v k" unfolding r11 by (auto simp: bit_and_iff)
  moreover have "do_sys_sigreturn cpu mem_ok st = Some (set_sig (g\<lparr> saved_rip := 0, saved_rsp := 0, blocked := 0 \<rparr>) (st\<lparr> current_tf := Some ?tf \<rparr>), Returns)"
    using assms(1-4) by (simp add: do_sys_sigreturn_def SIGFRAME_SIZE_def)
  ultimately show ?thesis by auto
qed

theorem sigreturn_keeps_privileged_flags_witness:
  "\<exists>st st' tf'. do_sys_sigreturn 0 True st = Some (st', Returns) \<and> current_tf st' = Some tf' \<and> bit (tf_r11 tf') 12 \<and> bit (tf_r11 tf') 13"
proof -
  let ?ws = "[0, 2] @ replicate 14 0 @ [0x3202, 0x7FFFFF00] :: u64 list"
  let ?g = "sig_zero\<lparr> saved_rip := 0x400500, saved_rsp := 0x7FFFFF00 \<rparr>"
  let ?st = "(sample_trap ?g)\<lparr> umem := write_bytes (\<lambda>_. 0) (0x7FFFFF00 - 144) (enc ?ws) \<rparr>"
  have l: "length (enc ?ws) = 144" by simp
  have rd: "read_bytes (umem ?st) (0x7FFFFF00 - 144) 144 = enc ?ws" using read_write [of "enc ?ws" "\<lambda>_. 0" "0x7FFFFF00 - 144"] unfolding l by simp
  have sk: "stack_ok (sample_trap ?g) 0x7FFFFF00 = Some True" using sample_stack by (simp add: sample_tf_def)
  have cp: "copy_from_user (present ?st) (umem ?st) (saved_rsp ?g - 144) 144 = Some (Some (enc ?ws))"
    using stack_ok_copy [OF sk, of "umem ?st"] unfolding rd by simp
  have f: "sf_signo (sigframe_of (dec (enc ?ws))) = 2" "sf_rflags (sigframe_of (dec (enc ?ws))) = 0x3202"
    unfolding dec_enc by (simp_all add: sigframe_of_def nth_append)
  obtain st' tf' where st': "do_sys_sigreturn 0 True ?st = Some (st', Returns)" "current_tf st' = Some tf'"
      "\<forall>k \<in> {8, 9, 12, 13, 14, 18}. bit (tf_r11 tf') k = bit (0x3202 :: u64) k"
    using sigreturn_keeps_privileged_flags [OF _ _ _ cp, of sample_tf 0 True] unfolding f by auto
  have "bit (0x3202 :: u64) 12" "bit (0x3202 :: u64) 13" by (simp_all add: bit_iff_odd)
  then show ?thesis using st' by blast
qed

text \<open>A task has one saved context: a second \<open>sigreturn\<close> after a first one changes nothing, so the return of an
  outer handler that another signal interrupted does not restore the context it interrupted. And the
  system call that performs the return overwrites the restored return-value register with 0.\<close>

theorem sigreturn_once:
  assumes "current_tf st = Some tf" "cur_sig st = Some (Some g)" "do_sys_sigreturn cpu mem_ok st = Some (st1, Returns)"
  shows "do_sys_sigreturn cpu mem_ok (st1\<lparr> umem := m, current_tf := Some tf' \<rparr>) = Some (st1\<lparr> umem := m, current_tf := Some tf' \<rparr>, Returns) \<and>
    (pending g = 0 \<and> \<not> is_fork_child st (current (sch st)) \<longrightarrow>
      (\<exists>st2 tf2. syscall_trap (\<lambda>_ _. wrap_sys_sigreturn cpu mem_ok) cpu mem_ok tf st = Some (st2, tf2, Returns) \<and> tf_rax tf2 = 0 \<and>
        current_tf st1 = Some (tf2\<lparr> tf_rax := tf_rax (the (current_tf st1)) \<rparr>)))"
proof -
  have g1: "\<exists>g1 tf1. cur_sig st1 = Some (Some g1) \<and> saved_rip g1 = 0 \<and> pending g1 = pending g \<and> current_tf st1 = Some tf1"
    using assms by (auto simp: do_sys_sigreturn_def split: if_splits bind_splits)
  then obtain g1 tf1 where g1: "cur_sig st1 = Some (Some g1)" "saved_rip g1 = 0" "pending g1 = pending g" "current_tf st1 = Some tf1" by blast
  have st: "st\<lparr> current_tf := Some tf \<rparr> = st" using assms(1) by simp
  have "syscall_trap (\<lambda>_ _. wrap_sys_sigreturn cpu mem_ok) cpu mem_ok tf st =
      Some (st1\<lparr> current_tf := None \<rparr>, tf1\<lparr> tf_rax := 0 \<rparr>, Returns)" if "pending g = 0" "\<not> is_fork_child st (current (sch st))"
    using that g1 assms(3) by (simp add: syscall_trap_def wrap_sys_sigreturn_def check_signals_def st)
  then show ?thesis using g1 by (auto simp: do_sys_sigreturn_def)
qed

theorem sigreturn_once_witness:
  "\<exists>st1. do_sys_sigreturn 0 True (sample_trap sig_zero) = Some (st1, Returns) \<and>
     do_sys_sigreturn 0 True (st1\<lparr> umem := (\<lambda>_. 0), current_tf := Some sample_tf \<rparr>) = Some (st1\<lparr> umem := (\<lambda>_. 0), current_tf := Some sample_tf \<rparr>, Returns)"
proof -
  have "do_sys_sigreturn 0 True (sample_trap sig_zero) = Some (sample_trap sig_zero, Returns)" by (simp add: do_sys_sigreturn_def sig_zero_def)
  from sigreturn_once [OF _ _ this, where tf = sample_tf and g = sig_zero and m = "\<lambda>_. 0" and tf' = sample_tf] this show ?thesis by auto
qed

text \<open>C23: SIGKILL cannot be caught, ignored or blocked: in every state reached by sending signals, installing
  handlers, delivering, returning from handlers, switching tasks and arbitrary user code, a pending
  SIGKILL with no deliverable signal of a smaller number ends the task with exit code 137.\<close>

theorem sigkill_kills:
  assumes "kill_ok st0" "sig_step\<^sup>*\<^sup>* st0 st" "current (sch st) \<noteq> 0" "cur_sig st = Some (Some g)" "current_tf st = Some tf"
    and "pending g AND sigbit SIGKILL \<noteq> 0" "\<forall>i. 1 \<le> i \<and> i < 9 \<longrightarrow> \<not> deliverable g i"
  shows "check_signals cpu mem_ok st =
    (let st1 = set_sig (taken 9 g) st in map_option (\<lambda>(s, r). (st1\<lparr> sch := s \<rparr>, r)) (do_exit_current 137 cpu mem_ok (sch st1)))"
proof -
  have g: "sig_ok g" using kill_ok_cur [OF sig_steps_ok [OF assms(2,1)] assms(4)] .
  then have f: "first_signal g 9" using assms(6,7) by (simp add: first_signal_def deliverable_def sig_ok_def SIGKILL_def NSIG_def)
  then show ?thesis unfolding check_signals_first [OF assms(3-5) f]
    using g assms(6) by (simp add: sig_ok_def SIGKILL_def taken_def Let_def do_signal_default_def)
qed

theorem sigkill_kills_witness:
  "\<exists>st. kill_ok st \<and> cur_sig st = Some (Some (sig_zero\<lparr> pending := 512 \<rparr>)) \<and>
     check_signals 0 True st = (let st1 = set_sig (taken 9 (sig_zero\<lparr> pending := 512 \<rparr>)) st
       in map_option (\<lambda>(s, r). (st1\<lparr> sch := s \<rparr>, r)) (do_exit_current 137 0 True (sch st1)))"
proof -
  let ?g = "sig_zero\<lparr> pending := 512 \<rparr>"
  have "bit (512 :: u32) i \<longleftrightarrow> i = 9" if "i < 32" for i using that bit_exp_iff [of 9 i, where ?'a = u32] by simp
  then have d: "\<forall>i. 1 \<le> i \<and> i < 9 \<longrightarrow> \<not> deliverable ?g i" by (simp add: deliverable_def sigbit_and)
  have p: "pending ?g AND sigbit SIGKILL \<noteq> 0" by (simp add: sigbit_def SIGKILL_def)
  have k: "kill_ok (sample_trap ?g)" by (simp add: sig_ok_zero)
  show ?thesis
    using sigkill_kills [OF k rtranclp.rtrancl_refl _ _ _ p d, of sample_tf 0 True] k by (intro exI [of _ "sample_trap ?g"]) simp
qed

text \<open>The pushes at the system call entry put the registers in memory in the opposite order of the fields of
  the trap frame: the kernel takes the number of the system call from R15 of the user and its arguments
  from R12, R11 and R13, and the result it stores arrives in R15; RAX is unchanged. The last two fields lie
  above the words pushed. When the frame is not changed, the pops restore every register.\<close>

theorem syscall_frame_reversed:
  "syscall_return_pops (syscall_entry_pushes u stack) = u \<and>
   (let tf = trapframe_at (syscall_entry_pushes u (a # b # stack))
    in tf_rax tf = u_r15 u \<and> tf_rdi tf = u_r12 u \<and> tf_rsi tf = u_r11 u \<and> tf_rdx tf = u_r13 u \<and> tf_r10 tf = u_r8 u \<and> tf_r8 tf = u_r10 u \<and>
       tf_r9 tf = u_r9 u \<and> tf_rcx tf = u_r14 u \<and> tf_r11 tf = u_rsi u \<and> tf_rip tf = a \<and> tf_rsp tf = b \<and>
       syscall_return_pops (store_trapframe (tf\<lparr> tf_rax := v \<rparr>) (syscall_entry_pushes u (a # b # stack))) = u\<lparr> u_r15 := v \<rparr>)"
  by (simp add: syscall_return_pops_def syscall_entry_pushes_def trapframe_at_def store_trapframe_def Let_def)

end
