(* ===== verification/SchedBalance.thy ===== *)
theory SchedBalance
  imports SchedProps
begin

text \<open>
  The run queues: a circular list of tasks through their \<open>next\<close> pointers together with the tree of the same
  tasks and their number. Enqueueing, dequeueing and load balancing keep the three in agreement.
\<close>

section \<open>Circular lists of tasks\<close>

fun chain :: "(nat \<rightharpoonup> task) \<Rightarrow> nat \<Rightarrow> nat list \<Rightarrow> nat \<Rightarrow> bool" where
  "chain h x [] z \<longleftrightarrow> map_option t_next (h x) = Some z"
| "chain h x (y # ys) z \<longleftrightarrow> map_option t_next (h x) = Some y \<and> chain h y ys z"

fun task_ring :: "(nat \<rightharpoonup> task) \<Rightarrow> nat list \<Rightarrow> bool" where
  "task_ring h [] \<longleftrightarrow> True"
| "task_ring h (x # xs) \<longleftrightarrow> chain h x xs x \<and> distinct (x # xs) \<and> 0 \<notin> set (x # xs)"

lemma chain_cong:
  "(\<And>a. a \<in> set (x # ys) \<Longrightarrow> map_option t_next (h a) = map_option t_next (h' a)) \<Longrightarrow> chain h x ys z = chain h' x ys z"
proof (induction ys arbitrary: x)
  case (Cons y ys)
  have "chain h y ys z = chain h' y ys z" by (rule Cons.IH) (use Cons.prems in auto)
  moreover have "map_option t_next (h x) = map_option t_next (h' x)" by (rule Cons.prems) simp
  ultimately show ?case by simp
qed simp

lemma chain_append: "chain h x (ys @ w # zs) z \<longleftrightarrow> chain h x ys w \<and> chain h w zs z"
  by (induction ys arbitrary: x) auto

lemma chain_snoc: "chain h x (ys @ [w]) z \<longleftrightarrow> chain h x ys w \<and> map_option t_next (h w) = Some z"
  using chain_append [of h x ys w "[]" z] by simp

lemma chain_live: "chain h x ys z \<Longrightarrow> a \<in> set (x # ys) \<Longrightarrow> \<exists>t. h a = Some t"
proof (induction ys arbitrary: x)
  case (Cons y ys)
  then show ?case by (cases "a = x") (auto simp: map_option_eq_Some)
qed (auto simp: map_option_eq_Some)

text \<open>Redirecting the last pointer of a chain.\<close>

lemma chain_end:
  assumes "chain h x ys w" "distinct (x # ys)"
  shows "chain (h(last (x # ys) := map_option (t_next_update (\<lambda>_. z)) (h (last (x # ys))))) x ys z"
proof (cases ys rule: rev_cases)
  case Nil
  then show ?thesis using assms(1) by (auto simp: map_option_eq_Some)
next
  case (snoc vs v)
  let ?h = "h(v := map_option (t_next_update (\<lambda>_. z)) (h v))"
  have c: "chain h x vs v" "map_option t_next (h v) = Some w" using assms(1) snoc by (simp_all add: chain_snoc)
  have "chain ?h x vs v = chain h x vs v" by (rule chain_cong) (use assms(2) snoc in auto)
  then show ?thesis using c snoc by (auto simp: chain_snoc map_option_eq_Some)
qed

lemma find_prev_ok:
  assumes "chain h p (r1 @ t # r2) q" "t \<notin> set r1" "q \<notin> set r1" "t \<noteq> q"
  shows "find_prev h t q p = Some (last (p # r1))"
  using assms
proof (induction r1 arbitrary: p)
  case Nil
  then show ?case by (subst find_prev.simps) (auto simp: map_option_eq_Some)
next
  case (Cons a r1)
  then show ?case by (subst find_prev.simps) (auto simp: map_option_eq_Some)
qed

definition ready :: "(nat \<rightharpoonup> task) \<Rightarrow> nat \<Rightarrow> bool" where
  "ready h a \<longleftrightarrow> map_option t_state (h a) = Some TASK_READY"

lemma ready_iff [simp]: "h a = Some t \<Longrightarrow> ready h a \<longleftrightarrow> t_state t = TASK_READY"
  by (simp add: ready_def)

lemma find_stealable_chain:
  assumes "chain h c ys q" "q \<notin> set (c # ys)"
  shows "find_stealable h q c = Some (case filter (ready h) (c # ys) of [] \<Rightarrow> 0 | a # _ \<Rightarrow> a)"
  using assms
proof (induction ys arbitrary: c)
  case Nil
  then show ?case by (subst find_stealable.simps) (auto simp: map_option_eq_Some)
next
  case (Cons y ys)
  then show ?case by (subst find_stealable.simps) (auto simp: map_option_eq_Some)
qed

lemma find_stealable_ok:
  assumes "task_ring h (q # ys)"
  shows "find_stealable h q q = Some (case filter (ready h) ys of [] \<Rightarrow> 0 | a # _ \<Rightarrow> a)"
proof (cases ys)
  case Nil
  then show ?thesis using assms by (subst find_stealable.simps) (auto simp: map_option_eq_Some)
next
  case (Cons y zs)
  then have "chain h y zs q" "q \<notin> set (y # zs)" using assms by auto
  from find_stealable_chain [OF this] show ?thesis using assms Cons by (subst find_stealable.simps) (auto simp: map_option_eq_Some)
qed

section \<open>Run queues\<close>

definition rq_ok :: "sched \<Rightarrow> nat \<Rightarrow> nat list \<Rightarrow> bool" where
  "rq_ok s cpu xs \<longleftrightarrow> rq_head (per_cpu_rq s cpu) = (case xs of [] \<Rightarrow> 0 | x # _ \<Rightarrow> x) \<and> rq_count (per_cpu_rq s cpu) = int (length xs) \<and>
     task_ring (tasks s) xs \<and> (\<exists>ys. rb_queue (ready_tree (per_cpu_rq s cpu)) ys \<and> set ys = set xs)"

text \<open>What an operation on one queue leaves alone.\<close>

definition only_links :: "nat \<Rightarrow> nat set \<Rightarrow> sched \<Rightarrow> sched \<Rightarrow> bool" where
  "only_links cpu A s s' \<longleftrightarrow> num_cpus s' = num_cpus s \<and> (\<forall>c. c \<noteq> cpu \<longrightarrow> per_cpu_rq s' c = per_cpu_rq s c) \<and>
     (\<forall>a. a \<notin> A \<longrightarrow> tasks s' a = tasks s a) \<and>
     (\<forall>a. map_option (t_next_update (\<lambda>_. 0)) (tasks s' a) = map_option (t_next_update (\<lambda>_. 0)) (tasks s a))"

lemma task_ring_cong: "(\<And>a. a \<in> set xs \<Longrightarrow> h a = h' a) \<Longrightarrow> task_ring h xs = task_ring h' xs"
  using chain_cong [of _ _ h h'] by (cases xs) auto

lemma rq_ok_frame:
  assumes "only_links cpu A s s'" "rq_ok s c xs" "c \<noteq> cpu" "set xs \<inter> A = {}"
  shows "rq_ok s' c xs"
proof -
  have "task_ring (tasks s') xs = task_ring (tasks s) xs" by (rule task_ring_cong) (use assms(1,4) in \<open>auto simp: only_links_def\<close>)
  then show ?thesis using assms(1-3) by (auto simp: rq_ok_def only_links_def)
qed

lemma rb_queue_upd: "rb_queue s xs \<Longrightarrow> a \<notin> set xs \<Longrightarrow> rb_queue (upd a f s) xs"
proof -
  assume q: "rb_queue s xs" and a: "a \<notin> set xs"
  have "map (keys (upd a f s)) xs = map (keys s) xs" using a by (auto simp: keys_def upd_def)
  then have "sorted (map (keys (upd a f s)) xs)" using q by (simp only: rb_queue_def)
  then show "rb_queue (upd a f s) xs" using q a by (auto simp: rb_queue_def tree_inv_def)
qed

section \<open>Enqueueing\<close>

definition ring_insert :: "nat \<Rightarrow> nat list \<Rightarrow> nat list" where
  "ring_insert t xs = (case xs of [] \<Rightarrow> [t] | x # r \<Rightarrow> x # t # r)"

lemma ring_insert_link:
  assumes "task_ring h (x # r)" "h t = Some y" "h x = Some hx" "t \<noteq> 0" "t \<notin> set (x # r)"
  shows "task_ring (h(t \<mapsto> y\<lparr> t_next := t_next hx \<rparr>, x \<mapsto> hx\<lparr> t_next := t \<rparr>)) (x # t # r)"
proof -
  let ?h = "h(t \<mapsto> y\<lparr> t_next := t_next hx \<rparr>, x \<mapsto> hx\<lparr> t_next := t \<rparr>)"
  have "chain ?h t r x"
  proof (cases r)
    case (Cons a r')
    have "chain ?h a r' x = chain h a r' x" by (rule chain_cong) (use assms Cons in auto)
    then show ?thesis using assms Cons by auto
  qed (use assms in auto)
  then show ?thesis using assms by auto
qed

lemma rq_insert_ok:
  assumes q: "rq_ok s cpu xs" and t: "tasks s t = Some y" "t \<noteq> 0" "t \<notin> set xs"
  shows "\<exists>s'. rq_insert t cpu s = Some s' \<and> rq_ok s' cpu (ring_insert t xs) \<and> only_links cpu (insert t (set xs)) s s'"
proof -
  obtain ys where ys: "rb_queue (ready_tree (per_cpu_rq s cpu)) ys" "set ys = set xs" using q by (auto simp: rq_ok_def)
  let ?tree = "upd t (rb_key_update (\<lambda>_. t_vruntime y)) (ready_tree (per_cpu_rq s cpu))"
  have "rb_queue ?tree ys" "t \<notin> set ys" using ys t(3) rb_queue_upd by auto
  from rq.ins_ok [OF this(1) t(2) this(2)] obtain tr where tr: "rb_insert t ?tree = Some tr" "rb_queue tr (queue_insert (keys ?tree) t ys)" by blast
  have st: "set (queue_insert (keys ?tree) t ys) = insert t (set xs)" using ys(2) by (auto simp: queue_insert_def)
  show ?thesis
  proof (cases xs)
    case Nil
    then show ?thesis using q t tr st
      by (auto simp: rq_insert_def rq_ok_def only_links_def ring_insert_def upd_task_def upd_rq_def intro!: exI [of _ "queue_insert (keys ?tree) t ys"])
  next
    case (Cons x r)
    obtain hx where hx: "tasks s x = Some hx" using chain_live [of "tasks s" x r x x] q Cons by (auto simp: rq_ok_def)
    have ne: "t \<noteq> x" "x \<noteq> 0" using t(3) q Cons by (auto simp: rq_ok_def)
    have "task_ring (tasks s) (x # r)" "t \<notin> set (x # r)" using q t Cons by (auto simp: rq_ok_def)
    from ring_insert_link [OF this(1) t(1) hx t(2) this(2)] show ?thesis using q t tr st hx ne Cons
      by (auto simp: rq_insert_def rq_ok_def only_links_def ring_insert_def upd_task_def upd_rq_def intro!: exI [of _ "queue_insert (keys ?tree) t ys"])
  qed
qed

section \<open>Dequeueing\<close>

lemma ring_remove_link:
  assumes "task_ring h (x # r1 @ t # r2)" "h t = Some y"
  shows "task_ring (h(last (x # r1) := map_option (t_next_update (\<lambda>_. t_next y)) (h (last (x # r1))))) (x # r1 @ r2)"
proof -
  let ?p = "last (x # r1)"
  let ?h = "h(?p := map_option (t_next_update (\<lambda>_. t_next y)) (h ?p))"
  have c: "chain h x r1 t" "chain h t r2 x" "distinct (x # r1 @ r2)" "0 \<notin> set (x # r1 @ r2)" "distinct (x # r1)"
    using assms(1) by (simp_all add: chain_append)
  have p: "?p \<in> set (x # r1)" by (rule last_in_set) simp
  have e: "chain ?h x r1 (t_next y)" by (rule chain_end [OF c(1,5)])
  have "chain ?h x (r1 @ r2) x"
  proof (cases r2)
    case Nil
    then have "t_next y = x" using c(2) assms(2) by simp
    then show ?thesis using e Nil by simp
  next
    case (Cons b r)
    then have b: "t_next y = b" "chain h b r x" using c(2) assms(2) by simp_all
    have "chain ?h b r x = chain h b r x" by (rule chain_cong) (use p c(3) Cons in auto)
    then show ?thesis using e b Cons by (simp add: chain_append)
  qed
  then show ?thesis using c(3,4) by simp
qed

lemma smp_dequeue_ok:
  assumes q: "rq_ok s cpu (x # r1 @ t # r2)" and cpu: "cpu < MAX_CPUS"
  shows "\<exists>s'. smp_dequeue_task t (int cpu) s = Some s' \<and> rq_ok s' cpu (x # r1 @ r2) \<and> only_links cpu (set (x # r1)) s s'"
proof -
  let ?xs = "x # r1 @ t # r2" and ?p = "last (x # r1)"
  obtain ys where ys: "rb_queue (ready_tree (per_cpu_rq s cpu)) ys" "set ys = set ?xs" using q by (auto simp: rq_ok_def)
  have "t \<in> set ys" using ys(2) by simp
  from rq.del_ok [OF ys(1) this] obtain tr where tr: "rb_erase t (ready_tree (per_cpu_rq s cpu)) = Some tr" "rb_queue tr (filter (\<lambda>a. a \<noteq> t) ys)"
    by blast
  have rg: "task_ring (tasks s) ?xs" "rq_head (per_cpu_rq s cpu) = x" "rq_count (per_cpu_rq s cpu) = int (length ?xs)"
    using q by (simp_all add: rq_ok_def)
  have c: "chain (tasks s) x (r1 @ t # r2) x" and d: "distinct ?xs" and nz: "0 \<notin> set ?xs" using rg(1) by simp_all
  obtain y where y: "tasks s t = Some y" using chain_live [OF c, of t] by auto
  have p: "?p \<in> set (x # r1)" by (rule last_in_set) simp
  then have pz: "?p \<noteq> 0" using nz by (metis Un_iff append_Cons set_append)
  have ne: "t \<noteq> 0" "x \<noteq> 0" "x \<noteq> t" using d nz by auto
  have prev: "find_prev (tasks s) t x x = Some ?p" by (rule find_prev_ok [OF c]) (use d in auto)
  let ?s = "upd_rq cpu (\<lambda>q. q\<lparr> rq_head := (if rq_head q = t then t_next y else rq_head q), rq_count := rq_count q - 1, ready_tree := tr \<rparr>)
              (upd_task ?p (t_next_update (\<lambda>_. t_next y)) s)"
  have dq: "smp_dequeue_task t (int cpu) s = Some ?s"
    using ne cpu rg(2,3) y prev pz tr(1) by (simp add: smp_dequeue_task_def Let_def)
  have ts: "tasks ?s = (tasks s)(?p := map_option (t_next_update (\<lambda>_. t_next y)) (tasks s ?p))" by (simp add: upd_task_def)
  have rg': "task_ring (tasks ?s) (x # r1 @ r2)" unfolding ts by (rule ring_remove_link [OF rg(1) y])
  have st: "set (filter (\<lambda>a. a \<noteq> t) ys) = set (x # r1 @ r2)" using ys(2) d by auto
  have rq': "rq_head (per_cpu_rq ?s cpu) = x" "rq_count (per_cpu_rq ?s cpu) = int (length (x # r1 @ r2))" "ready_tree (per_cpu_rq ?s cpu) = tr"
    using rg(2,3) ne by simp_all
  have "rq_ok ?s cpu (x # r1 @ r2)" unfolding rq_ok_def rq' using rg' tr(2) st by (metis list.simps(5))
  moreover have "only_links cpu (set (x # r1)) s ?s"
    unfolding only_links_def ts using p by (auto simp: option.map_comp comp_def)
  ultimately show ?thesis using dq by blast
qed

section \<open>The busiest processor\<close>

lemma busiest_max:
  "case busiest s my n of (b, m) \<Rightarrow> 0 \<le> m \<and> (\<forall>i < n. i \<noteq> my \<longrightarrow> rq_count (per_cpu_rq s i) \<le> m) \<and>
     (b < 0 \<or> (\<exists>k < n. b = int k \<and> k \<noteq> my \<and> m = rq_count (per_cpu_rq s k)))"
proof (induction n)
  case (Suc n)
  obtain b m where bm: "busiest s my n = (b, m)" by fastforce
  then show ?case using Suc by (auto simp: less_Suc_eq Let_def)
qed simp

section \<open>Properties\<close>

text \<open>The queues of all processors: each is well-formed and no task is in two of them.\<close>

definition queues_ok :: "sched \<Rightarrow> (nat \<Rightarrow> nat list) \<Rightarrow> bool" where
  "queues_ok s X \<longleftrightarrow> num_cpus s \<le> int MAX_CPUS \<and> (\<forall>c < nat (num_cpus s). rq_ok s c (X c)) \<and>
     (\<forall>c < nat (num_cpus s). \<forall>d < nat (num_cpus s). c \<noteq> d \<longrightarrow> set (X c) \<inter> set (X d) = {})"

definition migrated :: "sched \<Rightarrow> (nat \<Rightarrow> nat list) \<Rightarrow> nat \<Rightarrow> (nat \<Rightarrow> nat list) \<Rightarrow> bool" where
  "migrated s X my X' \<longleftrightarrow> (\<exists>b t x r1 r2. b < nat (num_cpus s) \<and> b \<noteq> my \<and> X b = x # r1 @ t # r2 \<and> ready (tasks s) t \<and>
     (\<forall>c < nat (num_cpus s). length (X c) \<le> length (X b)) \<and> length (X my) \<le> 1 \<and>
     X' = X(b := x # r1 @ r2, my := ring_insert t (X my)))"

lemma disjoint_move:
  assumes "A \<subseteq> (if p then insert t C else C - {t})" "B \<subseteq> (if q then insert t D else D - {t})" "C \<inter> D = {}" "\<not> (p \<and> q)"
  shows "A \<inter> B = {}"
  using assms by (cases p; cases q) auto

lemma smp_schedule_steals:
  assumes q: "queues_ok s X" and my: "my < nat (num_cpus s)" and b: "b < nat (num_cpus s)" "b \<noteq> my"
    and Xb: "X b = x # r1 @ t # r2"
  shows "\<exists>s1 s'. smp_dequeue_task t (int b) s = Some s1 \<and> smp_enqueue_task t (int my) s1 = Some s' \<and>
    queues_ok s' (X(b := x # r1 @ r2, my := ring_insert t (X my)))"
proof -
  have le: "num_cpus s \<le> int MAX_CPUS" and ok: "\<And>c. c < nat (num_cpus s) \<Longrightarrow> rq_ok s c (X c)"
    and dis: "\<And>c d. c < nat (num_cpus s) \<Longrightarrow> d < nat (num_cpus s) \<Longrightarrow> c \<noteq> d \<Longrightarrow> set (X c) \<inter> set (X d) = {}"
    using q by (simp_all add: queues_ok_def)
  have qb: "rq_ok s b (x # r1 @ t # r2)" using ok [OF b(1)] Xb by simp
  have "b < MAX_CPUS" using b(1) le by linarith
  from smp_dequeue_ok [OF qb this] obtain s1 where s1: "smp_dequeue_task t (int b) s = Some s1" "rq_ok s1 b (x # r1 @ r2)"
      "only_links b (set (x # r1)) s s1" by blast
  have tX: "t \<notin> set (X c)" if "c < nat (num_cpus s)" "c \<noteq> b" for c using dis [OF that(1) b(1) that(2)] Xb by auto
  have rest: "rq_ok s1 c (X c)" if "c < nat (num_cpus s)" "c \<noteq> b" for c
    using rq_ok_frame [OF s1(3) ok [OF that(1)] that(2)] dis [OF that(1) b(1) that(2)] Xb by auto
  have td: "t \<noteq> 0" "t \<notin> set (x # r1 @ r2)" using qb by (auto simp: rq_ok_def)
  have ch: "chain (tasks s) x (r1 @ t # r2) x" using qb by (simp add: rq_ok_def)
  have "\<exists>y. tasks s t = Some y" by (rule chain_live [OF ch]) simp
  then obtain y where y: "tasks s1 t = Some y" using s1(3) td by (auto simp: only_links_def)
  have n1: "num_cpus s1 = num_cpus s" using s1(3) by (simp add: only_links_def)
  obtain s' where s': "rq_insert t my s1 = Some s'" "rq_ok s' my (ring_insert t (X my))" "only_links my (insert t (set (X my))) s1 s'"
    using rq_insert_ok [OF rest [OF my not_sym [OF b(2)]] y td(1) tX [OF my not_sym [OF b(2)]]] by blast
  have enq: "smp_enqueue_task t (int my) s1 = Some s'" using s'(1) td my le n1 by (auto simp: smp_enqueue_task_def)
  have n': "num_cpus s' = num_cpus s" using s'(3) n1 by (simp add: only_links_def)
  let ?X = "X(b := x # r1 @ r2, my := ring_insert t (X my))"
  have "rq_ok s' c (?X c)" if c: "c < nat (num_cpus s)" for c
  proof (cases "c = my")
    case False
    have "rq_ok s1 c (?X c)" using s1(2) rest [OF c] False by simp
    moreover have "set (?X c) \<inter> insert t (set (X my)) = {}" using dis [OF c my False] tX [OF c] td(2) dis [OF b(1) my b(2)] Xb False by auto
    ultimately show ?thesis using rq_ok_frame [OF s'(3)] False by blast
  qed (use s'(2) in simp)
  moreover have "set (?X c) \<inter> set (?X d) = {}" if cd: "c < nat (num_cpus s)" "d < nat (num_cpus s)" "c \<noteq> d" for c d
  proof -
    have "set (ring_insert t (X my)) = insert t (set (X my))" by (auto simp: ring_insert_def split: list.split)
    then have sub: "set (?X e) \<subseteq> (if e = my then insert t (set (X e)) else set (X e) - {t})" if "e < nat (num_cpus s)" for e
      using tX [OF that] td(2) Xb by auto
    show ?thesis by (rule disjoint_move [OF sub [OF cd(1)] sub [OF cd(2)] dis [OF cd]]) (use cd(3) in simp)
  qed
  ultimately have "queues_ok s' ?X" unfolding queues_ok_def n' using le by blast
  then show ?thesis using s1(1) enq by blast
qed

text \<open>C24: Load balancing keeps the queues of all processors well-formed and disjoint: either it does nothing,
  or it moves one ready task, not the head, from a longest other queue to the calling processor, whose
  queue had at most one task; every task stays in exactly one queue and in the tree of that queue.\<close>

theorem smp_schedule_balances:
  assumes q: "queues_ok s X" and my: "my < nat (num_cpus s)"
  shows "\<exists>s' X'. smp_schedule (int my) s = Some s' \<and> queues_ok s' X' \<and> (s' = s \<and> X' = X \<or> migrated s X my X')"
proof -
  have ok: "\<And>c. c < nat (num_cpus s) \<Longrightarrow> rq_ok s c (X c)" using q by (simp add: queues_ok_def)
  then have cnt: "\<And>c. c < nat (num_cpus s) \<Longrightarrow> rq_count (per_cpu_rq s c) = int (length (X c))" by (simp add: rq_ok_def)
  obtain b m where bm: "busiest s my (nat (num_cpus s)) = (b, m)" by fastforce
  have skip: ?thesis if "smp_schedule (int my) s = Some s" using that q by blast
  show ?thesis
  proof (cases "rq_count (per_cpu_rq s my) > 1 \<or> b < 0 \<or> m \<le> 1")
    case True
    then show ?thesis using bm my by (intro skip) (auto simp: smp_schedule_def)
  next
    case False
    then obtain k where k: "k < nat (num_cpus s)" "b = int k" "k \<noteq> my" "m = rq_count (per_cpu_rq s k)"
        and mx: "\<forall>i < nat (num_cpus s). i \<noteq> my \<longrightarrow> rq_count (per_cpu_rq s i) \<le> m"
      using busiest_max [where s = s and my = my and n = "nat (num_cpus s)"] bm by auto
    obtain x r where x: "X k = x # r" using False k cnt [OF k(1)] by (cases "X k") auto
    have rk: "task_ring (tasks s) (x # r)" "rq_head (per_cpu_rq s k) = x" "x \<noteq> 0" using ok [OF k(1)] x by (auto simp: rq_ok_def)
    note st = find_stealable_ok [OF rk(1)]
    have sm: "smp_schedule (int my) s = (case filter (ready (tasks s)) r of [] \<Rightarrow> Some s
        | t # _ \<Rightarrow> do { s1 \<leftarrow> smp_dequeue_task t b s; smp_enqueue_task t (int my) s1 })"
    proof -
      have nz: "t \<noteq> 0" if "filter (ready (tasks s)) r = t # ts" for t ts
      proof -
        have "t \<in> set r" using that by (metis filter_is_subset list.set_intros(1) subsetD)
        then show ?thesis using rk(1) by (cases "t = 0") auto
      qed
      show ?thesis using False my bm k(2) rk(2,3) st by (cases "filter (ready (tasks s)) r") (auto simp: smp_schedule_def dest: nz)
    qed
    show ?thesis
    proof (cases "filter (ready (tasks s)) r")
      case Nil
      then show ?thesis using sm by (intro skip) simp
    next
      case (Cons t ts)
      then obtain r1 r2 where r: "r = r1 @ t # r2" "ready (tasks s) t" using Cons_eq_filterD by (metis (no_types, lifting))
      have X: "X k = x # r1 @ t # r2" using x r(1) by simp
      obtain s1 s' where s': "smp_dequeue_task t (int k) s = Some s1" "smp_enqueue_task t (int my) s1 = Some s'"
          "queues_ok s' (X(k := x # r1 @ r2, my := ring_insert t (X my)))" using smp_schedule_steals [where X = X, OF q my k(1,3) X] by blast
      have "migrated s X my (X(k := x # r1 @ r2, my := ring_insert t (X my)))"
      proof -
        have "length (X c) \<le> length (X k)" if "c < nat (num_cpus s)" for c
          using mx that cnt [OF that] cnt [OF k(1)] cnt [OF my] k(4) False by (cases "c = my") auto
        moreover have "length (X my) \<le> 1" using False cnt [OF my] by simp
        ultimately show ?thesis using k(1,3) X r(2) unfolding migrated_def by blast
      qed
      then show ?thesis using sm Cons k(2) s' by auto
    qed
  qed
qed

theorem smp_schedule_balances_witness:
  "\<exists>s s' X X'. queues_ok s X \<and> num_cpus s = 2 \<and> X 0 = [1, 2, 3] \<and> smp_schedule 1 s = Some s' \<and> queues_ok s' X' \<and>
     (s' = s \<and> X' = X \<or> migrated s X 1 X')"
proof -
  obtain tree where t: "rb_queue tree [1, 2, 3]" using three_nodes by blast
  let ?s = "(sample_sched tree)\<lparr> num_cpus := 2, per_cpu_rq := (\<lambda>c. if c = 0 then \<lparr> rq_head = 1, rq_count = 3, ready_tree = tree \<rparr>
              else \<lparr> rq_head = 0, rq_count = 0, ready_tree = no_nodes \<rparr>) \<rparr>"
  let ?X = "\<lambda>c::nat. if c = 0 then [1, 2, 3] else [] :: nat list"
  have "rq_ok ?s 0 [1, 2, 3]" using t by (auto simp: rq_ok_def sample_sched_def sample_task_def)
  moreover have "rq_ok ?s c []" if "c \<noteq> 0" for c using no_nodes_queue that by (auto simp: rq_ok_def)
  ultimately have q: "queues_ok ?s ?X" by (auto simp: queues_ok_def MAX_CPUS_def)
  obtain s' X' where s': "smp_schedule 1 ?s = Some s'" "queues_ok s' X'" "s' = ?s \<and> X' = ?X \<or> migrated ?s ?X 1 X'"
    using smp_schedule_balances [OF q, of 1] by auto
  then show ?thesis using q by (intro exI [of _ ?s] exI [of _ s'] exI [of _ ?X] exI [of _ X']) simp
qed

end
