(* ===== verification/Fork.thy ===== *)
theory Fork
  imports SignalProps SchedBalance
begin

text \<open>
  Process duplication and the context switch: \<open>sys_fork\<close> of \<open>kernel/syscall.c\<close> and \<open>arch/x86_64/context.S\<close>, on
  the stacks that \<open>create_task\<close> prepares.

  The address space the child gets is the result of \<open>clone_current_pml4\<close> and an argument; the error number of
  the task is not modelled. A dereference of the NULL \<open>current\<close> is \<^const>\<open>None\<close>.
\<close>

section \<open>Context switch\<close>

record switch_regs =
  c_r15 :: u64
  c_r14 :: u64
  c_r13 :: u64
  c_r12 :: u64
  c_rbx :: u64
  c_rbp :: u64
  c_rflags :: u64
  c_rip :: u64

text \<open>The words \<open>context_switch\<close> leaves on the old stack: the return address of the call, the flags and the
  registers, in the order in which they are pushed.\<close>

definition context_save :: "switch_regs \<Rightarrow> u64 list \<Rightarrow> u64 list" where
  "context_save r stack =
     foldl (\<lambda>stk v. v # stk) stack [c_rip r, c_rflags r, c_rbp r, c_rbx r, c_r12 r, c_r13 r, c_r14 r, c_r15 r]"

text \<open>The pops from the new stack up to the \<open>ret\<close>, and the stack that is left.\<close>

definition context_restore :: "u64 list \<Rightarrow> switch_regs \<times> u64 list" where
  "context_restore stk =
     (\<lparr> c_r15 = stk ! 0, c_r14 = stk ! 1, c_r13 = stk ! 2, c_r12 = stk ! 3, c_rbx = stk ! 4, c_rbp = stk ! 5, c_rflags = stk ! 6,
        c_rip = stk ! 7 \<rparr>, drop 8 stk)"

section \<open>Fork\<close>

text \<open>The registers of the parent written into the first thirteen words of the child's stack.\<close>

definition fork_frame :: "trapframe \<Rightarrow> u64 list \<Rightarrow> u64 list" where
  "fork_frame tf sp = [tf_r15 tf, tf_r14 tf, tf_r13 tf, tf_r12 tf, tf_r11 tf, tf_r10 tf, tf_r9 tf, tf_r8 tf, tf_rsi tf, tf_rdi tf, tf_rdx tf,
     tf_rcx tf, 0] @ drop 13 sp"

text \<open>The copy of the descriptor table; a capability entry is passed to \<open>vfs_file_dup\<close> as if it were a file.\<close>

primrec fork_fds :: "nat \<Rightarrow> nat \<Rightarrow> nat list \<Rightarrow> fstate \<Rightarrow> fstate option" where
  "fork_fds pr ch [] s = Some s"
| "fork_fds pr ch (i # is) s =
     (let v = fd_table s pr ! i; s1 = set_slot ch i v s
      in case v of
           Unused \<Rightarrow> fork_fds pr ch is s1
         | File_ptr p \<Rightarrow> do { (s2, _) \<leftarrow> vfs_file_dup p s1; fork_fds pr ch is s2 }
         | Cap_ptr _ \<Rightarrow> None)"

definition sys_fork :: "u64 \<Rightarrow> u64 \<Rightarrow> nat \<Rightarrow> nat \<Rightarrow> bool \<Rightarrow> bool \<Rightarrow> trap_state \<Rightarrow> (trap_state \<times> int) option" where
  "sys_fork child_cr3 syscall_return_point mem stack_page node_ok mem_ok st =
     (if current (sch st) = 0 then None
      else if child_cr3 = kernel_cr3 (sch st) then Some (st, - 1)
      else do {
        (s1, child) \<leftarrow> create_task None syscall_return_point mem stack_page node_ok (sch st);
        if child = 0 then Some (st\<lparr> sch := s1\<lparr> freed_cr3s := freed_cr3s s1 @ [child_cr3] \<rparr> \<rparr>, - 1)
        else do {
          cur \<leftarrow> tasks s1 (current s1);
          t \<leftarrow> tasks s1 child;
          fds \<leftarrow> fork_fds (current s1) child [0..<MAX_FDS] (ftab s1);
          (let frame = (case current_tf st of Some tf \<Rightarrow> fork_frame tf (t_frame t) | None \<Rightarrow> t_frame t);
               sig' = (case t_sig cur of
                         None \<Rightarrow> t_sig t
                       | Some g \<Rightarrow> map_option (\<lambda>n. n\<lparr> actions := actions g \<rparr>) (signal_alloc mem_ok));
               s2 = (upd_task child (\<lambda>x. x\<lparr> t_cr3 := child_cr3, t_frame := frame, t_sig := sig' \<rparr>) s1)\<lparr> ftab := fds \<rparr>
           in Some (st\<lparr> sch := s2, is_fork_child := (is_fork_child st)(child := True) \<rparr>, t_pid t)) } })"

section \<open>Lemmas\<close>

lemma rq_insert_keeps:
  assumes "rq_insert t cpu s = Some s'"
  shows "ftab s' = ftab s" "current s' = current s" "map_option (t_next_update (\<lambda>_. 0)) (tasks s' a) = map_option (t_next_update (\<lambda>_. 0)) (tasks s a)"
  using assms by (auto simp: rq_insert_def upd_rq_def upd_task_def Let_def option.map_comp comp_def split: bind_splits if_splits)

lemma link_fields: "x\<lparr> t_next := n \<rparr> = y\<lparr> t_next := n \<rparr> \<Longrightarrow> t_sig x = t_sig y \<and> t_frame x = t_frame y \<and> t_pid x = t_pid y"
  by (cases x; cases y) simp

lemma create_task_ok:
  assumes c: "create_task None srp mem sp node_ok s = Some (s1, ch)" "ch \<noteq> 0" and cur: "tasks s (current s) = Some t0" "mem \<noteq> current s"
  shows "ch = mem \<and> ftab s1 = fd_table_init mem (ftab s) \<and> current s1 = current s \<and>
    (\<exists>t. tasks s1 (current s) = Some t \<and> t_sig t = t_sig t0) \<and>
    (\<exists>t. tasks s1 mem = Some t \<and> t_frame t = initial_frame None srp \<and> t_sig t = None \<and> t_pid t = snd (alloc_pid (pidmap s)))"
proof -
  obtain pm p where ap: "alloc_pid (pidmap s) = (pm, p)" by fastforce
  let ?n = "if num_cpus s = 0 then 1 else num_cpus s"
  let ?t = "task_zero\<lparr> t_rlimit := default_rlimit, t_brk := 0x70000000, t_rsp := sp + 4096 - 8 * length (initial_frame None srp),
    t_frame := initial_frame None srp, t_cr3 := kernel_cr3 s, t_stack := sp, t_state := TASK_READY, t_priority := 128,
    t_time_slice := full_slice (task_zero\<lparr> t_priority := 128 \<rparr>), t_vruntime := min_vruntime s, t_parent := current s, t_pid := p \<rparr>"
  let ?s = "s\<lparr> tasks := (tasks s)(mem \<mapsto> ?t), pidmap := pid_register p mem pm, num_cpus := ?n, ftab := fd_table_init mem (ftab s) \<rparr>"
  let ?cpu = "nat (let c = p smod ?n in if c \<ge> ?n then 0 else c)"
  have "ch = 0" if "mem = 0 \<or> sp = 0 \<or> p < 0"
    using that c(1) by (cases "mem = 0"; cases "sp = 0") (auto simp: create_task_def ap Let_def)
  then have ok: "mem \<noteq> 0" "sp \<noteq> 0" "\<not> p < 0" using c(2) by metis+
  have "create_task None srp mem sp node_ok s = do { s2 \<leftarrow> rq_insert mem ?cpu ?s; Some (add_child (current s) mem node_ok s2, mem) }"
    using ok by (simp add: create_task_def ap Let_def)
  then obtain s2 where s2: "rq_insert mem ?cpu ?s = Some s2" "s1 = add_child (current s) mem node_ok s2" "ch = mem"
    using c(1) by (cases "rq_insert mem ?cpu ?s") auto
  note k = rq_insert_keeps [OF s2(1)]
  have a: "\<exists>t. tasks s2 (current s) = Some t \<and> t_sig t = t_sig t0"
    using k(3) [of "current s"] cur link_fields by (fastforce simp: map_option_eq_Some)
  have "map_option (t_next_update (\<lambda>_. 0)) (tasks s2 mem) = Some (?t\<lparr> t_next := 0 \<rparr>)" using k(3) [of mem] by simp
  then obtain z where z: "tasks s2 mem = Some z" "z\<lparr> t_next := 0 \<rparr> = ?t\<lparr> t_next := 0 \<rparr>" by (auto simp only: map_option_eq_Some)
  have b: "\<exists>t. tasks s2 mem = Some t \<and> t_frame t = initial_frame None srp \<and> t_sig t = None \<and> t_pid t = p"
    using z(1) link_fields [OF z(2)] by (simp add: task_zero_def)
  show ?thesis using a b k(1,2) s2(2,3) ap cur(2) by (auto simp: add_child_def)
qed

lemma fork_fds_ok:
  assumes "fd_inv s" "distinct is" "set is \<subseteq> {..<MAX_FDS}" "pr \<noteq> ch" "\<forall>i \<in> set is. fd_table s ch ! i = Unused"
  shows "\<exists>s'. fork_fds pr ch is s = Some s' \<and> fd_inv s' \<and>
    (\<forall>t i. fd_table s' t ! i = (if t = ch \<and> i \<in> set is then fd_table s pr ! i else fd_table s t ! i))"
  using assms
proof (induction "is" arbitrary: s)
  case (Cons i "is")
  let ?v = "fd_table s pr ! i"
  have i: "i < MAX_FDS" "fd_table s ch ! i = Unused" and tb: "tables_ok s" using Cons.prems by (auto simp: fd_inv_def file_inv_def)
  have nx: "\<exists>s'. fork_fds pr ch is s2 = Some s' \<and> fd_inv s' \<and>
      (\<forall>t j. fd_table s' t ! j = (if t = ch \<and> j \<in> set (i # is) then fd_table s pr ! j else fd_table s t ! j))"
    if s2: "fd_inv s2" "\<And>t j. fd_table s2 t ! j = (if t = ch \<and> j = i then ?v else fd_table s t ! j)" for s2
  proof -
    have "\<forall>j \<in> set is. fd_table s2 ch ! j = Unused" using Cons.prems(2,5) s2(2) by auto
    from Cons.IH [OF s2(1) _ _ Cons.prems(4) this] Cons.prems(2,3) obtain s' where "fork_fds pr ch is s2 = Some s'" "fd_inv s'"
      "\<forall>t j. fd_table s' t ! j = (if t = ch \<and> j \<in> set is then fd_table s2 pr ! j else fd_table s2 t ! j)" by auto
    then show ?thesis using s2(2) Cons.prems(4) by auto
  qed
  show ?case
  proof (cases ?v)
    case Unused
    have "(fd_table s ch)[i := Unused] = fd_table s ch" using i(2) by (metis list_update_id)
    then have "set_slot ch i Unused s = s" by (simp add: set_slot_def)
    then show ?thesis using nx [of s] Unused i Cons.prems(1) by (simp add: Let_def)
  next
    case (File_ptr p)
    then have "(pr, i) \<in> refs s p" using i(1) by (simp add: refs_def points_def)
    from dup_into [OF Cons.prems(1) this i] obtain s1 where s1: "vfs_file_dup p s = Some (s1, 0)" "same_tables s s1" "fd_inv (set_slot ch i (File_ptr p) s1)" by blast
    have "vfs_file_dup p (set_slot ch i (File_ptr p) s) = Some (set_slot ch i (File_ptr p) s1, 0)"
      using s1(1) by (auto simp: vfs_file_dup_def set_slot_def set_refcount_def split: option.splits if_splits)
    moreover have "fd_table (set_slot ch i (File_ptr p) s1) t ! j = (if t = ch \<and> j = i then ?v else fd_table s t ! j)" for t j
      using slot_set_slot [of s1 i] s1(2) same_tables_ok [OF s1(2)] tb i(1) File_ptr by (simp add: same_tables_def)
    ultimately show ?thesis using nx [OF s1(3)] File_ptr by (simp add: Let_def)
  next
    case (Cap_ptr e)
    then show ?thesis using Cons.prems(1) i(1) by (auto simp: fd_inv_def plain_def)
  qed
qed simp

lemma sample_create: "\<exists>s1. create_task None 0 5 8192 True (sch (sample_trap sig_zero)) = Some (s1, 5)"
proof -
  let ?s = "sch (sample_trap sig_zero)"
  obtain pm where ap: "alloc_pid (pidmap ?s) = (pm, 2)" using first_pid(2) by (cases "alloc_pid no_pids") (simp add: sample_trap_def sample_sched_def)
  have q: "rb_queue (upd 5 (rb_key_update (\<lambda>_. v)) no_nodes) []" for v by (rule rb_queue_upd [OF no_nodes_queue]) simp
  have "\<exists>s2. rq_insert 5 0 (?s\<lparr> tasks := (tasks ?s)(5 \<mapsto> t), pidmap := p, num_cpus := 1, ftab := f \<rparr>) = Some s2" for p t f
    using rb_insert_ok [OF q, of 5 "t_vruntime t"] by (auto simp: rq_insert_def sample_trap_def sample_sched_def)
  moreover have "\<exists>s1. Option.bind m (\<lambda>s2. Some (g s2, 5)) = Some (s1, 5 :: nat)" if "\<exists>x. m = Some x"
    for m :: "sched option" and g :: "sched \<Rightarrow> sched" using that by auto
  ultimately show ?thesis by (simp add: create_task_def ap Let_def) (simp add: sample_trap_def sample_sched_def)
qed

section \<open>Properties\<close>



text \<open>A context switch back to a context that was switched out restores its registers and stack. But the
  stacks prepared for new tasks do not have that form: for a kernel thread the switch takes the entry
  point as R15 and returns to a word beyond the end of the stack page, and for a forked child it returns,
  in kernel mode, to the address the parent had in R10 when it made the system call.\<close>

theorem context_switch_entry:
  "context_restore (context_save r stack) = (r, stack) \<and>
   c_r15 (fst (context_restore (initial_frame (Some f) srp @ beyond))) = f \<and>
   c_rip (fst (context_restore (initial_frame (Some f) srp @ beyond))) = beyond ! 6 \<and>
   c_rip (fst (context_restore (fork_frame (trapframe_at (syscall_entry_pushes u (a # b # kstack))) (initial_frame None srp) @ beyond))) = u_r10 u"
  by (simp add: context_restore_def context_save_def initial_frame_def fork_frame_def trapframe_at_def syscall_entry_pushes_def nth_append)

end
