(* ===== verification/BlockDev.thy ===== *)
theory BlockDev
  imports Prelude
begin

text \<open>
  Block devices: the abstraction layer \<open>kernel/block_dev.c\<close> and the memory-backed device of \<open>kernel/ramdisk.c\<close>. A
  driver is a pair of functions on a device state; None is the return value -1. The buffer of a read is its result, and
  the data of a write is the list of the bytes of the buffer. The disk keeps a record of all writes, from which
  the properties of the journal reconstruct what a crash leaves behind; the code has no such record.
\<close>

section \<open>The abstraction layer\<close>

record 'd block_device =
  bd_name :: string
  bd_block_size :: nat
  bd_total_sectors :: nat
  bd_read :: "(nat \<Rightarrow> int \<Rightarrow> 'd \<Rightarrow> bytes option) option"
  bd_write :: "(bytes \<Rightarrow> nat \<Rightarrow> int \<Rightarrow> 'd \<Rightarrow> 'd option) option"

definition block_dev_register :: "'d block_device option \<Rightarrow> 'd block_device list \<Rightarrow> 'd block_device list \<times> int" where
  "block_dev_register bdev devs = (case bdev of None \<Rightarrow> (devs, - 1) | Some b \<Rightarrow> (b # devs, 0))"

primrec block_dev_find :: "string \<Rightarrow> 'd block_device list \<Rightarrow> 'd block_device option" where
  "block_dev_find name [] = None"
| "block_dev_find name (b # bs) = (if bd_name b = name then Some b else block_dev_find name bs)"

definition block_dev_read :: "'d block_device \<Rightarrow> nat \<Rightarrow> int \<Rightarrow> 'd \<Rightarrow> bytes option" where
  "block_dev_read b sector count d =
     (case bd_read b of
        None \<Rightarrow> None
      | Some rd \<Rightarrow>
          if count \<le> 0 then None
          else if sector > bd_total_sectors b \<or> nat count > bd_total_sectors b - sector then None
          else rd sector count d)"

definition block_dev_write :: "'d block_device \<Rightarrow> bytes \<Rightarrow> nat \<Rightarrow> int \<Rightarrow> 'd \<Rightarrow> 'd option" where
  "block_dev_write b buf sector count d =
     (case bd_write b of
        None \<Rightarrow> None
      | Some wr \<Rightarrow>
          if count \<le> 0 then None
          else if sector > bd_total_sectors b \<or> nat count > bd_total_sectors b - sector then None
          else wr buf sector count d)"

section \<open>The RAM disk\<close>

definition RAMDISK_SIZE_BYTES :: nat where "RAMDISK_SIZE_BYTES = 1024 * 1024"

text \<open>\<open>rd_priv\<close> is the size field of \<open>g_ramdisk_priv\<close>, None while the pointer is NULL.\<close>

record ramdisk =
  rd_priv :: "nat option"
  rd_data :: mem
  rd_block_size :: nat
  rd_log :: "(nat \<times> bytes) list"

definition put_bytes :: "nat \<Rightarrow> bytes \<Rightarrow> mem \<Rightarrow> mem" where
  "put_bytes a bs m = (\<lambda>x. if a \<le> x \<and> x < a + length bs then bs ! (x - a) else m x)"

definition ramdisk_read :: "nat \<Rightarrow> int \<Rightarrow> ramdisk \<Rightarrow> bytes option" where
  "ramdisk_read sector count r =
     (case rd_priv r of
        None \<Rightarrow> None
      | Some size_bytes \<Rightarrow>
          if count \<le> 0 then None
          else let byte_offset = sector * rd_block_size r mod 2 ^ 64; byte_count = nat count * rd_block_size r mod 2 ^ 64
               in if (byte_offset + byte_count) mod 2 ^ 64 > size_bytes then None
                  else if (byte_offset + byte_count) mod 2 ^ 64 < byte_offset then None
                  else Some (map (rd_data r) [byte_offset..<byte_offset + byte_count]))"

definition ramdisk_write :: "bytes \<Rightarrow> nat \<Rightarrow> int \<Rightarrow> ramdisk \<Rightarrow> ramdisk option" where
  "ramdisk_write buf sector count r =
     (case rd_priv r of
        None \<Rightarrow> None
      | Some size_bytes \<Rightarrow>
          if count \<le> 0 then None
          else let byte_offset = sector * rd_block_size r mod 2 ^ 64; byte_count = nat count * rd_block_size r mod 2 ^ 64
               in if (byte_offset + byte_count) mod 2 ^ 64 > size_bytes then None
                  else if (byte_offset + byte_count) mod 2 ^ 64 < byte_offset then None
                  else Some (r\<lparr> rd_data := put_bytes byte_offset (take byte_count buf) (rd_data r),
                    rd_log := rd_log r @ [(byte_offset, take byte_count buf)] \<rparr>))"

definition ramdisk_bdev :: "nat \<Rightarrow> ramdisk block_device" where
  "ramdisk_bdev size_bytes = \<lparr> bd_name = ''ramdisk0'', bd_block_size = 512, bd_total_sectors = size_bytes div 512,
     bd_read = Some ramdisk_read, bd_write = Some ramdisk_write \<rparr>"

text \<open>\<open>got_bdev\<close> and \<open>got_priv\<close> say whether the two calls of \<open>kmalloc\<close> succeed.\<close>

definition ramdisk_init ::
  "nat \<Rightarrow> bool \<Rightarrow> bool \<Rightarrow> ramdisk \<Rightarrow> ramdisk block_device list \<Rightarrow> (ramdisk \<times> ramdisk block_device list) \<times> int" where
  "ramdisk_init size_mb got_bdev got_priv r devs =
     (if \<not> got_bdev \<or> \<not> got_priv then ((r, devs), - 1)
      else let sz0 = (if size_mb \<noteq> 0 then size_mb * 1024 * 1024 mod 2 ^ 64 else RAMDISK_SIZE_BYTES);
               sz = (if sz0 > RAMDISK_SIZE_BYTES then RAMDISK_SIZE_BYTES else sz0);
               (devs', ret) = block_dev_register (Some (ramdisk_bdev sz)) devs
           in ((r\<lparr> rd_priv := Some sz, rd_data := put_bytes 0 (replicate sz 0) (rd_data r), rd_block_size := 512 \<rparr>, devs'), ret))"

section \<open>The contract of a disk\<close>

text \<open>
  What a client of \<open>block_dev_read\<close> and \<open>block_dev_write\<close> relies on: inside the device, a read returns the contents, and a write
  changes exactly the sectors it names and is the next write the disk performs.
\<close>

locale disk =
  fixes b :: "'d block_device" and ok :: "'d \<Rightarrow> bool" and content :: "'d \<Rightarrow> mem" and log :: "'d \<Rightarrow> (nat \<times> bytes) list"
  assumes size_law: "0 < bd_block_size b"
    and total_law: "ok d \<Longrightarrow> bd_total_sectors b < 2 ^ 63"
    and read_law: "ok d \<Longrightarrow> 0 < n \<Longrightarrow> s + n \<le> bd_total_sectors b \<Longrightarrow>
      block_dev_read b s (int n) d = Some (map (content d) [s * bd_block_size b..<(s + n) * bd_block_size b])"
    and write_law: "ok d \<Longrightarrow> 0 < n \<Longrightarrow> s + n \<le> bd_total_sectors b \<Longrightarrow> length buf = n * bd_block_size b \<Longrightarrow>
      \<exists>d'. block_dev_write b buf s (int n) d = Some d' \<and> ok d' \<and> content d' = put_bytes (s * bd_block_size b) buf (content d) \<and>
        log d' = log d @ [(s * bd_block_size b, buf)]"

definition ramdisk_ok :: "nat \<Rightarrow> ramdisk \<Rightarrow> bool" where
  "ramdisk_ok size_bytes r \<longleftrightarrow> rd_priv r = Some size_bytes \<and> rd_block_size r = 512 \<and> size_bytes \<le> RAMDISK_SIZE_BYTES"

lemma ramdisk_access:
  assumes "ramdisk_ok size_bytes r" "0 < n" "s + n \<le> size_bytes div 512"
  shows "s * 512 + n * 512 \<le> size_bytes" "s * 512 mod 2 ^ 64 = s * 512" "n * 512 mod 2 ^ 64 = n * 512" "(s * 512 + n * 512) mod 2 ^ 64 = s * 512 + n * 512"
proof -
  have "(s + n) * 512 \<le> size_bytes div 512 * 512" using assms(3) by (rule mult_le_mono1)
  then show le: "s * 512 + n * 512 \<le> size_bytes" by (simp add: algebra_simps)
  moreover have "size_bytes < 2 ^ 64" using assms(1) by (simp add: ramdisk_ok_def RAMDISK_SIZE_BYTES_def)
  ultimately have "s * 512 < 2 ^ 64" "n * 512 < 2 ^ 64" "s * 512 + n * 512 < 2 ^ 64" by linarith+
  then show "s * 512 mod 2 ^ 64 = s * 512" "n * 512 mod 2 ^ 64 = n * 512" "(s * 512 + n * 512) mod 2 ^ 64 = s * 512 + n * 512"
    by simp_all
qed

interpretation rdk: disk "ramdisk_bdev size_bytes" "ramdisk_ok size_bytes" rd_data rd_log for size_bytes
proof
  show "0 < bd_block_size (ramdisk_bdev size_bytes)" by (simp add: ramdisk_bdev_def)
  show "bd_total_sectors (ramdisk_bdev size_bytes) < 2 ^ 63" if "ramdisk_ok size_bytes d" for d
    using that div_le_dividend [of size_bytes 512] by (auto simp: ramdisk_ok_def RAMDISK_SIZE_BYTES_def ramdisk_bdev_def)
  fix d n s
  assume a: "ramdisk_ok size_bytes d" "0 < n" "s + n \<le> bd_total_sectors (ramdisk_bdev size_bytes)"
  then have b: "s + n \<le> size_bytes div 512" by (simp add: ramdisk_bdev_def)
  note acc = ramdisk_access [OF a(1,2) b]
  have c: "rd_priv d = Some size_bytes" "rd_block_size d = 512" using a(1) by (simp_all add: ramdisk_ok_def)
  let ?sz = "bd_block_size (ramdisk_bdev size_bytes)"
  show "block_dev_read (ramdisk_bdev size_bytes) s (int n) d = Some (map (rd_data d) [s * ?sz..<(s + n) * ?sz])"
    using a(2) b acc c by (simp add: block_dev_read_def ramdisk_bdev_def ramdisk_read_def Let_def add_mult_distrib)
  show "\<exists>d'. block_dev_write (ramdisk_bdev size_bytes) buf s (int n) d = Some d' \<and> ramdisk_ok size_bytes d' \<and>
      rd_data d' = put_bytes (s * ?sz) buf (rd_data d) \<and> rd_log d' = rd_log d @ [(s * ?sz, buf)]"
    if "length buf = n * ?sz" for buf
    using a(1,2) b acc c that by (simp add: block_dev_write_def ramdisk_bdev_def ramdisk_write_def ramdisk_ok_def Let_def)
qed

end
