(* ===== verification/Journal.thy ===== *)
theory Journal
  imports BlockDev
begin

text \<open>
  The write-ahead log \<open>kernel/journal.c\<close> on a block device. \<open>g_journal\<close> and its companions are the record \<open>journal\<close>; the arrays
  \<open>txn_fs_blocks\<close> and \<open>txn_data\<close> of the running transaction are one list of pairs. Records on disk are lists of bytes laid
  out as the packed structs are. Positions and sizes are natural numbers with the wrap-around of their C types written
  out. Whether a call of \<open>kmalloc\<close> succeeds is read from the field \<open>j_alloc\<close>, call by call. None is a loop that
  does not end or a read outside a buffer.
\<close>

section \<open>Records on disk\<close>

definition JOURNAL_MAGIC_SB :: nat where "JOURNAL_MAGIC_SB = 0x4A524E4C"
definition JOURNAL_MAGIC_DESC :: nat where "JOURNAL_MAGIC_DESC = 0x5452414E"
definition JOURNAL_MAGIC_COMMIT :: nat where "JOURNAL_MAGIC_COMMIT = 0x434F4D54"

text \<open>\<open>le k n\<close> are the \<open>k\<close> bytes of a field with value \<open>n\<close>; \<open>fld off k bs\<close> reads the field at offset \<open>off\<close>.\<close>

definition le :: "nat \<Rightarrow> nat \<Rightarrow> bytes" where
  "le k n = map (\<lambda>i. of_nat (n div 256 ^ i)) [0..<k]"

definition fld :: "nat \<Rightarrow> nat \<Rightarrow> bytes \<Rightarrow> nat" where
  "fld off k bs = bytes_val (take k (drop off bs))"

definition calc_checksum :: "bytes \<Rightarrow> u32" where
  "calc_checksum data = foldl (\<lambda>sum b. (push_bit 1 sum OR drop_bit 31 sum) XOR ucast b) 0 data"

definition add64 :: "nat \<Rightarrow> nat \<Rightarrow> nat" where
  "add64 a b = (a + b) mod 2 ^ 64"

definition sub64 :: "nat \<Rightarrow> nat \<Rightarrow> nat" where
  "sub64 a b = (a + (2 ^ 64 - b)) mod 2 ^ 64"

section \<open>State\<close>

record 'd journal =
  j_bdev :: "'d block_device"
  j_dev :: 'd
  j_block_size :: nat
  j_start :: nat
  j_blocks :: nat
  j_head :: nat
  j_tail :: nat
  j_sequence :: nat
  in_transaction :: bool
  txn_capacity :: nat
  txn :: "(nat \<times> bytes) list"
  j_dirty :: bool
  fs_total_blocks :: nat
  j_initialized :: bool
  j_alloc :: "nat \<Rightarrow> bool"
  j_nalloc :: nat

definition j_kmalloc :: "'d journal \<Rightarrow> 'd journal \<times> bool" where
  "j_kmalloc j = (j\<lparr> j_nalloc := j_nalloc j + 1 \<rparr>, j_alloc j (j_nalloc j))"

section \<open>Helpers\<close>

text \<open>The sectors of a device are not empty; the division by zero that they would cause is not modelled.\<close>

definition sectors_per_block :: "'d journal \<Rightarrow> nat" where
  "sectors_per_block j = j_block_size j div bd_block_size (j_bdev j)"

definition journal_to_device :: "nat \<Rightarrow> 'd journal \<Rightarrow> nat" where
  "journal_to_device offset j = add64 (j_start j) offset"

text \<open>The count of a request is \<open>sectors_per_block\<close> converted to int.\<close>

definition sector_count :: "'d journal \<Rightarrow> int" where
  "sector_count j = (if sectors_per_block j < 2 ^ 31 then int (sectors_per_block j) else int (sectors_per_block j) - 2 ^ 32)"

definition dev_write :: "nat \<Rightarrow> bytes \<Rightarrow> 'd journal \<Rightarrow> 'd journal \<times> int" where
  "dev_write sector data j =
     (case block_dev_write (j_bdev j) data sector (sector_count j) (j_dev j) of
        None \<Rightarrow> (j, - 1) | Some d \<Rightarrow> (j\<lparr> j_dev := d \<rparr>, 0))"

definition journal_write_block :: "nat \<Rightarrow> bytes \<Rightarrow> 'd journal \<Rightarrow> 'd journal \<times> int" where
  "journal_write_block offset data j = dev_write (journal_to_device offset j * sectors_per_block j mod 2 ^ 64) data j"

definition journal_read_block :: "nat \<Rightarrow> 'd journal \<Rightarrow> bytes option" where
  "journal_read_block offset j =
     block_dev_read (j_bdev j) (journal_to_device offset j * sectors_per_block j mod 2 ^ 64) (sector_count j) (j_dev j)"

definition jsb_fields :: "'d journal \<Rightarrow> bytes" where
  "jsb_fields j = le 4 JOURNAL_MAGIC_SB @ le 4 (j_block_size j) @ le 4 0 @ le 8 (j_start j) @ le 8 (j_blocks j) @ le 8 (j_head j) @
     le 8 (j_tail j) @ le 8 (j_sequence j) @ le 4 (if j_dirty j then 1 else 0)"

definition jsb_block :: "'d journal \<Rightarrow> bytes" where
  "jsb_block j = jsb_fields j @ le 4 (unat (calc_checksum (jsb_fields j))) @ replicate (j_block_size j - 60) 0"

definition write_jsb :: "'d journal \<Rightarrow> 'd journal \<times> int" where
  "write_jsb j = (let (j1, got) = j_kmalloc j in if \<not> got then (j1, - 1) else journal_write_block 0 (jsb_block j1) j1)"

definition free_transaction :: "'d journal \<Rightarrow> 'd journal" where
  "free_transaction j = j\<lparr> txn := [], txn_capacity := 0, in_transaction := False \<rparr>"

text \<open>The number of blocks to skip is computed in 32 bits.\<close>

definition oldest_end :: "'d journal \<Rightarrow> nat" where
  "oldest_end j =
     (case journal_read_block (j_tail j) j of
        None \<Rightarrow> add64 (j_tail j) 1
      | Some buf \<Rightarrow> if fld 0 4 buf = JOURNAL_MAGIC_DESC then add64 (j_tail j) ((1 + fld 12 4 buf + 1) mod 2 ^ 32) else add64 (j_tail j) 1)"

partial_function (option) evict_loop :: "nat \<Rightarrow> 'd journal \<Rightarrow> 'd journal option" where
  "evict_loop usable j =
     (if j_head j \<ge> add64 (j_tail j) usable
      then let (j1, got) = j_kmalloc j in if \<not> got then Some j1 else evict_loop usable (j1\<lparr> j_tail := oldest_end j1 \<rparr>)
      else Some j)"

definition advance_head :: "nat \<Rightarrow> 'd journal \<Rightarrow> 'd journal option" where
  "advance_head n j = do {
     j1 \<leftarrow> evict_loop (sub64 (j_blocks j) 1) (j\<lparr> j_head := add64 (j_head j) n \<rparr>);
     (let j2 = (if j_head j1 \<ge> j_blocks j1
                then j1\<lparr> j_head := j_head j1 - j_blocks j1, j_tail := (if j_tail j1 \<ge> j_blocks j1 then j_tail j1 - j_blocks j1 else j_tail j1) \<rparr>
                else j1)
      in Some (fst (write_jsb j2))) }"

section \<open>Transactions\<close>

definition HEADER_SIZE :: nat where "HEADER_SIZE = 36"
definition DATA_DESC_SIZE :: nat where "DATA_DESC_SIZE = 20"

definition journal_begin :: "nat \<Rightarrow> 'd journal \<Rightarrow> 'd journal \<times> int" where
  "journal_begin max_blocks j =
     (if \<not> j_initialized j then (j, - 1)
      else if in_transaction j then (j, - 1)
      else let m = (if max_blocks = 0 then 1 else max_blocks);
               desc_capacity = (j_block_size j - HEADER_SIZE) div DATA_DESC_SIZE;
               m' = (if m > desc_capacity then desc_capacity else m);
               (j1, got1) = j_kmalloc j;
               (j2, got2) = j_kmalloc j1
           in if \<not> got1 \<or> \<not> got2 then (j2, - 1)
              else (j2\<lparr> in_transaction := True, txn := [], txn_capacity := m' \<rparr>, 0))"

definition journal_write :: "nat \<Rightarrow> bytes \<Rightarrow> 'd journal \<Rightarrow> 'd journal \<times> int" where
  "journal_write fs_block data j =
     (if \<not> j_initialized j \<or> \<not> in_transaction j then (j, - 1)
      else if length (txn j) \<ge> txn_capacity j then (j, - 1)
      else let (j1, got) = j_kmalloc j
           in if \<not> got then (j1, - 1)
              else (j1\<lparr> txn := txn j @ [(fs_block mod 2 ^ 32, take (j_block_size j) data)] \<rparr>, 0))"

definition data_desc :: "nat \<times> bytes \<Rightarrow> bytes" where
  "data_desc e = le 8 (fst e) @ le 4 (unat (calc_checksum (snd e))) @ replicate 8 0"

definition desc_block :: "nat \<Rightarrow> 'd journal \<Rightarrow> bytes" where
  "desc_block seq j =
     (let n = length (txn j); hd0 = le 4 JOURNAL_MAGIC_DESC @ le 8 seq @ le 4 n;
          body = hd0 @ le 4 (unat (calc_checksum (hd0 @ le 4 0 @ replicate 12 0))) @ replicate 16 0 @ concat (map data_desc (txn j))
      in body @ replicate (j_block_size j - length body) 0)"

text \<open>
  The commit record is a local variable of 32 bytes of which a whole block is written; \<open>stack\<close> are the bytes that
  follow it in memory.
\<close>

definition commit_block :: "nat \<Rightarrow> bytes \<Rightarrow> 'd journal \<Rightarrow> bytes" where
  "commit_block seq stack j =
     (let hd0 = le 4 JOURNAL_MAGIC_COMMIT @ le 8 seq
      in hd0 @ le 4 (unat (calc_checksum (hd0 @ le 4 0 @ replicate 12 0))) @ replicate 16 0 @ take (j_block_size j - 32) stack)"

primrec write_data :: "nat \<Rightarrow> bytes list \<Rightarrow> 'd journal \<Rightarrow> 'd journal \<times> int" where
  "write_data pos [] j = (j, 0)"
| "write_data pos (d # ds) j =
     (let (j1, r) = journal_write_block pos d j in if r < 0 then (j1, - 1) else write_data (add64 pos 1) ds j1)"

text \<open>The sector of a block is computed in 32 bits.\<close>

primrec checkpoint :: "(nat \<times> bytes) list \<Rightarrow> 'd journal \<Rightarrow> 'd journal \<times> int" where
  "checkpoint [] j = (j, 0)"
| "checkpoint (e # es) j =
     (let (j1, r) = dev_write (fst e * sectors_per_block j mod 2 ^ 32) (snd e) j in if r < 0 then (j1, - 1) else checkpoint es j1)"

text \<open>The phases 1 to 4 of a commit.\<close>

definition commit_writes :: "nat \<Rightarrow> bytes \<Rightarrow> 'd journal \<Rightarrow> 'd journal \<times> int" where
  "commit_writes seq stack j =
     (let n = length (txn j);
          (j1, r1) = journal_write_block (j_head j) (desc_block seq j) j
      in if r1 < 0 then (j1, - 1)
         else let (j2, r2) = write_data (add64 (j_head j) 1) (map snd (txn j)) j1
              in if r2 < 0 then (j2, - 1)
                 else let (j3, r3) = journal_write_block (add64 (j_head j) (1 + n)) (commit_block seq stack j) j2
                      in if r3 < 0 then (j3, - 1) else checkpoint (txn j) j3)"

definition journal_commit :: "bytes \<Rightarrow> 'd journal \<Rightarrow> ('d journal \<times> int) option" where
  "journal_commit stack j =
     (if \<not> j_initialized j \<or> \<not> in_transaction j then Some (j, - 1)
      else if txn j = [] then Some (free_transaction j, 0)
      else let seq = j_sequence j;
               j0 = j\<lparr> j_sequence := add64 (j_sequence j) 1 \<rparr>;
               (j1, got) = j_kmalloc j0
           in if \<not> got then Some (free_transaction j1, - 1)
              else let j2 = fst (write_jsb (j1\<lparr> j_dirty := True \<rparr>));
                       (j3, r) = commit_writes seq stack j2
                   in if r < 0 then Some (free_transaction j3, - 1)
                      else do {
                        j4 \<leftarrow> advance_head (1 + length (txn j) + 1) j3;
                        Some (free_transaction (fst (write_jsb (j4\<lparr> j_dirty := False \<rparr>))), 0) })"

definition journal_rollback :: "'d journal \<Rightarrow> 'd journal \<times> int" where
  "journal_rollback j = (if \<not> j_initialized j \<or> \<not> in_transaction j then (j, - 1) else (free_transaction j, 0))"

section \<open>Recovery\<close>

text \<open>The replay of one transaction whose descriptor block is \<open>buf\<close>.\<close>

primrec replay_blocks :: "nat \<Rightarrow> bytes \<Rightarrow> nat list \<Rightarrow> 'd journal \<Rightarrow> 'd journal option" where
  "replay_blocks pos buf [] j = Some j"
| "replay_blocks pos buf (i # is) j =
     (let off = HEADER_SIZE + DATA_DESC_SIZE * i; fs_block = fld off 8 buf; csum = fld (off + 8) 4 buf
      in if off + DATA_DESC_SIZE > j_block_size j then None
         else if fs_total_blocks j > 0 \<and> fs_block \<ge> fs_total_blocks j then replay_blocks pos buf is j
         else let (j1, got) = j_kmalloc j
              in if \<not> got then replay_blocks pos buf is j1
                 else case journal_read_block (add64 pos (1 + i)) j1 of
                        None \<Rightarrow> replay_blocks pos buf is j1
                      | Some data \<Rightarrow>
                          if unat (calc_checksum data) = csum
                          then replay_blocks pos buf is (fst (dev_write (fs_block * sectors_per_block j1 mod 2 ^ 64) data j1))
                          else replay_blocks pos buf is j1)"

text \<open>
  The header and the commit record are read into the same buffer, so the sequence numbers that are compared are
  both those of the commit record.
\<close>

partial_function (option) recover_loop :: "nat \<Rightarrow> nat \<Rightarrow> 'd journal \<Rightarrow> 'd journal option" where
  "recover_loop pos end_pos j =
     (if pos < end_pos
      then case journal_read_block pos j of
             None \<Rightarrow> Some j
           | Some buf \<Rightarrow>
               if fld 0 4 buf \<noteq> JOURNAL_MAGIC_DESC then recover_loop (add64 pos 1) end_pos j
               else let commit_pos = add64 pos (1 + fld 12 4 buf)
                    in if commit_pos \<ge> end_pos then Some j
                       else case journal_read_block commit_pos j of
                              None \<Rightarrow> Some j
                            | Some cbuf \<Rightarrow>
                                if fld 0 4 cbuf \<noteq> JOURNAL_MAGIC_COMMIT \<or> fld 4 8 cbuf \<noteq> fld 4 8 cbuf
                                then recover_loop (add64 commit_pos 1) end_pos j
                                else case journal_read_block pos j of
                                       None \<Rightarrow> Some j
                                     | Some dbuf \<Rightarrow> do {
                                         j1 \<leftarrow> replay_blocks pos dbuf [0..<fld 12 4 dbuf] j;
                                         recover_loop (add64 commit_pos 1) end_pos j1 }
      else Some j)"

definition journal_recover :: "'d journal \<Rightarrow> ('d journal \<times> int) option" where
  "journal_recover j =
     (if \<not> j_initialized j then Some (j, - 1)
      else let (j1, got) = j_kmalloc j
           in if \<not> got then Some (j1, - 1)
              else do {
                j2 \<leftarrow> recover_loop (j_tail j1) (j_head j1) j1;
                Some (fst (write_jsb (j2\<lparr> j_tail := j_head j2, j_dirty := False \<rparr>)), 0) })"

section \<open>Start and queries\<close>

definition clear_handle :: "'d block_device \<Rightarrow> nat \<Rightarrow> nat \<Rightarrow> nat \<Rightarrow> nat \<Rightarrow> 'd journal \<Rightarrow> 'd journal" where
  "clear_handle bdev start blocks bsize fs_total j = j\<lparr> j_bdev := bdev, j_block_size := bsize, j_start := start, j_blocks := blocks,
     j_head := 0, j_tail := 0, j_sequence := 0, in_transaction := False, txn_capacity := 0, txn := [], j_dirty := False,
     fs_total_blocks := fs_total \<rparr>"

definition journal_init :: "'d block_device option \<Rightarrow> nat \<Rightarrow> nat \<Rightarrow> nat \<Rightarrow> nat \<Rightarrow> 'd journal \<Rightarrow> ('d journal \<times> int) option" where
  "journal_init bdev start blocks bsize fs_total j =
     (case bdev of
        None \<Rightarrow> Some (j, - 1)
      | Some b \<Rightarrow>
          if blocks < 8 \<or> bsize < 512 then Some (j, - 1)
          else let (j1, got) = j_kmalloc (clear_handle b start blocks bsize fs_total j)
               in if \<not> got then Some (j1, - 1)
                  else let found = (case journal_read_block 0 j1 of
                               Some buf \<Rightarrow> if fld 0 4 buf = JOURNAL_MAGIC_SB then Some buf else None | None \<Rightarrow> None)
                       in case found of
                            Some buf \<Rightarrow>
                              let j2 = j1\<lparr> j_head := fld 28 8 buf, j_tail := fld 36 8 buf, j_sequence := fld 44 8 buf, j_dirty := (fld 52 4 buf \<noteq> 0) \<rparr>
                              in if j_dirty j2
                                 then do {
                                   (j3, r) \<leftarrow> journal_recover j2;
                                   if r < 0 then Some (j3, - 1) else Some (j3\<lparr> j_initialized := True \<rparr>, 0) }
                                 else Some (j2\<lparr> j_initialized := True \<rparr>, 0)
                          | None \<Rightarrow>
                              let (j3, r) = write_jsb (j1\<lparr> j_head := 1, j_tail := 1, j_sequence := 1, j_dirty := False \<rparr>)
                              in if r < 0 then Some (j3, - 1) else Some (j3\<lparr> j_initialized := True \<rparr>, 0))"

definition journal_sync :: "'d journal \<Rightarrow> 'd journal \<times> int" where
  "journal_sync j = (if \<not> j_initialized j then (j, - 1) else write_jsb j)"

definition journal_get_stats :: "'d journal \<Rightarrow> nat \<times> nat \<times> nat \<times> bool" where
  "journal_get_stats j =
     (if \<not> j_initialized j then (0, 0, 0, False)
      else (j_blocks j, if j_head j \<ge> j_tail j then j_head j - j_tail j else 0, sub64 (j_sequence j) 1, j_dirty j))"

definition journal_is_clean :: "'d journal \<Rightarrow> bool" where
  "journal_is_clean j = (if \<not> j_initialized j then True else \<not> j_dirty j)"

end
