(* ===== verification/JournalDisk.thy ===== *)
theory JournalDisk
  imports Journal
begin

text \<open>
  The journal as a client of a disk. The first part reads back the fields of the records the journal writes. The second
  part views a disk as an array of blocks and shows, from the contract of a disk alone, which writes a commit
  performs and in which order.
\<close>

section \<open>Fields of the records\<close>

named_theorems layout

lemma length_le [simp]: "length (le k n) = k"
  by (simp add: le_def)

lemma le_Suc: "le (Suc k) n = of_nat n # le k (n div 256)"
proof -
  have "[0..<Suc k] = 0 # map Suc [0..<k]" by (simp add: upt_conv_Cons map_Suc_upt del: upt_Suc)
  then show ?thesis by (simp add: le_def div_mult2_eq comp_def del: upt_Suc)
qed

lemma bytes_val_le: "bytes_val (le k n) = n mod 256 ^ k"
proof (induction k arbitrary: n)
  case (Suc k)
  then show ?case by (simp add: le_Suc unat_of_nat mod_mult2_eq)
qed (simp add: le_def)

lemma fld_le [layout]: "fld 0 k (le k n @ xs) = n mod 256 ^ k"
  by (simp add: fld_def bytes_val_le)

lemma fld_skip [layout]: "length ys \<le> off \<Longrightarrow> fld off k (ys @ xs) = fld (off - length ys) k xs"
  by (simp add: fld_def)

lemma jsb_layout:
  shows "fld 0 4 (jsb_block j) = JOURNAL_MAGIC_SB" "fld 28 8 (jsb_block j) = j_head j mod 2 ^ 64"
    "fld 36 8 (jsb_block j) = j_tail j mod 2 ^ 64" "fld 44 8 (jsb_block j) = j_sequence j mod 2 ^ 64"
    "fld 52 4 (jsb_block j) = (if j_dirty j then 1 else 0)"
  by (simp_all add: jsb_block_def jsb_fields_def layout JOURNAL_MAGIC_SB_def)

lemma length_jsb_block: "60 \<le> j_block_size j \<Longrightarrow> length (jsb_block j) = j_block_size j"
  by (simp add: jsb_block_def jsb_fields_def)

lemma length_commit_block:
  "32 \<le> j_block_size j \<Longrightarrow> j_block_size j - 32 \<le> length stack \<Longrightarrow> length (commit_block seq stack j) = j_block_size j"
  by (simp add: commit_block_def Let_def)

lemma commit_magic: "fld 0 4 (commit_block seq stack j) = JOURNAL_MAGIC_COMMIT"
  by (simp add: commit_block_def Let_def layout JOURNAL_MAGIC_COMMIT_def)

lemma length_data_descs: "length (concat (map data_desc es)) = 20 * length es"
  by (induction es) (simp_all add: data_desc_def)

definition txn_room :: "'d journal \<Rightarrow> bool" where
  "txn_room j \<longleftrightarrow> HEADER_SIZE + DATA_DESC_SIZE * length (txn j) \<le> j_block_size j \<and> length (txn j) < 2 ^ 32"

lemma length_desc_block: "txn_room j \<Longrightarrow> length (desc_block seq j) = j_block_size j"
  by (simp add: desc_block_def Let_def length_data_descs txn_room_def HEADER_SIZE_def DATA_DESC_SIZE_def)

lemma desc_layout:
  shows "fld 0 4 (desc_block seq j) = JOURNAL_MAGIC_DESC" "txn_room j \<Longrightarrow> fld 12 4 (desc_block seq j) = length (txn j)"
  by (simp_all add: desc_block_def Let_def layout JOURNAL_MAGIC_DESC_def txn_room_def)

lemma drop_data_descs: "drop (20 * i) (concat (map data_desc es)) = concat (map data_desc (drop i es))"
proof (induction es arbitrary: i)
  case (Cons e es)
  have "length (data_desc e) = 20" by (simp add: data_desc_def)
  then show ?case using Cons by (cases i) simp_all
qed simp

lemma fld_data_desc:
  assumes "i < length es" "off < 20"
  shows "fld (20 * i + off) k (concat (map data_desc es) @ xs) = fld off k (data_desc (es ! i) @ concat (map data_desc (drop (Suc i) es)) @ xs)"
proof -
  have "drop (20 * i + off) (concat (map data_desc es) @ xs) = drop off (drop (20 * i) (concat (map data_desc es) @ xs))"
    by (metis add.commute drop_drop)
  also have "drop (20 * i) (concat (map data_desc es) @ xs) = concat (map data_desc (drop i es)) @ xs"
    using assms(1) by (simp add: drop_data_descs length_data_descs)
  also have "drop i es = es ! i # drop (Suc i) es" using assms(1) by (simp add: Cons_nth_drop_Suc)
  finally show ?thesis by (simp add: fld_def)
qed

lemma desc_entry_layout:
  assumes "i < length (txn j)"
  shows "fld (HEADER_SIZE + DATA_DESC_SIZE * i) 8 (desc_block seq j) = fst (txn j ! i) mod 2 ^ 64"
    "fld (HEADER_SIZE + DATA_DESC_SIZE * i + 8) 4 (desc_block seq j) = unat (calc_checksum (snd (txn j ! i)))"
proof -
  have "\<And>off k. off < 20 \<Longrightarrow> fld (36 + 20 * i + off) k (desc_block seq j) =
      fld (20 * i + off) k (concat (map data_desc (txn j)) @ replicate (j_block_size j - (36 + length (concat (map data_desc (txn j))))) 0)"
    by (simp add: desc_block_def Let_def layout)
  note eq = this fld_data_desc [OF assms]
  show "fld (HEADER_SIZE + DATA_DESC_SIZE * i) 8 (desc_block seq j) = fst (txn j ! i) mod 2 ^ 64"
    using eq(1) [of 0 8] eq(2) [of 0 8] by (simp add: HEADER_SIZE_def DATA_DESC_SIZE_def data_desc_def layout)
  have "unat (calc_checksum (snd (txn j ! i))) < 2 ^ 32" using unsigned_less [of "calc_checksum (snd (txn j ! i))"] by simp
  then show "fld (HEADER_SIZE + DATA_DESC_SIZE * i + 8) 4 (desc_block seq j) = unat (calc_checksum (snd (txn j ! i)))"
    using eq(1) [of 8 4] eq(2) [of 8 4] by (simp add: HEADER_SIZE_def DATA_DESC_SIZE_def data_desc_def layout)
qed

section \<open>Blocks and sequences of writes\<close>

text \<open>\<open>blk bs c i\<close> is block \<open>i\<close> of \<open>bs\<close> bytes of the contents \<open>c\<close>; a write is a block number with the new data.\<close>

definition blk :: "nat \<Rightarrow> mem \<Rightarrow> nat \<Rightarrow> bytes" where
  "blk bs c i = map c [i * bs..<(i + 1) * bs]"

definition do_write :: "nat \<times> bytes \<Rightarrow> mem \<Rightarrow> mem" where
  "do_write w c = put_bytes (fst w) (snd w) c"

definition at_bytes :: "nat \<Rightarrow> nat \<times> bytes \<Rightarrow> nat \<times> bytes" where
  "at_bytes bs w = (fst w * bs, snd w)"

lemma length_blk [simp]: "length (blk bs c i) = bs"
  by (simp add: blk_def)

lemma blk_do_write:
  assumes "length (snd w) = bs"
  shows "blk bs (do_write (at_bytes bs w) c) i = (if fst w = i then snd w else blk bs c i)"
proof (cases "fst w = i")
  case True
  then show ?thesis using assms by (auto simp: blk_def do_write_def at_bytes_def put_bytes_def intro!: nth_equalityI)
next
  case False
  then have "(fst w + 1) * bs \<le> i * bs \<or> (i + 1) * bs \<le> fst w * bs" by (intro disj_forward [OF _ mult_le_mono1 mult_le_mono1]) auto
  then show ?thesis using False assms by (auto simp: blk_def do_write_def at_bytes_def put_bytes_def)
qed

lemma blk_writes:
  assumes "\<forall>w \<in> set ws. length (snd w) = bs"
  shows "blk bs (fold do_write (map (at_bytes bs) ws) c) i = (case map_of (rev ws) i of Some d \<Rightarrow> d | None \<Rightarrow> blk bs c i)"
  using assms
proof (induction ws rule: rev_induct)
  case (snoc w ws)
  then show ?case by (cases w) (auto simp: blk_do_write)
qed simp

section \<open>The writes of a commit\<close>

definition wrote :: "('d \<Rightarrow> mem) \<Rightarrow> ('d \<Rightarrow> (nat \<times> bytes) list) \<Rightarrow> nat \<Rightarrow> (nat \<times> bytes) list \<Rightarrow> 'd \<Rightarrow> 'd \<Rightarrow> bool" where
  "wrote content log bs ws d d' \<longleftrightarrow>
     content d' = fold do_write (map (at_bytes bs) ws) (content d) \<and> log d' = log d @ map (at_bytes bs) ws"

lemma wrote_nil: "wrote content log bs [] d d"
  by (simp add: wrote_def)

lemma wrote_append: "wrote content log bs ws d d' \<Longrightarrow> wrote content log bs vs d' d'' \<Longrightarrow> wrote content log bs (ws @ vs) d d''"
  by (simp add: wrote_def)

text \<open>
  A journal that is in use on a device that is large enough for it, with memory for its buffers; and a transaction
  that fits between the head and the end of the journal area, with its blocks outside of that area.
\<close>

definition journal_ready :: "'d journal \<Rightarrow> bool" where
  "journal_ready j \<longleftrightarrow> (\<forall>n. j_alloc j n) \<and> 512 \<le> j_block_size j \<and> j_block_size j = sectors_per_block j * bd_block_size (j_bdev j) \<and>
     sectors_per_block j < 2 ^ 31 \<and> 8 \<le> j_blocks j \<and> (j_start j + j_blocks j) * sectors_per_block j \<le> bd_total_sectors (j_bdev j)"

definition txn_fits :: "'d journal \<Rightarrow> bool" where
  "txn_fits j \<longleftrightarrow> txn_room j \<and> txn j \<noteq> [] \<and> 1 \<le> j_head j \<and> j_head j + length (txn j) + 2 < j_blocks j \<and> 1 \<le> j_tail j \<and>
     j_tail j \<le> j_head j \<and>
     (\<forall>e \<in> set (txn j). length (snd e) = j_block_size j \<and> (fst e + 1) * sectors_per_block j \<le> bd_total_sectors (j_bdev j) \<and>
        fst e * sectors_per_block j < 2 ^ 32 \<and> (fst e < j_start j \<or> j_start j + j_blocks j \<le> fst e))"

text \<open>The journal after a commit, and the writes of its phases.\<close>

definition dirty_journal :: "'d journal \<Rightarrow> 'd journal" where
  "dirty_journal j = j\<lparr> j_sequence := j_sequence j + 1, j_dirty := True \<rparr>"

definition moved_journal :: "'d journal \<Rightarrow> 'd journal" where
  "moved_journal j = (dirty_journal j)\<lparr> j_head := j_head j + length (txn j) + 2 \<rparr>"

definition clean_journal :: "'d journal \<Rightarrow> 'd journal" where
  "clean_journal j = (moved_journal j)\<lparr> j_dirty := False \<rparr>"

definition log_ws :: "nat \<Rightarrow> bytes \<Rightarrow> 'd journal \<Rightarrow> (nat \<times> bytes) list" where
  "log_ws seq stack j = (let p = j_start j + j_head j in
     zip [p..<p + length (txn j) + 2] (desc_block seq j # map snd (txn j) @ [commit_block seq stack j]))"

definition commit_ws :: "bytes \<Rightarrow> 'd journal \<Rightarrow> (nat \<times> bytes) list" where
  "commit_ws stack j = (j_start j, jsb_block (dirty_journal j)) # log_ws (j_sequence j) stack j @ txn j @
     [(j_start j, jsb_block (moved_journal j)), (j_start j, jsb_block (clean_journal j))]"

lemma log_ws_phases:
  "log_ws seq stack j = (let p = j_start j + j_head j; n = length (txn j) in
     (p, desc_block seq j) # zip [p + 1..<p + 1 + n] (map snd (txn j)) @ [(p + 1 + n, commit_block seq stack j)])"
proof -
  have "[p..<p + n + 2] = p # [p + 1..<p + 1 + n] @ [p + 1 + n]" for p n :: nat
    by (simp add: upt_conv_Cons)
  then show ?thesis by (simp add: log_ws_def Let_def del: upt_Suc)
qed

lemma block_updates [simp]:
  "jsb_block (j\<lparr> j_dev := d \<rparr>) = jsb_block j" "txn_fits (j\<lparr> j_dev := d \<rparr>) = txn_fits j"
  "jsb_block (j\<lparr> j_nalloc := k \<rparr>) = jsb_block j" "txn_fits (j\<lparr> j_nalloc := k \<rparr>) = txn_fits j"
  "txn_fits (j\<lparr> j_sequence := k \<rparr>) = txn_fits j"
  "txn_fits (j\<lparr> j_dirty := f \<rparr>) = txn_fits j"
  "desc_block seq (j\<lparr> j_dev := d \<rparr>) = desc_block seq j" "commit_block seq stack (j\<lparr> j_dev := d \<rparr>) = commit_block seq stack j"
  "sectors_per_block (j\<lparr> j_dev := d \<rparr>) = sectors_per_block j" "journal_ready (j\<lparr> j_dev := d \<rparr>) = journal_ready j" "txn_room (j\<lparr> j_dev := d \<rparr>) = txn_room j"
  "desc_block seq (j\<lparr> j_nalloc := k \<rparr>) = desc_block seq j" "commit_block seq stack (j\<lparr> j_nalloc := k \<rparr>) = commit_block seq stack j"
  "sectors_per_block (j\<lparr> j_nalloc := k \<rparr>) = sectors_per_block j" "journal_ready (j\<lparr> j_nalloc := k \<rparr>) = journal_ready j" "txn_room (j\<lparr> j_nalloc := k \<rparr>) = txn_room j"
  "desc_block seq (j\<lparr> j_sequence := k \<rparr>) = desc_block seq j" "commit_block seq stack (j\<lparr> j_sequence := k \<rparr>) = commit_block seq stack j"
  "sectors_per_block (j\<lparr> j_sequence := k \<rparr>) = sectors_per_block j" "journal_ready (j\<lparr> j_sequence := k \<rparr>) = journal_ready j" "txn_room (j\<lparr> j_sequence := k \<rparr>) = txn_room j"
  "desc_block seq (j\<lparr> j_dirty := f \<rparr>) = desc_block seq j" "commit_block seq stack (j\<lparr> j_dirty := f \<rparr>) = commit_block seq stack j"
  "sectors_per_block (j\<lparr> j_dirty := f \<rparr>) = sectors_per_block j" "journal_ready (j\<lparr> j_dirty := f \<rparr>) = journal_ready j" "txn_room (j\<lparr> j_dirty := f \<rparr>) = txn_room j"
  "desc_block seq (j\<lparr> j_head := k \<rparr>) = desc_block seq j" "commit_block seq stack (j\<lparr> j_head := k \<rparr>) = commit_block seq stack j"
  "sectors_per_block (j\<lparr> j_head := k \<rparr>) = sectors_per_block j" "journal_ready (j\<lparr> j_head := k \<rparr>) = journal_ready j" "txn_room (j\<lparr> j_head := k \<rparr>) = txn_room j"
  "desc_block seq (j\<lparr> j_tail := k \<rparr>) = desc_block seq j" "commit_block seq stack (j\<lparr> j_tail := k \<rparr>) = commit_block seq stack j"
  "sectors_per_block (j\<lparr> j_tail := k \<rparr>) = sectors_per_block j" "journal_ready (j\<lparr> j_tail := k \<rparr>) = journal_ready j" "txn_room (j\<lparr> j_tail := k \<rparr>) = txn_room j"
  by (simp_all add: jsb_block_def jsb_fields_def desc_block_def commit_block_def sectors_per_block_def journal_ready_def txn_room_def txn_fits_def)

context disk
begin

lemma dev_write_ok:
  assumes "journal_ready j" "j_bdev j = b" "ok (j_dev j)" "(i + 1) * sectors_per_block j \<le> bd_total_sectors b" "length buf = j_block_size j"
  shows "\<exists>d. dev_write (i * sectors_per_block j) buf j = (j\<lparr> j_dev := d \<rparr>, 0) \<and> ok d \<and> wrote content log (j_block_size j) [(i, buf)] (j_dev j) d"
proof -
  let ?n = "sectors_per_block j"
  have n: "j_block_size j = ?n * bd_block_size b" "0 < ?n" "?n < 2 ^ 31" using assms(1,2) by (auto simp: journal_ready_def intro!: Nat.gr0I)
  have "i * ?n + ?n \<le> bd_total_sectors b" "length buf = ?n * bd_block_size b" using assms(4,5) n(1) by simp_all
  then obtain d where d: "block_dev_write b buf (i * ?n) (int ?n) (j_dev j) = Some d" "ok d"
    "content d = put_bytes (i * ?n * bd_block_size b) buf (content (j_dev j))" "log d = log (j_dev j) @ [(i * ?n * bd_block_size b, buf)]"
    using write_law [OF assms(3) n(2)] by blast
  then show ?thesis using n by (intro exI [of _ d]) (simp add: dev_write_def assms(2) sector_count_def wrote_def do_write_def at_bytes_def mult.assoc)
qed

lemma device_bound:
  assumes "journal_ready j" "j_bdev j = b" "ok (j_dev j)" "(i + 1) * sectors_per_block j \<le> bd_total_sectors b"
  shows "i < 2 ^ 63" "i * sectors_per_block j mod 2 ^ 64 = i * sectors_per_block j"
proof -
  have "0 < sectors_per_block j" using assms(1) by (auto simp: journal_ready_def intro!: Nat.gr0I)
  moreover have "(i + 1) * sectors_per_block j < 2 ^ 63" using assms(4) total_law [OF assms(3)] by linarith
  ultimately have "i * sectors_per_block j < 2 ^ 63" "i \<le> i * sectors_per_block j" by simp_all
  then show "i < 2 ^ 63" "i * sectors_per_block j mod 2 ^ 64 = i * sectors_per_block j" by (linarith, simp)
qed

lemma journal_area:
  assumes "journal_ready j" "j_bdev j = b" "p < j_blocks j"
  shows "(j_start j + p + 1) * sectors_per_block j \<le> bd_total_sectors b"
proof -
  have "(j_start j + p + 1) * sectors_per_block j \<le> (j_start j + j_blocks j) * sectors_per_block j" using assms(3) by (intro mult_le_mono1) simp
  then show ?thesis using assms(1,2) by (auto simp: journal_ready_def)
qed

lemma journal_sector:
  assumes "journal_ready j" "j_bdev j = b" "ok (j_dev j)" "p < j_blocks j"
  shows "journal_to_device p j * sectors_per_block j mod 2 ^ 64 = (j_start j + p) * sectors_per_block j" "p < 2 ^ 63"
proof -
  note area = device_bound [OF assms(1,2,3) journal_area [OF assms(1,2,4)]]
  then show "journal_to_device p j * sectors_per_block j mod 2 ^ 64 = (j_start j + p) * sectors_per_block j" "p < 2 ^ 63"
    by (simp_all add: journal_to_device_def add64_def)
qed

lemma journal_write_block_ok:
  assumes "journal_ready j" "j_bdev j = b" "ok (j_dev j)" "p < j_blocks j" "length buf = j_block_size j"
  shows "\<exists>d. journal_write_block p buf j = (j\<lparr> j_dev := d \<rparr>, 0) \<and> ok d \<and> wrote content log (j_block_size j) [(j_start j + p, buf)] (j_dev j) d"
  using dev_write_ok [OF assms(1-3) journal_area [OF assms(1,2,4)] assms(5)] journal_sector [OF assms(1-4)]
  by (simp add: journal_write_block_def)

lemma journal_read_block_ok:
  assumes "journal_ready j" "j_bdev j = b" "ok (j_dev j)" "p < j_blocks j"
  shows "journal_read_block p j = Some (blk (j_block_size j) (content (j_dev j)) (j_start j + p))"
proof -
  let ?n = "sectors_per_block j"
  have n: "j_block_size j = ?n * bd_block_size b" "0 < ?n" "?n < 2 ^ 31" using assms(1,2) by (auto simp: journal_ready_def intro!: Nat.gr0I)
  have "(j_start j + p) * ?n + ?n \<le> bd_total_sectors b" using journal_area [OF assms(1,2,4)] by (simp add: algebra_simps)
  from read_law [OF assms(3) n(2) this] show ?thesis using journal_sector [OF assms] n
    by (simp add: journal_read_block_def assms(2) sector_count_def blk_def algebra_simps)
qed

lemma write_jsb_ok:
  assumes "journal_ready j" "j_bdev j = b" "ok (j_dev j)"
  shows "\<exists>d. write_jsb j = (j\<lparr> j_nalloc := j_nalloc j + 1, j_dev := d \<rparr>, 0) \<and> ok d \<and>
    wrote content log (j_block_size j) [(j_start j, jsb_block j)] (j_dev j) d"
proof -
  have "j_alloc j (j_nalloc j)" "0 < j_blocks j" "length (jsb_block j) = j_block_size j"
    using assms(1) by (auto simp: journal_ready_def length_jsb_block)
  then show ?thesis using journal_write_block_ok [of "j\<lparr> j_nalloc := j_nalloc j + 1 \<rparr>" 0 "jsb_block j"] assms
    by (simp add: write_jsb_def j_kmalloc_def Let_def)
qed

lemma write_data_ok:
  assumes "journal_ready j" "j_bdev j = b" "ok (j_dev j)" "p + length ds < j_blocks j" "\<forall>d \<in> set ds. length d = j_block_size j"
  shows "\<exists>d. write_data p ds j = (j\<lparr> j_dev := d \<rparr>, 0) \<and> ok d \<and>
    wrote content log (j_block_size j) (zip [j_start j + p..<j_start j + p + length ds] ds) (j_dev j) d"
  using assms
proof (induction ds arbitrary: p j)
  case Nil
  then show ?case by (intro exI [of _ "j_dev j"]) (simp add: wrote_nil)
next
  case (Cons x ds)
  then obtain d where d: "journal_write_block p x j = (j\<lparr> j_dev := d \<rparr>, 0)" "ok d" "wrote content log (j_block_size j) [(j_start j + p, x)] (j_dev j) d"
    using journal_write_block_ok [of j p x] by auto
  have p1: "add64 p 1 = p + 1" using journal_sector(2) [OF Cons.prems(1-3), of "p + 1"] Cons.prems(4) by (simp add: add64_def)
  obtain d' where d': "write_data (p + 1) ds (j\<lparr> j_dev := d \<rparr>) = (j\<lparr> j_dev := d' \<rparr>, 0)" "ok d'"
    "wrote content log (j_block_size j) (zip [j_start j + (p + 1)..<j_start j + (p + 1) + length ds] ds) d d'"
    using Cons.IH [of "j\<lparr> j_dev := d \<rparr>" "p + 1"] Cons.prems d(2) by auto
  have "[j_start j + p..<j_start j + p + length (x # ds)] = (j_start j + p) # [j_start j + (p + 1)..<j_start j + (p + 1) + length ds]"
    by (simp add: upt_conv_Cons del: upt_Suc)
  then show ?case using d(1) d'(1,2) p1 wrote_append [OF d(3) d'(3)] by (intro exI [of _ d']) (simp del: upt_Suc)
qed

lemma checkpoint_ok:
  assumes "journal_ready j" "j_bdev j = b" "ok (j_dev j)"
    and "\<forall>e \<in> set es. length (snd e) = j_block_size j \<and> (fst e + 1) * sectors_per_block j \<le> bd_total_sectors b \<and> fst e * sectors_per_block j < 2 ^ 32"
  shows "\<exists>d. checkpoint es j = (j\<lparr> j_dev := d \<rparr>, 0) \<and> ok d \<and> wrote content log (j_block_size j) es (j_dev j) d"
  using assms
proof (induction es arbitrary: j)
  case Nil
  then show ?case by (intro exI [of _ "j_dev j"]) (simp add: wrote_nil)
next
  case (Cons e es)
  then obtain d where d: "dev_write (fst e * sectors_per_block j) (snd e) j = (j\<lparr> j_dev := d \<rparr>, 0)" "ok d"
    "wrote content log (j_block_size j) [(fst e, snd e)] (j_dev j) d"
    using dev_write_ok [of j "fst e" "snd e"] by auto
  obtain d' where d': "checkpoint es (j\<lparr> j_dev := d \<rparr>) = (j\<lparr> j_dev := d' \<rparr>, 0)" "ok d'" "wrote content log (j_block_size j) es d d'"
    using Cons.IH [of "j\<lparr> j_dev := d \<rparr>"] Cons.prems d(2) by auto
  have "fst e * sectors_per_block j mod 2 ^ 32 = fst e * sectors_per_block j" using Cons.prems(4) by simp
  then show ?case using d(1) d'(1,2) wrote_append [OF d(3) d'(3)] by (intro exI [of _ d']) simp
qed

lemma commit_writes_ok:
  assumes "journal_ready j" "j_bdev j = b" "ok (j_dev j)" "txn_fits j" "j_block_size j - 32 \<le> length stack"
  shows "\<exists>d. commit_writes seq stack j = (j\<lparr> j_dev := d \<rparr>, 0) \<and> ok d \<and> wrote content log (j_block_size j) (log_ws seq stack j @ txn j) (j_dev j) d"
proof -
  let ?n = "length (txn j)"
  have fit: "txn_room j" "j_head j + ?n + 2 < j_blocks j" and bs: "512 \<le> j_block_size j" using assms(1,4) by (simp_all add: txn_fits_def journal_ready_def)
  have ent: "\<forall>e \<in> set (txn j). length (snd e) = j_block_size j \<and> (fst e + 1) * sectors_per_block j \<le> bd_total_sectors b \<and> fst e * sectors_per_block j < 2 ^ 32"
    using assms(2,4) by (auto simp: txn_fits_def)
  have pos: "add64 (j_head j) 1 = j_head j + 1" "add64 (j_head j) (1 + ?n) = j_head j + (1 + ?n)"
    using journal_sector(2) [OF assms(1-3), of "j_head j + (1 + ?n)"] fit(2) by (simp_all add: add64_def)
  obtain d1 where d1: "journal_write_block (j_head j) (desc_block seq j) j = (j\<lparr> j_dev := d1 \<rparr>, 0)" "ok d1"
    "wrote content log (j_block_size j) [(j_start j + j_head j, desc_block seq j)] (j_dev j) d1"
    using journal_write_block_ok [OF assms(1-3), of "j_head j" "desc_block seq j"] length_desc_block [OF fit(1)] fit(2) by auto
  obtain d2 where d2: "write_data (j_head j + 1) (map snd (txn j)) (j\<lparr> j_dev := d1 \<rparr>) = (j\<lparr> j_dev := d2 \<rparr>, 0)" "ok d2"
    "wrote content log (j_block_size j) (zip [j_start j + (j_head j + 1)..<j_start j + (j_head j + 1) + ?n] (map snd (txn j))) d1 d2"
    using write_data_ok [of "j\<lparr> j_dev := d1 \<rparr>" "j_head j + 1" "map snd (txn j)"] assms(1,2) d1(2) fit(2) ent by auto
  obtain d3 where d3: "journal_write_block (j_head j + (1 + ?n)) (commit_block seq stack j) (j\<lparr> j_dev := d2 \<rparr>) = (j\<lparr> j_dev := d3 \<rparr>, 0)" "ok d3"
    "wrote content log (j_block_size j) [(j_start j + (j_head j + (1 + ?n)), commit_block seq stack j)] d2 d3"
    using journal_write_block_ok [of "j\<lparr> j_dev := d2 \<rparr>" "j_head j + (1 + ?n)" "commit_block seq stack j"] assms(1,2) d2(2) fit(2)
      length_commit_block [of j stack seq] assms(5) bs by auto
  obtain d4 where d4: "checkpoint (txn j) (j\<lparr> j_dev := d3 \<rparr>) = (j\<lparr> j_dev := d4 \<rparr>, 0)" "ok d4" "wrote content log (j_block_size j) (txn j) d3 d4"
    using checkpoint_ok [of "j\<lparr> j_dev := d3 \<rparr>" "txn j"] assms(1,2) d3(2) ent by auto
  show ?thesis
    using d1(1) d2(1) d3(1) d4(1,2) wrote_append [OF d1(3) wrote_append [OF d2(3) wrote_append [OF d3(3) d4(3)]]]
    by (intro exI [of _ d4]) (simp add: commit_writes_def log_ws_phases pos Let_def add.assoc del: One_nat_def add_Suc add_Suc_right)
qed

lemma advance_head_ok:
  assumes "journal_ready j" "j_bdev j = b" "ok (j_dev j)" "1 \<le> j_tail j" "j_tail j \<le> j_head j" "j_head j + n < j_blocks j"
  shows "\<exists>d. advance_head n j = Some (j\<lparr> j_head := j_head j + n, j_nalloc := j_nalloc j + 1, j_dev := d \<rparr>) \<and> ok d \<and>
    wrote content log (j_block_size j) [(j_start j, jsb_block (j\<lparr> j_head := j_head j + n \<rparr>))] (j_dev j) d"
proof -
  let ?j = "j\<lparr> j_head := j_head j + n \<rparr>"
  have lt: "j_blocks j - 1 < 2 ^ 63" using journal_sector(2) [OF assms(1-3), of "j_blocks j - 1"] assms(6) by simp
  have "sub64 (j_blocks j) 1 = j_blocks j - 1" "add64 (j_head j) n = j_head j + n" using lt assms(6) by (auto simp: sub64_def add64_def mod_if)
  moreover have "add64 (j_tail j) (j_blocks j - 1) = j_tail j + (j_blocks j - 1)" using lt assms(5,6) by (simp add: add64_def)
  moreover have "evict_loop (j_blocks j - 1) ?j = Some ?j" using calculation(3) assms(4,6) by (subst evict_loop.simps) auto
  moreover obtain d where "write_jsb ?j = (?j\<lparr> j_nalloc := j_nalloc j + 1, j_dev := d \<rparr>, 0)" "ok d"
    "wrote content log (j_block_size j) [(j_start j, jsb_block ?j)] (j_dev j) d"
    using write_jsb_ok [of ?j] assms(1-3) by auto
  ultimately show ?thesis using assms(6) by (intro exI [of _ d]) (simp add: advance_head_def Let_def)
qed

lemma journal_commit_ok:
  assumes "journal_ready j" "j_bdev j = b" "ok (j_dev j)" "txn_fits j" "j_block_size j - 32 \<le> length stack"
    and "j_initialized j" "in_transaction j" "j_sequence j + 1 < 2 ^ 64"
  shows "\<exists>d k. journal_commit stack j = Some (free_transaction ((clean_journal j)\<lparr> j_nalloc := k, j_dev := d \<rparr>), 0) \<and> ok d \<and>
    wrote content log (j_block_size j) (commit_ws stack j) (j_dev j) d"
proof -
  let ?n = "length (txn j)" and ?w = "wrote content log (j_block_size j)"
  note fit = assms(4) [unfolded txn_fits_def]
  have seq: "add64 (j_sequence j) 1 = j_sequence j + 1" using assms(8) by (simp add: add64_def)
  have al: "j_alloc j i" for i using assms(1) by (simp add: journal_ready_def)
  obtain d1 where d1: "write_jsb ((dirty_journal j)\<lparr> j_nalloc := j_nalloc j + 1 \<rparr>) = ((dirty_journal j)\<lparr> j_nalloc := j_nalloc j + 2, j_dev := d1 \<rparr>, 0)" "ok d1"
    "?w [(j_start j, jsb_block (dirty_journal j))] (j_dev j) d1"
    using write_jsb_ok [of "(dirty_journal j)\<lparr> j_nalloc := j_nalloc j + 1 \<rparr>"] assms(1-3) by (auto simp: dirty_journal_def)
  let ?j1 = "(dirty_journal j)\<lparr> j_nalloc := j_nalloc j + 2, j_dev := d1 \<rparr>"
  obtain d2 where d2: "commit_writes (j_sequence j) stack ?j1 = ((dirty_journal j)\<lparr> j_nalloc := j_nalloc j + 2, j_dev := d2 \<rparr>, 0)" "ok d2"
    "?w (log_ws (j_sequence j) stack j @ txn j) d1 d2"
    using commit_writes_ok [of ?j1 stack "j_sequence j"] assms(1,2,4,5) d1(2)
    by (auto simp: dirty_journal_def log_ws_def)
  obtain d3 where d3: "advance_head (1 + ?n + 1) ((dirty_journal j)\<lparr> j_nalloc := j_nalloc j + 2, j_dev := d2 \<rparr>) = Some ((moved_journal j)\<lparr> j_nalloc := j_nalloc j + 2 + 1, j_dev := d3 \<rparr>)" "ok d3"
    "?w [(j_start j, jsb_block (moved_journal j))] d2 d3"
    using advance_head_ok [of "(dirty_journal j)\<lparr> j_nalloc := j_nalloc j + 2, j_dev := d2 \<rparr>" "1 + ?n + 1"] assms(1,2) d2(2) fit
    by (auto simp: dirty_journal_def moved_journal_def jsb_block_def jsb_fields_def)
  obtain d4 where d4: "write_jsb ((clean_journal j)\<lparr> j_nalloc := j_nalloc j + 2 + 1, j_dev := d3 \<rparr>) = ((clean_journal j)\<lparr> j_nalloc := j_nalloc j + 2 + 1 + 1, j_dev := d4 \<rparr>, 0)"
    "ok d4" "?w [(j_start j, jsb_block (clean_journal j))] d3 d4"
    using write_jsb_ok [of "(clean_journal j)\<lparr> j_nalloc := j_nalloc j + 2 + 1, j_dev := d3 \<rparr>"] assms(1,2) d3(2)
    by (auto simp: dirty_journal_def moved_journal_def clean_journal_def)
  have eqs: "j\<lparr> j_sequence := j_sequence j + 1, j_nalloc := j_nalloc j + 1, j_dirty := True \<rparr> = (dirty_journal j)\<lparr> j_nalloc := j_nalloc j + 1 \<rparr>"
    "\<And>k d. (moved_journal j)\<lparr> j_nalloc := k, j_dev := d, j_dirty := False \<rparr> = (clean_journal j)\<lparr> j_nalloc := k, j_dev := d \<rparr>"
    by (simp_all add: dirty_journal_def clean_journal_def)
  have "journal_commit stack j = Some (free_transaction ((clean_journal j)\<lparr> j_nalloc := j_nalloc j + 2 + 1 + 1, j_dev := d4 \<rparr>), 0)"
    using assms(6,7) fit d4(1)
    by (simp add: journal_commit_def j_kmalloc_def Let_def seq al eqs d1(1) d2(1) d3(1) del: One_nat_def add_2_eq_Suc add_2_eq_Suc')
  moreover have "?w (commit_ws stack j) (j_dev j) d4"
    using wrote_append [OF d1(3) wrote_append [OF d2(3) wrote_append [OF d3(3) d4(3)]]] by (simp add: commit_ws_def)
  ultimately show ?thesis using d4(2) by blast
qed

end

end
