(* ===== verification/JournalRecover.thy ===== *)
theory JournalRecover
  imports JournalDisk
begin

text \<open>
  What the journal area says: \<open>logged\<close> is one committed transaction, \<open>logged_chain\<close> a sequence of them. A commit adds
  its transaction to the chain, and recovery replays the whole chain in order.
\<close>

definition logged :: "nat \<Rightarrow> mem \<Rightarrow> nat \<Rightarrow> (nat \<times> bytes) list \<Rightarrow> bool" where
  "logged bs c q es \<longleftrightarrow> HEADER_SIZE + DATA_DESC_SIZE * length es \<le> bs \<and>
     fld 0 4 (blk bs c q) = JOURNAL_MAGIC_DESC \<and> fld 12 4 (blk bs c q) = length es \<and>
     (\<forall>i < length es. fld (HEADER_SIZE + DATA_DESC_SIZE * i) 8 (blk bs c q) = fst (es ! i) \<and>
        fld (HEADER_SIZE + DATA_DESC_SIZE * i + 8) 4 (blk bs c q) = unat (calc_checksum (snd (es ! i))) \<and>
        blk bs c (q + 1 + i) = snd (es ! i)) \<and>
     fld 0 4 (blk bs c (q + 1 + length es)) = JOURNAL_MAGIC_COMMIT"

primrec logged_chain :: "nat \<Rightarrow> mem \<Rightarrow> nat \<Rightarrow> (nat \<times> bytes) list list \<Rightarrow> nat \<Rightarrow> bool" where
  "logged_chain bs c q [] e \<longleftrightarrow> q = e"
| "logged_chain bs c q (es # ess) e \<longleftrightarrow> logged bs c q es \<and> logged_chain bs c (q + length es + 2) ess e"

text \<open>An entry that recovery accepts and that does not touch the journal area.\<close>

definition entry_ok :: "'d journal \<Rightarrow> nat \<times> bytes \<Rightarrow> bool" where
  "entry_ok j e \<longleftrightarrow> length (snd e) = j_block_size j \<and> (fst e + 1) * sectors_per_block j \<le> bd_total_sectors (j_bdev j) \<and>
     (fst e < j_start j \<or> j_start j + j_blocks j \<le> fst e) \<and> (fs_total_blocks j = 0 \<or> fst e < fs_total_blocks j)"

lemma entry_ok_updates [simp]:
  "entry_ok (j\<lparr> j_dev := d \<rparr>) = entry_ok j" "entry_ok (j\<lparr> j_nalloc := k \<rparr>) = entry_ok j" "entry_ok (j\<lparr> j_head := k \<rparr>) = entry_ok j"
  "entry_ok (j\<lparr> j_sequence := k \<rparr>) = entry_ok j" "entry_ok (j\<lparr> j_dirty := f \<rparr>) = entry_ok j" "entry_ok (free_transaction j) = entry_ok j"
  by (simp_all add: entry_ok_def fun_eq_iff sectors_per_block_def free_transaction_def)

lemma logged_chain_le: "logged_chain bs c q ess e \<Longrightarrow> q \<le> e"
  by (induction ess arbitrary: q) (simp, fastforce)

lemma logged_cong:
  assumes "\<And>i. q \<le> i \<Longrightarrow> i < q + length es + 2 \<Longrightarrow> blk bs c' i = blk bs c i" "logged bs c q es"
  shows "logged bs c' q es"
  using assms by (simp add: logged_def)

lemma logged_chain_cong:
  assumes "\<And>i. q \<le> i \<Longrightarrow> i < e \<Longrightarrow> blk bs c' i = blk bs c i" "logged_chain bs c q ess e"
  shows "logged_chain bs c' q ess e"
  using assms
proof (induction ess arbitrary: q)
  case (Cons es ess)
  then have "q + length es + 2 \<le> e" using logged_chain_le by auto
  then show ?case using Cons logged_cong [of q es bs c' c] by simp
qed simp

lemma logged_chain_snoc: "logged_chain bs c q ess e \<Longrightarrow> logged bs c e es \<Longrightarrow> logged_chain bs c q (ess @ [es]) (e + length es + 2)"
  by (induction ess arbitrary: q) simp_all

text \<open>The blocks of the journal area after writes that stay outside of it.\<close>

lemma blk_outside:
  assumes "wrote content log bs ws d d'" "\<forall>w \<in> set ws. length (snd w) = bs \<and> fst w \<noteq> i"
  shows "blk bs (content d') i = blk bs (content d) i"
proof -
  have "map_of (rev ws) i = None" using assms(2) by (force simp: map_of_eq_None_iff)
  then show ?thesis using assms by (simp add: wrote_def blk_writes)
qed

context disk
begin

lemma replay_blocks_ok:
  assumes "journal_ready j" "j_bdev j = b" "ok (j_dev j)" "\<forall>i \<in> set is. i < length es" "\<forall>e \<in> set es. entry_ok j e"
    and "p + length es + 2 \<le> j_blocks j" "logged (j_block_size j) (content (j_dev j)) (j_start j + p) es"
    and "buf = blk (j_block_size j) (content (j_dev j)) (j_start j + p)"
  shows "\<exists>d k. replay_blocks p buf is j = Some (j\<lparr> j_nalloc := k, j_dev := d \<rparr>) \<and> ok d \<and>
    wrote content log (j_block_size j) (map ((!) es) is) (j_dev j) d"
  using assms
proof (induction "is" arbitrary: j)
  case Nil
  then show ?case by (intro exI [of _ "j_dev j"] exI [of _ "j_nalloc j"]) (simp add: wrote_nil)
next
  case (Cons i "is")
  let ?bs = "j_block_size j" and ?e = "es ! i" and ?j1 = "j\<lparr> j_nalloc := j_nalloc j + 1 \<rparr>"
  have i: "i < length es" and e: "entry_ok j ?e" using Cons.prems(4,5) by simp_all
  have lg: "fld (HEADER_SIZE + DATA_DESC_SIZE * i) 8 buf = fst ?e" "fld (HEADER_SIZE + DATA_DESC_SIZE * i + 8) 4 buf = unat (calc_checksum (snd ?e))"
    "blk ?bs (content (j_dev j)) (j_start j + p + 1 + i) = snd ?e" "HEADER_SIZE + DATA_DESC_SIZE * length es \<le> ?bs"
    using Cons.prems(7,8) i by (simp_all add: logged_def)
  have room: "HEADER_SIZE + DATA_DESC_SIZE * i + DATA_DESC_SIZE \<le> ?bs" using lg(4) i by (simp add: HEADER_SIZE_def DATA_DESC_SIZE_def)
  have p: "p + 1 + i < j_blocks j" using Cons.prems(6) i by simp
  have rd: "journal_read_block (add64 p (1 + i)) ?j1 = Some (snd ?e)"
    using journal_read_block_ok [of ?j1 "p + 1 + i"] journal_sector(2) [OF Cons.prems(1-3) p] p Cons.prems(1-3) lg(3)
    by (simp add: add64_def add.assoc)
  obtain d where d: "dev_write (fst ?e * sectors_per_block j) (snd ?e) ?j1 = (?j1\<lparr> j_dev := d \<rparr>, 0)" "ok d"
    "wrote content log ?bs [(fst ?e, snd ?e)] (j_dev j) d"
    using dev_write_ok [of ?j1 "fst ?e" "snd ?e"] Cons.prems(1-3) e by (auto simp: entry_ok_def)
  have same: "blk ?bs (content d) q = blk ?bs (content (j_dev j)) q" if "j_start j \<le> q" "q < j_start j + j_blocks j" for q
    by (rule blk_outside [OF d(3)]) (use e that in \<open>auto simp: entry_ok_def\<close>)
  have lg': "logged ?bs (content d) (j_start j + p) es"
    using same Cons.prems(6) by (intro logged_cong [OF _ Cons.prems(7)]) simp
  obtain d' k where d': "replay_blocks p buf is (?j1\<lparr> j_dev := d \<rparr>) = Some (j\<lparr> j_nalloc := k, j_dev := d' \<rparr>)" "ok d'"
    "wrote content log ?bs (map ((!) es) is) d d'"
    using Cons.IH [of "?j1\<lparr> j_dev := d \<rparr>"] Cons.prems d(2) lg' same [of "j_start j + p"] by auto
  have "fst ?e * sectors_per_block j mod 2 ^ 64 = fst ?e * sectors_per_block j"
    using device_bound(2) [OF Cons.prems(1-3)] e Cons.prems(2) by (simp add: entry_ok_def)
  moreover have "j_alloc j (j_nalloc j)" "\<not> (fs_total_blocks j > 0 \<and> fst ?e \<ge> fs_total_blocks j)"
    using Cons.prems(1) e by (auto simp: journal_ready_def entry_ok_def)
  ultimately have "replay_blocks p buf (i # is) j = Some (j\<lparr> j_nalloc := k, j_dev := d' \<rparr>)"
    using room lg(1,2) rd d(1) d'(1) by (auto simp: j_kmalloc_def Let_def simp del: One_nat_def)
  then show ?case using d'(2) wrote_append [OF d(3) d'(3)] by (intro exI [of _ d'] exI [of _ k]) simp
qed

lemma area_unchanged:
  assumes "\<forall>e \<in> set es. entry_ok j e" "wrote content log (j_block_size j) es d d'" "j_start j \<le> q" "q < j_start j + j_blocks j"
  shows "blk (j_block_size j) (content d') q = blk (j_block_size j) (content d) q"
  by (rule blk_outside [OF assms(2)]) (use assms(1,3,4) in \<open>auto simp: entry_ok_def\<close>)

lemma recover_loop_ok:
  assumes "journal_ready j" "j_bdev j = b" "ok (j_dev j)" "\<forall>es \<in> set ess. \<forall>e \<in> set es. entry_ok j e" "e < j_blocks j"
    and "logged_chain (j_block_size j) (content (j_dev j)) (j_start j + p) ess (j_start j + e)"
  shows "\<exists>d k. recover_loop p e j = Some (j\<lparr> j_nalloc := k, j_dev := d \<rparr>) \<and> ok d \<and>
    wrote content log (j_block_size j) (concat ess) (j_dev j) d"
  using assms
proof (induction ess arbitrary: p j)
  case Nil
  then show ?case by (subst recover_loop.simps, intro exI [of _ "j_dev j"] exI [of _ "j_nalloc j"]) (simp add: wrote_nil)
next
  case (Cons es ess)
  let ?bs = "j_block_size j" and ?n = "length es" and ?c = "content (j_dev j)"
  let ?buf = "blk ?bs ?c (j_start j + p)"
  have lg: "logged ?bs ?c (j_start j + p) es" and ch: "logged_chain ?bs ?c (j_start j + (p + ?n + 2)) ess (j_start j + e)"
    using Cons.prems(6) by (simp_all add: add.assoc)
  have le: "p + ?n + 2 \<le> e" using logged_chain_le [OF ch] by simp
  have f: "fld 0 4 ?buf = JOURNAL_MAGIC_DESC" "fld 12 4 ?buf = ?n" "fld 0 4 (blk ?bs ?c (j_start j + (p + 1 + ?n))) = JOURNAL_MAGIC_COMMIT"
    using lg by (simp_all add: logged_def add.assoc)
  have pos: "add64 p (1 + ?n) = p + 1 + ?n" "add64 (p + 1 + ?n) 1 = p + ?n + 2"
    using journal_sector(2) [OF Cons.prems(1-3,5)] le by (simp_all add: add64_def)
  have rd: "journal_read_block p j = Some ?buf" "journal_read_block (p + 1 + ?n) j = Some (blk ?bs ?c (j_start j + (p + 1 + ?n)))"
    using journal_read_block_ok [OF Cons.prems(1-3)] le Cons.prems(5) by simp_all
  obtain d k where d: "replay_blocks p ?buf [0..<?n] j = Some (j\<lparr> j_nalloc := k, j_dev := d \<rparr>)" "ok d" "wrote content log ?bs es (j_dev j) d"
    using replay_blocks_ok [OF Cons.prems(1-3), of "[0..<?n]" es p ?buf] Cons.prems(4,5) le lg by (auto simp: map_nth)
  let ?j = "j\<lparr> j_nalloc := k, j_dev := d \<rparr>"
  have "logged_chain ?bs (content d) (j_start j + (p + ?n + 2)) ess (j_start j + e)"
    by (rule logged_chain_cong [OF area_unchanged [OF _ d(3)] ch]) (use Cons.prems(4,5) in auto)
  then obtain d' k' where d': "recover_loop (p + ?n + 2) e ?j = Some (j\<lparr> j_nalloc := k', j_dev := d' \<rparr>)" "ok d'" "wrote content log ?bs (concat ess) d d'"
    using Cons.IH [of ?j "p + ?n + 2"] Cons.prems(1-5) d(2) by auto
  have "recover_loop p e j = Some (j\<lparr> j_nalloc := k', j_dev := d' \<rparr>)"
    using le by (subst recover_loop.simps) (simp add: rd f pos d(1) d'(1) Let_def del: One_nat_def add_2_eq_Suc')
  then show ?case using d'(2) wrote_append [OF d(3) d'(3)] by (intro exI [of _ d'] exI [of _ k']) simp
qed

lemma journal_recover_ok:
  assumes "journal_ready j" "j_bdev j = b" "ok (j_dev j)" "\<forall>es \<in> set ess. \<forall>e \<in> set es. entry_ok j e" "j_head j < j_blocks j"
    and "logged_chain (j_block_size j) (content (j_dev j)) (j_start j + j_tail j) ess (j_start j + j_head j)" "j_initialized j"
  shows "\<exists>d k. journal_recover j = Some (j\<lparr> j_tail := j_head j, j_dirty := False, j_nalloc := k, j_dev := d \<rparr>, 0) \<and> ok d \<and>
    wrote content log (j_block_size j) (concat ess @ [(j_start j, jsb_block (j\<lparr> j_tail := j_head j, j_dirty := False \<rparr>))]) (j_dev j) d"
proof -
  let ?j1 = "j\<lparr> j_nalloc := j_nalloc j + 1 \<rparr>"
  obtain d k where d: "recover_loop (j_tail j) (j_head j) ?j1 = Some (j\<lparr> j_nalloc := k, j_dev := d \<rparr>)" "ok d"
    "wrote content log (j_block_size j) (concat ess) (j_dev j) d"
    using recover_loop_ok [of ?j1 ess "j_head j" "j_tail j"] assms by auto
  let ?j2 = "j\<lparr> j_nalloc := k, j_dev := d, j_tail := j_head j, j_dirty := False \<rparr>"
  obtain d' where d': "write_jsb ?j2 = (?j2\<lparr> j_nalloc := k + 1, j_dev := d' \<rparr>, 0)" "ok d'"
    "wrote content log (j_block_size j) [(j_start j, jsb_block ?j2)] d d'"
    using write_jsb_ok [of ?j2] assms(1,2) d(2) by auto
  have "j_alloc j (j_nalloc j)" using assms(1) by (simp add: journal_ready_def)
  then have "journal_recover j = Some (?j2\<lparr> j_nalloc := k + 1, j_dev := d' \<rparr>, 0)"
    using assms(7) d(1) d'(1) by (simp add: journal_recover_def j_kmalloc_def)
  moreover have "jsb_block ?j2 = jsb_block (j\<lparr> j_tail := j_head j, j_dirty := False \<rparr>)" by (simp add: jsb_block_def jsb_fields_def)
  ultimately show ?thesis using d'(2) wrote_append [OF d(3) d'(3)] by (intro exI [of _ d'] exI [of _ "k + 1"]) simp
qed

end

section \<open>The transaction a commit leaves in the journal\<close>

lemma map_of_rev: "distinct (map fst xs) \<Longrightarrow> map_of (rev xs) = map_of xs"
  by (subst map_of_inject_set) (simp_all add: rev_map [symmetric])

lemma log_ws_blocks:
  assumes "txn_fits j" "512 \<le> j_block_size j" "j_block_size j - 32 \<le> length stack" "w \<in> set (log_ws seq stack j)"
  shows "length (snd w) = j_block_size j" "j_start j + j_head j \<le> fst w" "fst w < j_start j + j_blocks j"
proof -
  let ?p = "j_start j + j_head j" and ?ds = "desc_block seq j # map snd (txn j) @ [commit_block seq stack j]"
  have "(fst w, snd w) \<in> set (zip [?p..<?p + length (txn j) + 2] ?ds)" using assms(4) by (simp add: log_ws_def Let_def del: upt_Suc)
  note in_zip = set_zip_leftD [OF this] set_zip_rightD [OF this]
  show "length (snd w) = j_block_size j" using in_zip(2) assms(1-3) length_desc_block [of j seq] length_commit_block [of j stack seq]
    by (auto simp: txn_fits_def)
  show "?p \<le> fst w" "fst w < j_start j + j_blocks j" using in_zip(1) assms(1) by (auto simp: txn_fits_def)
qed

lemma log_ws_lookup:
  assumes "i < length (txn j) + 2"
  shows "map_of (rev (log_ws seq stack j)) (j_start j + j_head j + i) = Some ((desc_block seq j # map snd (txn j) @ [commit_block seq stack j]) ! i)"
proof -
  let ?p = "j_start j + j_head j" and ?ds = "desc_block seq j # map snd (txn j) @ [commit_block seq stack j]"
  have "map_of (rev (log_ws seq stack j)) = map_of (zip [?p..<?p + length (txn j) + 2] ?ds)"
    by (simp add: log_ws_def Let_def map_of_rev del: upt_Suc)
  then show ?thesis using assms map_of_zip_nth [of "[?p..<?p + length (txn j) + 2]" ?ds i] by (simp del: upt_Suc)
qed

lemma commit_ws_lengths:
  assumes "txn_fits j" "512 \<le> j_block_size j" "j_block_size j - 32 \<le> length stack"
  shows "\<forall>w \<in> set (commit_ws stack j). length (snd w) = j_block_size j"
  using assms log_ws_blocks(1) [OF assms]
  by (auto simp: commit_ws_def length_jsb_block txn_fits_def dirty_journal_def moved_journal_def clean_journal_def)

lemma commit_ws_lookup:
  assumes "txn_fits j" "512 \<le> j_block_size j" "j_block_size j - 32 \<le> length stack"
  shows "i < j_start j \<or> j_start j + j_blocks j \<le> i \<Longrightarrow> map_of (rev (commit_ws stack j)) i = map_of (rev (txn j)) i"
    "k < length (txn j) + 2 \<Longrightarrow> map_of (rev (commit_ws stack j)) (j_start j + j_head j + k) =
      Some ((desc_block (j_sequence j) j # map snd (txn j) @ [commit_block (j_sequence j) stack j]) ! k)"
    "j_start j < i \<Longrightarrow> i < j_start j + j_head j \<Longrightarrow> map_of (rev (commit_ws stack j)) i = None"
    "map_of (rev (commit_ws stack j)) (j_start j) = Some (jsb_block (clean_journal j))"
proof -
  have L: "map_of (rev (log_ws (j_sequence j) stack j)) i = None" if "i < j_start j + j_head j \<or> j_start j + j_blocks j \<le> i" for i
    using that log_ws_blocks(2,3) [OF assms] by (force simp: map_of_eq_None_iff)
  have T: "map_of (rev (txn j)) i = None" if "j_start j \<le> i" "i < j_start j + j_blocks j" for i
    using that assms(1) by (force simp: map_of_eq_None_iff txn_fits_def)
  have fit: "1 \<le> j_head j" "j_head j + length (txn j) + 2 < j_blocks j" using assms(1) by (simp_all add: txn_fits_def)
  show "map_of (rev (commit_ws stack j)) i = map_of (rev (txn j)) i" if "i < j_start j \<or> j_start j + j_blocks j \<le> i"
    using that fit L [of i] by (auto simp: commit_ws_def map_add_def split: option.splits)
  show "map_of (rev (commit_ws stack j)) (j_start j + j_head j + k) =
      Some ((desc_block (j_sequence j) j # map snd (txn j) @ [commit_block (j_sequence j) stack j]) ! k)" if "k < length (txn j) + 2"
    using that fit T [of "j_start j + j_head j + k"] log_ws_lookup [OF that, of "j_sequence j" stack] by (simp add: commit_ws_def map_add_def)
  show "map_of (rev (commit_ws stack j)) i = None" if "j_start j < i" "i < j_start j + j_head j"
    using that fit L [of i] T [of i] by (simp add: commit_ws_def map_add_def)
  show "map_of (rev (commit_ws stack j)) (j_start j) = Some (jsb_block (clean_journal j))"
    by (simp add: commit_ws_def)
qed

lemma commit_logged:
  assumes "wrote content log (j_block_size j) (commit_ws stack j) d d'" "txn_fits j" "512 \<le> j_block_size j" "j_block_size j - 32 \<le> length stack"
    and "\<forall>e \<in> set (txn j). fst e < 2 ^ 64"
  shows "logged (j_block_size j) (content d') (j_start j + j_head j) (txn j)"
proof -
  let ?b = "blk (j_block_size j) (content d')" and ?p = "j_start j + j_head j" and ?n = "length (txn j)"
  have b: "?b (?p + k) = (desc_block (j_sequence j) j # map snd (txn j) @ [commit_block (j_sequence j) stack j]) ! k" if "k < ?n + 2" for k
    using that assms(1) commit_ws_lengths [OF assms(2-4)] commit_ws_lookup(2) [OF assms(2-4) that] by (simp add: wrote_def blk_writes)
  have "?b ?p = desc_block (j_sequence j) j" "?b (?p + 1 + ?n) = commit_block (j_sequence j) stack j"
    using b [of 0] b [of "1 + ?n"] by (simp_all add: nth_append)
  moreover have "?b (?p + 1 + i) = snd (txn j ! i)" if "i < ?n" for i using that b [of "1 + i"] by (simp add: nth_append)
  moreover have "txn_room j" using assms(2) by (simp add: txn_fits_def)
  ultimately show ?thesis using assms(5)
    by (simp add: logged_def desc_layout desc_entry_layout commit_magic txn_room_def)
qed

end
