(* ===== verification/JournalProps.thy ===== *)
theory JournalProps
  imports JournalRecover
begin

text \<open>
  The journal on the RAM disk: what a commit leaves on the disk, what a later boot finds there, what recovery restores, and
  what happens after a crash in the middle of a commit.
\<close>

section \<open>Mounting\<close>

context disk
begin

lemma journal_init_found:
  fixes m :: "'d journal" and start blocks bs fs_total :: nat
  defines "m0 \<equiv> clear_handle b start blocks bs fs_total m"
  defines "sb \<equiv> blk bs (content (j_dev m)) start"
  assumes ready: "journal_ready m0" and "ok (j_dev m)" and magic: "fld 0 4 sb = JOURNAL_MAGIC_SB"
  shows "journal_init (Some b) start blocks bs fs_total m =
    (let m1 = m0\<lparr> j_nalloc := j_nalloc m + 1, j_head := fld 28 8 sb, j_tail := fld 36 8 sb, j_sequence := fld 44 8 sb, j_dirty := fld 52 4 sb \<noteq> 0 \<rparr>
     in if fld 52 4 sb \<noteq> 0 then do { (m2, r) \<leftarrow> journal_recover m1; if r < 0 then Some (m2, - 1) else Some (m2\<lparr> j_initialized := True \<rparr>, 0) }
        else Some (m1\<lparr> j_initialized := True \<rparr>, 0))"
proof -
  let ?m = "m0\<lparr> j_nalloc := j_nalloc m + 1 \<rparr>"
  have fields: "j_dev m0 = j_dev m" "j_bdev m0 = b" "j_block_size m0 = bs" "j_start m0 = start" "j_blocks m0 = blocks" "j_nalloc m0 = j_nalloc m" "j_alloc m0 = j_alloc m"
    by (simp_all add: m0_def clear_handle_def)
  have r: "\<forall>i. j_alloc m i" "512 \<le> bs" "8 \<le> blocks" using ready by (simp_all add: journal_ready_def fields)
  have "journal_read_block 0 ?m = Some sb"
    using journal_read_block_ok [of ?m 0] ready assms(4) r(3) by (simp add: fields sb_def)
  then show ?thesis using r magic
    by (simp add: journal_init_def j_kmalloc_def Let_def fields m0_def [symmetric] linorder_not_less [symmetric])
qed

lemma journal_init_new:
  fixes m :: "'d journal" and start blocks bs fs_total :: nat
  defines "m0 \<equiv> (clear_handle b start blocks bs fs_total m)\<lparr> j_head := 1, j_tail := 1, j_sequence := 1 \<rparr>"
  assumes ready: "journal_ready m0" and "ok (j_dev m)" and no_magic: "fld 0 4 (blk bs (content (j_dev m)) start) \<noteq> JOURNAL_MAGIC_SB"
  shows "\<exists>d. journal_init (Some b) start blocks bs fs_total m = Some (m0\<lparr> j_nalloc := j_nalloc m + 2, j_dev := d, j_initialized := True \<rparr>, 0) \<and> ok d \<and>
    wrote content log bs [(start, jsb_block m0)] (j_dev m) d"
proof -
  let ?c = "clear_handle b start blocks bs fs_total m" and ?m = "m0\<lparr> j_nalloc := j_nalloc m + 1 \<rparr>"
  let ?c1 = "?c\<lparr> j_nalloc := j_nalloc m + 1 \<rparr>"
  have r: "journal_ready ?c" "\<forall>i. j_alloc m i" "512 \<le> bs" "8 \<le> blocks" using ready by (simp_all add: m0_def journal_ready_def clear_handle_def sectors_per_block_def)
  have "journal_read_block 0 ?c1 = Some (blk bs (content (j_dev m)) start)"
    using journal_read_block_ok [of ?c1 0] r assms(3) by (simp add: clear_handle_def)
  moreover obtain d where d: "write_jsb ?m = (?m\<lparr> j_nalloc := j_nalloc m + 2, j_dev := d \<rparr>, 0)" "ok d" "wrote content log bs [(start, jsb_block m0)] (j_dev m) d"
    using write_jsb_ok [of ?m] ready assms(3) by (auto simp: m0_def clear_handle_def)
  moreover have "?c1\<lparr> j_head := 1, j_tail := 1, j_sequence := 1, j_dirty := False \<rparr> = ?m" by (simp add: m0_def clear_handle_def)
  ultimately show ?thesis using r(2-4) no_magic
    by (intro exI [of _ d]) (simp add: journal_init_def j_kmalloc_def Let_def clear_handle_def [of b start blocks bs fs_total m] linorder_not_less [symmetric])
qed

end

section \<open>Crashes\<close>

text \<open>The disk \<open>d\<close> after a crash in which only the first \<open>k\<close> of the writes that lead from \<open>d\<close> to \<open>d'\<close> were performed.\<close>

definition after_crash :: "nat \<Rightarrow> ramdisk \<Rightarrow> ramdisk \<Rightarrow> ramdisk" where
  "after_crash k d d' = d\<lparr> rd_data := fold do_write (take k (drop (length (rd_log d)) (rd_log d'))) (rd_data d) \<rparr>"

lemma map_of_rev_Cons: "\<exists>v. map_of (rev ((a, x) # ws)) a = Some v \<and> (a, v) \<in> set ((a, x) # ws)"
  by (cases "map_of (rev ws) a") (auto simp: map_add_def dest: map_of_SomeD)

lemma crash_dirty:
  fixes j :: "'d journal"
  assumes "txn_fits j" "512 \<le> j_block_size j" "j_block_size j - 32 \<le> length stack" "0 < k" "k < length (commit_ws stack j)"
  shows "\<exists>x :: 'd journal. map_of (rev (take k (commit_ws stack j))) (j_start j) = Some (jsb_block x) \<and> j_dirty x"
proof -
  let ?a = "(j_start j, jsb_block (dirty_journal j))" and ?M = "log_ws (j_sequence j) stack j @ txn j @ [(j_start j, jsb_block (moved_journal j))]"
  have "commit_ws stack j = (?a # ?M) @ [(j_start j, jsb_block (clean_journal j))]" by (simp add: commit_ws_def)
  moreover have "k \<le> length (?a # ?M)" using assms(5) by (simp add: commit_ws_def)
  ultimately have "take k (commit_ws stack j) = take k (?a # ?M)" by (simp only: take_append diff_is_0_eq [THEN iffD2] take_0 append_Nil2)
  then have "take k (commit_ws stack j) = ?a # take (k - 1) ?M" using assms(4) by (cases k) simp_all
  then obtain v where v: "map_of (rev (take k (commit_ws stack j))) (j_start j) = Some v" "(j_start j, v) \<in> set (?a # take (k - 1) ?M)"
    using map_of_rev_Cons [of "j_start j" "jsb_block (dirty_journal j)"] by metis
  have "(j_start j, v) \<notin> set (log_ws (j_sequence j) stack j)" "(j_start j, v) \<notin> set (txn j)"
    using assms(1) log_ws_blocks(2) [OF assms(1-3)] by (fastforce simp: txn_fits_def)+
  then have "v = jsb_block (dirty_journal j) \<or> v = jsb_block (moved_journal j)"
    using v(2) by (auto dest!: in_set_takeD)
  moreover have "j_dirty (dirty_journal j)" "j_dirty (moved_journal j)" by (simp_all add: dirty_journal_def moved_journal_def)
  ultimately show ?thesis using v(1) by blast
qed

section \<open>A commit on the RAM disk\<close>

text \<open>A commit of a transaction that fits, on a RAM disk, with memory for the buffers.\<close>

definition commit_setting :: "nat \<Rightarrow> bytes \<Rightarrow> ramdisk journal \<Rightarrow> bool" where
  "commit_setting size_bytes stack j \<longleftrightarrow> ramdisk_ok size_bytes (j_dev j) \<and> j_bdev j = ramdisk_bdev size_bytes \<and> journal_ready j \<and> txn_fits j \<and>
     j_initialized j \<and> in_transaction j \<and> j_sequence j + 1 < 2 ^ 64 \<and> j_block_size j - 32 \<le> length stack"

lemma commit_effect:
  assumes "commit_setting size_bytes stack j"
  obtains d k where "journal_commit stack j = Some (free_transaction ((clean_journal j)\<lparr> j_nalloc := k, j_dev := d \<rparr>), 0)" "ramdisk_ok size_bytes d"
    "wrote rd_data rd_log (j_block_size j) (commit_ws stack j) (j_dev j) d"
  using rdk.journal_commit_ok [of j size_bytes stack] assms by (auto simp: commit_setting_def)

lemma commit_setting_fits:
  "commit_setting size_bytes stack j \<Longrightarrow> txn_fits j"
  "commit_setting size_bytes stack j \<Longrightarrow> 512 \<le> j_block_size j"
  "commit_setting size_bytes stack j \<Longrightarrow> j_block_size j - 32 \<le> length stack"
  unfolding commit_setting_def journal_ready_def by blast+

lemma commit_blk:
  assumes "commit_setting size_bytes stack j" "wrote rd_data rd_log (j_block_size j) (commit_ws stack j) (j_dev j) d"
  shows "blk (j_block_size j) (rd_data d) i =
    (case map_of (rev (commit_ws stack j)) i of Some x \<Rightarrow> x | None \<Rightarrow> blk (j_block_size j) (rd_data (j_dev j)) i)"
  using assms(2) commit_ws_lengths [OF commit_setting_fits [OF assms(1)]] by (simp add: wrote_def blk_writes)

lemma commit_result:
  assumes "commit_setting size_bytes stack j" "journal_commit stack j = Some (j', r)"
  obtains d k where "j' = free_transaction ((clean_journal j)\<lparr> j_nalloc := k, j_dev := d \<rparr>)" "ramdisk_ok size_bytes d"
    "wrote rd_data rd_log (j_block_size j) (commit_ws stack j) (j_dev j) d"
  using commit_effect [OF assms(1)] assms(2) by (metis option.inject prod.inject)

lemma ready_clear:
  "journal_ready j \<Longrightarrow> \<forall>n. j_alloc m n \<Longrightarrow> journal_ready (clear_handle (j_bdev j) (j_start j) (j_blocks j) (j_block_size j) fs_total m)"
  by (simp add: journal_ready_def clear_handle_def sectors_per_block_def)

lemma commit_extends_chain:
  assumes "commit_setting size_bytes stack j" "wrote rd_data rd_log (j_block_size j) (commit_ws stack j) (j_dev j) c"
    and "logged_chain (j_block_size j) (rd_data (j_dev j)) (j_start j + j_tail j) ess (j_start j + j_head j)" "\<forall>e \<in> set (txn j). entry_ok j e"
    and "\<forall>i. j_start j \<le> i \<and> i < j_start j + j_blocks j \<longrightarrow> blk (j_block_size j) (rd_data d) i = blk (j_block_size j) (rd_data c) i"
  shows "logged_chain (j_block_size j) (rd_data d) (j_start j + j_tail j) (ess @ [txn j]) (j_start j + (j_head j + length (txn j) + 2))"
proof -
  let ?bs = "j_block_size j"
  note fits = commit_setting_fits [OF assms(1)]
  have j: "j_bdev j = ramdisk_bdev size_bytes" "journal_ready j" "ramdisk_ok size_bytes (j_dev j)" using assms(1) by (simp_all add: commit_setting_def)
  have old: "blk ?bs (rd_data c) i = blk ?bs (rd_data (j_dev j)) i" if "j_start j + j_tail j \<le> i" "i < j_start j + j_head j" for i
    using commit_blk [OF assms(1,2), of i] commit_ws_lookup(3) [OF fits, of i] that fits(1) by (simp add: txn_fits_def)
  have "\<forall>e \<in> set (txn j). fst e < 2 ^ 63"
    using rdk.device_bound(1) [OF j(2,1,3)] assms(4) j(1) by (fastforce simp: entry_ok_def)
  then have "\<forall>e \<in> set (txn j). fst e < 2 ^ 64" by (auto elim: order.strict_trans)
  then have "logged_chain ?bs (rd_data c) (j_start j + j_tail j) (ess @ [txn j]) (j_start j + j_head j + length (txn j) + 2)"
    using logged_chain_snoc [OF logged_chain_cong [OF old assms(3)] commit_logged [OF assms(2) fits]] by simp
  then show ?thesis using assms(5) fits(1) by (intro logged_chain_cong [of _ _ _ "rd_data d" "rd_data c"]) (simp_all add: txn_fits_def add.assoc)
qed

section \<open>The bound on a transaction\<close>

definition txn_inv :: "'d journal \<Rightarrow> bool" where
  "txn_inv j \<longleftrightarrow> 512 \<le> j_block_size j \<and> j_block_size j < 2 ^ 32 \<and>
     (in_transaction j \<longrightarrow> length (txn j) \<le> txn_capacity j \<and> HEADER_SIZE + DATA_DESC_SIZE * txn_capacity j \<le> j_block_size j \<and>
        (\<forall>e \<in> set (txn j). length (snd e) = j_block_size j \<and> fst e < 2 ^ 32))"

lemma txn_inv_room: "txn_inv j \<Longrightarrow> in_transaction j \<Longrightarrow> txn_room j"
  by (auto simp: txn_inv_def txn_room_def HEADER_SIZE_def DATA_DESC_SIZE_def)

lemma txn_inv_begin:
  assumes "txn_inv j"
  shows "txn_inv (fst (journal_begin n j))"
proof -
  let ?cap = "(j_block_size j - 36) div 20"
  have "512 \<le> j_block_size j" using assms by (simp add: txn_inv_def)
  then have "36 + 20 * ?cap \<le> j_block_size j" using div_times_less_eq_dividend [of "j_block_size j - 36" 20] by linarith
  then show ?thesis using assms
    by (auto simp: txn_inv_def journal_begin_def j_kmalloc_def Let_def HEADER_SIZE_def DATA_DESC_SIZE_def)
qed

lemma txn_inv_write: "txn_inv j \<Longrightarrow> length data = j_block_size j \<Longrightarrow> txn_inv (fst (journal_write fs_block data j))"
  by (auto simp: txn_inv_def journal_write_def j_kmalloc_def Let_def)

lemma same_block_size:
  "j_block_size (fst (dev_write s x j)) = j_block_size j" "j_block_size (fst (journal_write_block p x j)) = j_block_size j"
  "j_block_size (fst (write_jsb j)) = j_block_size j"
  by (simp_all add: dev_write_def journal_write_block_def write_jsb_def j_kmalloc_def Let_def split: option.splits)

lemma same_block_size_lists:
  "j_block_size (fst (write_data p ds j)) = j_block_size j" "j_block_size (fst (checkpoint es j)) = j_block_size j"
  by (induction ds arbitrary: p j, simp_all add: Let_def case_prod_beta same_block_size)
    (induction es arbitrary: j, simp_all add: Let_def case_prod_beta same_block_size)

lemma same_block_size_commit_writes: "j_block_size (fst (commit_writes seq stack j)) = j_block_size j"
  by (simp add: commit_writes_def Let_def case_prod_beta same_block_size same_block_size_lists)

lemma evict_loop_block_size: "evict_loop usable j = Some j' \<Longrightarrow> j_block_size j' = j_block_size j"
  by (erule evict_loop.raw_induct [where P = "\<lambda>_ j j'. j_block_size j' = j_block_size j", rotated])
    (fastforce simp: j_kmalloc_def Let_def split: if_splits)

lemma advance_head_block_size: "advance_head n j = Some j' \<Longrightarrow> j_block_size j' = j_block_size j"
  by (auto simp: advance_head_def Let_def same_block_size dest!: evict_loop_block_size split: Option.bind_splits)

lemma journal_commit_ends:
  assumes "journal_commit stack j = Some (j', r)" "j_initialized j" "in_transaction j"
  shows "\<exists>x. j' = free_transaction x \<and> j_block_size x = j_block_size j"
  using assms
  by (auto simp: journal_commit_def Let_def case_prod_beta j_kmalloc_def same_block_size same_block_size_commit_writes
      split: if_splits Option.bind_splits dest!: advance_head_block_size intro!: exI)

section \<open>What the journal guarantees\<close>

text \<open>C10: A transaction that fits into the journal commits: \<open>journal_commit\<close> returns 0, every block outside the journal area holds the
  last data the transaction gave it, or its old data when the transaction does not name it, the transaction is over, the
  head has moved behind the commit record, and the superblock on the disk is that of a clean journal.
\<close>
theorem journal_commit_correct:
  assumes "commit_setting size_bytes stack j"
  shows "\<exists>j'. journal_commit stack j = Some (j', 0) \<and> \<not> in_transaction j' \<and> txn j' = [] \<and> journal_is_clean j' \<and>
    j_head j' = j_head j + length (txn j) + 2 \<and>
    (\<forall>i. i < j_start j \<or> j_start j + j_blocks j \<le> i \<longrightarrow> blk (j_block_size j) (rd_data (j_dev j')) i =
       (case map_of (rev (txn j)) i of Some d \<Rightarrow> d | None \<Rightarrow> blk (j_block_size j) (rd_data (j_dev j)) i)) \<and>
    blk (j_block_size j) (rd_data (j_dev j')) (j_start j) = jsb_block j'"
proof -
  note fits = commit_setting_fits [OF assms]
  obtain d k where d: "journal_commit stack j = Some (free_transaction ((clean_journal j)\<lparr> j_nalloc := k, j_dev := d \<rparr>), 0)"
    "wrote rd_data rd_log (j_block_size j) (commit_ws stack j) (j_dev j) d"
    using commit_effect [OF assms] by blast
  let ?j = "free_transaction ((clean_journal j)\<lparr> j_nalloc := k, j_dev := d \<rparr>)"
  have "jsb_block ?j = jsb_block (clean_journal j)" by (simp add: jsb_block_def jsb_fields_def free_transaction_def)
  then show ?thesis using d(1) commit_blk [OF assms d(2)] commit_ws_lookup(1,4) [OF fits]
    by (intro exI [of _ ?j]) (simp add: free_transaction_def clean_journal_def moved_journal_def journal_is_clean_def)
qed

text \<open>C21: After a commit the next boot mounts the journal: \<open>journal_init\<close> reads the superblock back, returns 0, continues
  with the same head, tail and sequence number, and writes nothing.
\<close>
theorem journal_restart:
  assumes "commit_setting size_bytes stack j" "journal_commit stack j = Some (j', 0)" "\<forall>n. j_alloc m n" "j_dev m = j_dev j'"
  shows "\<exists>m'. journal_init (Some (ramdisk_bdev size_bytes)) (j_start j) (j_blocks j) (j_block_size j) fs_total m = Some (m', 0) \<and> j_initialized m' \<and>
    j_dev m' = j_dev j' \<and> j_head m' = j_head j' \<and> j_tail m' = j_tail j' \<and> j_sequence m' = j_sequence j' \<and> journal_is_clean m' \<and> \<not> in_transaction m'"
proof -
  note fits = commit_setting_fits [OF assms(1)]
  obtain d k where d: "j' = free_transaction ((clean_journal j)\<lparr> j_nalloc := k, j_dev := d \<rparr>)" "ramdisk_ok size_bytes d"
    "wrote rd_data rd_log (j_block_size j) (commit_ws stack j) (j_dev j) d"
    using commit_result [OF assms(1,2)] by blast
  have j: "j_bdev j = ramdisk_bdev size_bytes" "journal_ready j" "j_sequence j + 1 < 2 ^ 64" "ramdisk_ok size_bytes (j_dev j)"
    using assms(1) by (simp_all add: commit_setting_def)
  have m: "j_dev m = d" using assms(4) d(1) by (simp add: free_transaction_def)
  have sb: "blk (j_block_size j) (rd_data d) (j_start j) = jsb_block (clean_journal j)"
    using commit_blk [OF assms(1) d(3)] commit_ws_lookup(4) [OF fits] by simp
  have h: "j_head j + length (txn j) + 2 < 2 ^ 64" "j_tail j < 2 ^ 64"
    using rdk.journal_sector(2) [OF j(2,1,4), of "j_head j + length (txn j) + 2"] fits(1) by (auto simp: txn_fits_def)
  then show ?thesis
    using rdk.journal_init_found [of size_bytes "j_start j" "j_blocks j" "j_block_size j" fs_total m] ready_clear [OF j(2) assms(3)] d(1,2) j(1,3) m
    by (simp add: sb jsb_layout clear_handle_def journal_is_clean_def free_transaction_def clean_journal_def moved_journal_def dirty_journal_def Let_def)
qed

text \<open>C11: Recovery restores committed data: whatever happened to the blocks outside the journal area since the commit, \<open>journal_recover\<close>
  gives every block that the transactions of the journal name the data of the last transaction that names it, and
  leaves the other blocks alone.
\<close>
theorem journal_recover_restores:
  assumes "commit_setting size_bytes stack j" "journal_commit stack j = Some (j', 0)"
    and "logged_chain (j_block_size j) (rd_data (j_dev j)) (j_start j + j_tail j) ess (j_start j + j_head j)"
    and "\<forall>es \<in> set (ess @ [txn j]). \<forall>e \<in> set es. entry_ok j e"
    and "ramdisk_ok size_bytes d"
    and "\<forall>i. j_start j \<le> i \<and> i < j_start j + j_blocks j \<longrightarrow> blk (j_block_size j) (rd_data d) i = blk (j_block_size j) (rd_data (j_dev j')) i"
  shows "\<exists>j''. journal_recover (j'\<lparr> j_dev := d \<rparr>) = Some (j'', 0) \<and> journal_is_clean j'' \<and> j_tail j'' = j_head j'' \<and>
    (\<forall>i. i < j_start j \<or> j_start j + j_blocks j \<le> i \<longrightarrow> blk (j_block_size j) (rd_data (j_dev j'')) i =
       (case map_of (rev (concat ess @ txn j)) i of Some x \<Rightarrow> x | None \<Rightarrow> blk (j_block_size j) (rd_data d) i))"
proof -
  let ?bs = "j_block_size j" and ?ess = "ess @ [txn j]" and ?j = "j'\<lparr> j_dev := d \<rparr>"
  note fits = commit_setting_fits [OF assms(1)]
  obtain c k where c: "j' = free_transaction ((clean_journal j)\<lparr> j_nalloc := k, j_dev := c \<rparr>)"
    "wrote rd_data rd_log ?bs (commit_ws stack j) (j_dev j) c"
    using commit_result [OF assms(1,2)] by blast
  have "\<forall>i. j_start j \<le> i \<and> i < j_start j + j_blocks j \<longrightarrow> blk ?bs (rd_data d) i = blk ?bs (rd_data c) i"
    using assms(6) c(1) by (simp add: free_transaction_def)
  then have "logged_chain ?bs (rd_data d) (j_start j + j_tail j) ?ess (j_start j + (j_head j + length (txn j) + 2))"
    using assms(3,4) by (intro commit_extends_chain [OF assms(1) c(2)]) simp_all
  moreover have eq: "?j = free_transaction ((clean_journal j)\<lparr> j_nalloc := k, j_dev := d \<rparr>)" by (simp add: c(1) free_transaction_def)
  moreover have "journal_ready ?j" "entry_ok ?j = entry_ok j" "j_initialized ?j" using assms(1)
    by (auto simp: eq commit_setting_def clean_journal_def moved_journal_def dirty_journal_def journal_ready_def sectors_per_block_def free_transaction_def entry_ok_def)
  ultimately obtain e i where e: "journal_recover ?j = Some (?j\<lparr> j_tail := j_head ?j, j_dirty := False, j_nalloc := i, j_dev := e \<rparr>, 0)"
    "wrote rd_data rd_log ?bs (concat ?ess @ [(j_start j, jsb_block (?j\<lparr> j_tail := j_head ?j, j_dirty := False \<rparr>))]) d e"
    using rdk.journal_recover_ok [of ?j size_bytes ?ess] assms(1,4,5) fits(1)
    by (auto simp: commit_setting_def txn_fits_def clean_journal_def moved_journal_def dirty_journal_def free_transaction_def)
  let ?j2 = "?j\<lparr> j_tail := j_head ?j, j_dirty := False, j_nalloc := i, j_dev := e \<rparr>"
  let ?ws = "concat ?ess @ [(j_start j, jsb_block (?j\<lparr> j_tail := j_head ?j, j_dirty := False \<rparr>))]"
  have "\<forall>w \<in> set ?ws. length (snd w) = ?bs"
    using assms(4) fits(2) by (auto simp: entry_ok_def length_jsb_block eq free_transaction_def clean_journal_def moved_journal_def dirty_journal_def)
  then have "blk ?bs (rd_data e) q = (case map_of (rev ?ws) q of Some x \<Rightarrow> x | None \<Rightarrow> blk ?bs (rd_data d) q)" for q
    using e(2) by (simp only: wrote_def blk_writes)
  moreover have "q < j_start j \<or> j_start j + j_blocks j \<le> q \<Longrightarrow> map_of (rev ?ws) q = map_of (rev (concat ess @ txn j)) q" for q
    using fits(1) by (auto simp: txn_fits_def)
  ultimately show ?thesis using e(1) by (intro exI [of _ ?j2]) (simp add: journal_is_clean_def)
qed

text \<open>C12: A crash in the middle of a commit is never recovered: once the first of the writes of \<open>journal_commit\<close> has reached the disk and before
  the last one has, the superblock is marked dirty, so \<open>journal_init\<close> calls \<open>journal_recover\<close>, which refuses because the
  journal is not initialised yet; the mount fails and the disk stays as it is.
\<close>
theorem journal_crash_not_recovered:
  assumes "commit_setting size_bytes stack j" "journal_commit stack j = Some (j', r)"
    and "0 < k" "k < length (rd_log (j_dev j')) - length (rd_log (j_dev j))"
    and "\<forall>n. j_alloc m n" "\<not> j_initialized m" "j_dev m = after_crash k (j_dev j) (j_dev j')"
  shows "\<exists>m'. journal_init (Some (ramdisk_bdev size_bytes)) (j_start j) (j_blocks j) (j_block_size j) fs_total m = Some (m', - 1) \<and>
    j_dev m' = j_dev m \<and> \<not> j_initialized m'"
proof -
  note fits = commit_setting_fits [OF assms(1)]
  let ?bs = "j_block_size j" and ?ws = "commit_ws stack j"
  obtain d i where d: "j' = free_transaction ((clean_journal j)\<lparr> j_nalloc := i, j_dev := d \<rparr>)" "wrote rd_data rd_log ?bs ?ws (j_dev j) d"
    using commit_result [OF assms(1,2)] by blast
  have j: "j_bdev j = ramdisk_bdev size_bytes" "journal_ready j" "ramdisk_ok size_bytes (j_dev j)" using assms(1) by (simp_all add: commit_setting_def)
  have log: "rd_log (j_dev j') = rd_log (j_dev j) @ map (at_bytes ?bs) ?ws" using d by (simp add: wrote_def free_transaction_def)
  then have m: "rd_data (j_dev m) = fold do_write (map (at_bytes ?bs) (take k ?ws)) (rd_data (j_dev j))" "ramdisk_ok size_bytes (j_dev m)"
    using assms(7) j(3) by (simp_all add: after_crash_def take_map ramdisk_ok_def)
  obtain x :: "ramdisk journal" where x: "map_of (rev (take k ?ws)) (j_start j) = Some (jsb_block x)" "j_dirty x"
    using crash_dirty [OF fits assms(3)] assms(4) log by auto
  have "\<forall>w \<in> set (take k ?ws). length (snd w) = ?bs" using commit_ws_lengths [OF fits] by (auto dest: in_set_takeD)
  then have "blk ?bs (rd_data (j_dev m)) (j_start j) = jsb_block x" using x(1) by (simp add: m(1) blk_writes)
  then show ?thesis
    using rdk.journal_init_found [of size_bytes "j_start j" "j_blocks j" ?bs fs_total m] ready_clear [OF j(2) assms(5)] j(1) m(2) x(2) assms(6)
    by (simp add: jsb_layout clear_handle_def journal_recover_def Let_def)
qed

text \<open>C30: A transaction never outgrows its descriptor block: \<open>journal_begin\<close> bounds the number of blocks by what fits behind the header, and every
  operation keeps the bound, so the descriptor block that a commit builds has exactly the size of a block.
\<close>
theorem journal_txn_bounded:
  assumes "txn_inv j"
  shows "(in_transaction j \<longrightarrow> length (desc_block seq j) = j_block_size j) \<and> txn_inv (fst (journal_begin n j)) \<and>
    (length data = j_block_size j \<longrightarrow> txn_inv (fst (journal_write fs_block data j))) \<and> txn_inv (fst (journal_rollback j)) \<and>
    (\<forall>j' r. journal_commit stack j = Some (j', r) \<longrightarrow> txn_inv j')"
proof (intro conjI allI impI)
  show "length (desc_block seq j) = j_block_size j" if "in_transaction j" using that txn_inv_room [OF assms] by (simp add: length_desc_block)
  show "txn_inv (fst (journal_rollback j))" using assms by (simp add: journal_rollback_def free_transaction_def txn_inv_def)
  show "txn_inv j'" if "journal_commit stack j = Some (j', r)" for j' r
  proof (cases "j_initialized j \<and> in_transaction j")
    case True
    then show ?thesis using journal_commit_ends [OF that] assms by (auto simp: txn_inv_def free_transaction_def)
  next
    case False
    then show ?thesis using that assms by (simp add: journal_commit_def)
  qed
qed (use txn_inv_begin txn_inv_write assms in blast)+

lemma bytes_val_replicate_zero: "bytes_val (replicate k 0) = 0"
  by (induction k) simp_all

lemma fld_zeros: "fld off k (replicate n 0) = 0"
  by (simp add: fld_def bytes_val_replicate_zero)

lemma ramdisk_init_ok:
  assumes "ramdisk_init size_mb True True r devs = ((r', devs'), ret)" "size_mb < 2 ^ 44"
  shows "ret = 0" "ramdisk_ok RAMDISK_SIZE_BYTES r'" "block_dev_find ''ramdisk0'' devs' = Some (ramdisk_bdev RAMDISK_SIZE_BYTES)"
    "\<forall>x < RAMDISK_SIZE_BYTES. rd_data r' x = 0"
proof -
  have "size_mb * 1024 * 1024 mod 2 ^ 64 = size_mb * 1024 * 1024" using assms(2) by simp
  then have "(let sz0 = if size_mb \<noteq> 0 then size_mb * 1024 * 1024 mod 2 ^ 64 else RAMDISK_SIZE_BYTES
      in if sz0 > RAMDISK_SIZE_BYTES then RAMDISK_SIZE_BYTES else sz0) = RAMDISK_SIZE_BYTES"
    by (auto simp: RAMDISK_SIZE_BYTES_def)
  then have "((r\<lparr> rd_priv := Some RAMDISK_SIZE_BYTES, rd_data := put_bytes 0 (replicate RAMDISK_SIZE_BYTES 0) (rd_data r), rd_block_size := 512 \<rparr>,
      ramdisk_bdev RAMDISK_SIZE_BYTES # devs), 0) = ((r', devs'), ret)"
    using assms(1) by (simp add: ramdisk_init_def block_dev_register_def Let_def)
  then show "ret = 0" "ramdisk_ok RAMDISK_SIZE_BYTES r'" "block_dev_find ''ramdisk0'' devs' = Some (ramdisk_bdev RAMDISK_SIZE_BYTES)"
    "\<forall>x < RAMDISK_SIZE_BYTES. rd_data r' x = 0"
    by (auto simp: ramdisk_ok_def ramdisk_bdev_def put_bytes_def)
qed

text \<open>C29: From start-up to a usable journal: after \<open>ramdisk_init\<close> the device is found by its name, and \<open>journal_init\<close> on it creates an empty journal in
  any area of at least eight blocks that fits on the disk: it returns 0, and the superblock on the disk describes the
  state in memory.
\<close>
theorem journal_create:
  assumes "ramdisk_init size_mb True True r devs = ((r', devs'), ret)" "size_mb < 2 ^ 44"
    and "0 < n" "8 \<le> blocks" "(start + blocks) * n \<le> 2048" "\<forall>i. j_alloc m i" "j_dev m = r'"
  shows "\<exists>m'. journal_init (block_dev_find ''ramdisk0'' devs') start blocks (n * 512) fs_total m = Some (m', 0) \<and> j_initialized m' \<and>
    journal_ready m' \<and> txn_inv m' \<and> ramdisk_ok RAMDISK_SIZE_BYTES (j_dev m') \<and> j_head m' = 1 \<and> j_tail m' = 1 \<and> j_sequence m' = 1 \<and>
    journal_is_clean m' \<and> \<not> in_transaction m' \<and> blk (n * 512) (rd_data (j_dev m')) start = jsb_block m'"
proof -
  let ?b = "ramdisk_bdev RAMDISK_SIZE_BYTES"
  let ?m = "(clear_handle ?b start blocks (n * 512) fs_total m)\<lparr> j_head := 1, j_tail := 1, j_sequence := 1 \<rparr>"
  note rd = ramdisk_init_ok [OF assms(1,2)]
  have "8 * n \<le> (start + blocks) * n" using assms(4) by (intro mult_le_mono1) simp
  then have n: "n \<le> 256" using assms(5) by linarith
  then have ready: "journal_ready ?m" using assms(3-6)
    by (simp add: journal_ready_def clear_handle_def sectors_per_block_def ramdisk_bdev_def RAMDISK_SIZE_BYTES_def)
  have le: "(start + 1) * (n * 512) \<le> RAMDISK_SIZE_BYTES"
    using assms(4,5) mult_le_mono1 [of "start + 1" "start + blocks" n] by (simp add: RAMDISK_SIZE_BYTES_def)
  have "blk (n * 512) (rd_data r') start = replicate (n * 512) 0"
    using rd(4) le by (intro replicate_eqI) (auto simp: blk_def)
  then have "fld 0 4 (blk (n * 512) (rd_data (j_dev m)) start) \<noteq> JOURNAL_MAGIC_SB"
    using assms(7) by (simp add: fld_zeros JOURNAL_MAGIC_SB_def)
  then obtain d where d: "journal_init (Some ?b) start blocks (n * 512) fs_total m = Some (?m\<lparr> j_nalloc := j_nalloc m + 2, j_dev := d, j_initialized := True \<rparr>, 0)"
    "ramdisk_ok RAMDISK_SIZE_BYTES d" "wrote rd_data rd_log (n * 512) [(start, jsb_block ?m)] (j_dev m) d"
    using rdk.journal_init_new [OF ready] rd(2) assms(7) by auto
  have "length (jsb_block ?m) = n * 512" using assms(3) by (simp add: length_jsb_block clear_handle_def)
  then have "blk (n * 512) (rd_data d) start = jsb_block ?m" using d(3) blk_writes [of "[(start, jsb_block ?m)]" "n * 512" "rd_data (j_dev m)" start]
    by (simp add: wrote_def)
  moreover have "jsb_block (x\<lparr> j_nalloc := k, j_dev := e, j_initialized := True \<rparr>) = jsb_block x"
    "journal_ready (x\<lparr> j_nalloc := k, j_dev := e, j_initialized := True \<rparr>) = journal_ready x" for x :: "ramdisk journal" and k e
    by (simp_all add: jsb_block_def jsb_fields_def journal_ready_def sectors_per_block_def)
  ultimately show ?thesis using d(1,2) rd(3) ready n assms(3)
    by (intro exI [of _ "?m\<lparr> j_nalloc := j_nalloc m + 2, j_dev := d, j_initialized := True \<rparr>"])
      (simp add: txn_inv_def journal_is_clean_def clear_handle_def)
qed

section \<open>An instance\<close>

text \<open>A journal of 64 blocks at block 100 of a RAM disk of 1 MiB, with a transaction that writes block 3 twice and block 5 once.\<close>

definition demo_disk :: ramdisk where
  "demo_disk = \<lparr> rd_priv = Some RAMDISK_SIZE_BYTES, rd_data = (\<lambda>_. 0), rd_block_size = 512, rd_log = [] \<rparr>"

definition demo_journal :: "ramdisk journal" where
  "demo_journal = \<lparr> j_bdev = ramdisk_bdev RAMDISK_SIZE_BYTES, j_dev = demo_disk, j_block_size = 512, j_start = 100, j_blocks = 64,
     j_head = 1, j_tail = 1, j_sequence = 1, in_transaction = True, txn_capacity = 8,
     txn = [(3, replicate 512 7), (5, replicate 512 8), (3, replicate 512 9)],
     j_dirty = False, fs_total_blocks = 90, j_initialized = True, j_alloc = (\<lambda>_. True), j_nalloc = 0 \<rparr>"

lemmas demo_defs = demo_journal_def demo_disk_def ramdisk_bdev_def RAMDISK_SIZE_BYTES_def sectors_per_block_def HEADER_SIZE_def DATA_DESC_SIZE_def

lemma demo_setting: "commit_setting RAMDISK_SIZE_BYTES (replicate 480 1) demo_journal"
  by (simp add: commit_setting_def ramdisk_ok_def journal_ready_def txn_fits_def txn_room_def demo_defs)

theorem journal_commit_correct_witness:
  "\<exists>j'. journal_commit (replicate 480 1) demo_journal = Some (j', 0) \<and> journal_is_clean j' \<and> j_head j' = 6 \<and>
    blk 512 (rd_data (j_dev j')) 3 = replicate 512 9 \<and> blk 512 (rd_data (j_dev j')) 5 = replicate 512 8 \<and>
    blk 512 (rd_data (j_dev j')) 4 = blk 512 (\<lambda>_. 0) 4"
proof -
  from journal_commit_correct [OF demo_setting] obtain j' where j': "journal_commit (replicate 480 1) demo_journal = Some (j', 0)" "journal_is_clean j'"
    "j_head j' = j_head demo_journal + length (txn demo_journal) + 2"
    "\<And>i. i < j_start demo_journal \<Longrightarrow> blk (j_block_size demo_journal) (rd_data (j_dev j')) i =
       (case map_of (rev (txn demo_journal)) i of Some d \<Rightarrow> d | None \<Rightarrow> blk (j_block_size demo_journal) (rd_data (j_dev demo_journal)) i)"
    by blast
  then show ?thesis using j'(4) [of 3] j'(4) [of 4] j'(4) [of 5] by (intro exI [of _ j']) (simp add: demo_journal_def demo_disk_def)
qed

theorem journal_restart_witness:
  "\<exists>j' m'. journal_commit (replicate 480 1) demo_journal = Some (j', 0) \<and>
    journal_init (Some (ramdisk_bdev RAMDISK_SIZE_BYTES)) 100 64 512 90 (demo_journal\<lparr> j_initialized := False, j_dev := j_dev j' \<rparr>) = Some (m', 0) \<and>
    j_initialized m' \<and> j_head m' = 6"
proof -
  obtain d k where "journal_commit (replicate 480 1) demo_journal = Some (free_transaction ((clean_journal demo_journal)\<lparr> j_nalloc := k, j_dev := d \<rparr>), 0)"
    using commit_effect [OF demo_setting] by blast
  from this journal_restart [OF demo_setting this, of "demo_journal\<lparr> j_initialized := False, j_dev := d \<rparr>" 90] show ?thesis
    by (auto simp: free_transaction_def clean_journal_def moved_journal_def dirty_journal_def demo_journal_def)
qed

theorem journal_recover_restores_witness:
  "\<exists>j' j''. journal_commit (replicate 480 1) demo_journal = Some (j', 0) \<and>
    journal_recover (j'\<lparr> j_dev := (j_dev j')\<lparr> rd_data := (\<lambda>x. if x < 51200 then 77 else rd_data (j_dev j') x) \<rparr> \<rparr>) = Some (j'', 0) \<and>
    blk 512 (rd_data (j_dev j'')) 3 = replicate 512 9 \<and> blk 512 (rd_data (j_dev j'')) 4 = blk 512 (\<lambda>_. 77) 4"
proof -
  obtain c k where c: "journal_commit (replicate 480 1) demo_journal = Some (free_transaction ((clean_journal demo_journal)\<lparr> j_nalloc := k, j_dev := c \<rparr>), 0)"
    "ramdisk_ok RAMDISK_SIZE_BYTES c"
    using commit_effect [OF demo_setting] by blast
  let ?j = "free_transaction ((clean_journal demo_journal)\<lparr> j_nalloc := k, j_dev := c \<rparr>)"
  define d where "d = (j_dev ?j)\<lparr> rd_data := (\<lambda>x. if x < 51200 then 77 else rd_data (j_dev ?j) x) \<rparr>"
  have hyps: "logged_chain (j_block_size demo_journal) (rd_data (j_dev demo_journal)) (j_start demo_journal + j_tail demo_journal) []
      (j_start demo_journal + j_head demo_journal)"
    "\<forall>es \<in> set ([] @ [txn demo_journal]). \<forall>e \<in> set es. entry_ok demo_journal e" "ramdisk_ok RAMDISK_SIZE_BYTES d"
    "\<forall>i. j_start demo_journal \<le> i \<and> i < j_start demo_journal + j_blocks demo_journal \<longrightarrow>
      blk (j_block_size demo_journal) (rd_data d) i = blk (j_block_size demo_journal) (rd_data (j_dev ?j)) i"
    using c(2) by (simp_all add: demo_defs entry_ok_def ramdisk_ok_def d_def free_transaction_def blk_def)
  obtain j'' where j'': "journal_recover (?j\<lparr> j_dev := d \<rparr>) = Some (j'', 0)"
    "\<And>i. i < j_start demo_journal \<Longrightarrow> blk (j_block_size demo_journal) (rd_data (j_dev j'')) i =
       (case map_of (rev (concat [] @ txn demo_journal)) i of Some x \<Rightarrow> x | None \<Rightarrow> blk (j_block_size demo_journal) (rd_data d) i)"
    using journal_recover_restores [OF demo_setting c(1) hyps] by blast
  have "blk 512 (rd_data (j_dev j'')) 3 = replicate 512 9" "blk 512 (rd_data (j_dev j'')) 4 = blk 512 (\<lambda>_. 77) 4"
    using j''(2) [of 3] j''(2) [of 4] by (simp_all add: demo_journal_def d_def blk_def)
  then show ?thesis using c(1) j''(1) unfolding d_def by blast
qed

theorem journal_crash_not_recovered_witness:
  "\<exists>j' m'. journal_commit (replicate 480 1) demo_journal = Some (j', 0) \<and>
    journal_init (Some (ramdisk_bdev RAMDISK_SIZE_BYTES)) 100 64 512 90
      (demo_journal\<lparr> j_initialized := False, j_dev := after_crash 6 demo_disk (j_dev j') \<rparr>) = Some (m', - 1) \<and>
    j_dev m' = after_crash 6 demo_disk (j_dev j')"
proof -
  obtain d k where d: "journal_commit (replicate 480 1) demo_journal = Some (free_transaction ((clean_journal demo_journal)\<lparr> j_nalloc := k, j_dev := d \<rparr>), 0)"
    "wrote rd_data rd_log (j_block_size demo_journal) (commit_ws (replicate 480 1) demo_journal) (j_dev demo_journal) d"
    using commit_effect [OF demo_setting] by blast
  have "length (rd_log d) - length (rd_log (j_dev demo_journal)) = length (commit_ws (replicate 480 1) demo_journal)" using d(2) by (simp add: wrote_def)
  then have "6 < length (rd_log d) - length (rd_log (j_dev demo_journal))" by (simp add: commit_ws_def log_ws_phases Let_def demo_journal_def)
  with d(1) journal_crash_not_recovered [OF demo_setting d(1), of 6 "demo_journal\<lparr> j_initialized := False, j_dev := after_crash 6 demo_disk d \<rparr>" 90] show ?thesis
    by (auto simp: free_transaction_def demo_journal_def)
qed

theorem journal_txn_bounded_witness:
  "txn_inv demo_journal \<and> length (desc_block 1 demo_journal) = 512 \<and> txn_inv (fst (journal_write 6 (replicate 512 4) demo_journal))"
proof -
  have "txn_inv demo_journal" by (simp add: txn_inv_def demo_defs)
  then show ?thesis using journal_txn_bounded [of demo_journal 1 0 "replicate 512 4" 6 "[]"] by (simp add: demo_journal_def)
qed

theorem journal_create_witness:
  "\<exists>r' devs' m'. ramdisk_init 0 True True (demo_disk\<lparr> rd_priv := None \<rparr>) [] = ((r', devs'), 0) \<and>
    journal_init (block_dev_find ''ramdisk0'' devs') 100 64 1024 90 (demo_journal\<lparr> j_initialized := False, j_dev := r' \<rparr>) = Some (m', 0) \<and>
    j_initialized m' \<and> j_head m' = 1"
proof -
  obtain r' devs' ret where r: "ramdisk_init 0 True True (demo_disk\<lparr> rd_priv := None \<rparr>) [] = ((r', devs'), ret)" by (metis surj_pair)
  then have "ret = 0" by (auto intro: ramdisk_init_ok(1))
  with r journal_create [OF r, of 2 64 100 "demo_journal\<lparr> j_initialized := False, j_dev := r' \<rparr>" 90] show ?thesis
    by (auto simp: demo_journal_def)
qed

end
