(* ===== verification/Spec2Isabelle.thy ===== *)
theory Spec2Isabelle
  imports KString Snprintf HeapClient CowFault Pipe Fork JournalProps
begin

text \<open>
  A verification library for the AuroraOS kernel, a C kernel for x86-64 whose sources are under
  \<open>src/kernel\<close> and \<open>src/arch/x86_64\<close>.

  \<^bold>\<open>The program and how its parts interact.\<close> The kernel boots with a memory map, from which
  \<open>mem.c\<close> sets up a buddy allocator for physical pages; the object allocator \<open>kmalloc\<close>/\<open>kfree\<close> cuts
  pages into objects, and everything else gets its memory from the two. \<open>pagetable.c\<close> builds address spaces from pages of
  the same allocator: it maps and unmaps pages, copies an address space for \<open>fork\<close> with shared read-only pages and resolves the
  faults on them. Tasks have an identifier from a
  bitmap, wait in per-processor red-black trees ordered by virtual time, and are switched by
  \<open>context_switch\<close>. A task enters the kernel through \<open>syscall_entry\<close>, which leaves its registers in a
  trap frame; on the way back pending signals are delivered to handlers on the user stack. Tasks own
  descriptor tables whose entries are counted references to open files or capabilities; a pipe is a
  pair of such files over a ring buffer. \<open>fork\<close> and \<open>waitpid\<close> join these parts: a new task with copies of the
  parent's registers, files and handlers, and the release of all its resources at the end. File system data is meant to reach a
  block device through a write-ahead log, which writes a transaction to a reserved area before it writes it in place.

  \<^bold>\<open>Theories.\<close>
  \<^item> \<open>Prelude\<close>: machine integers, byte memory with \<open>load64\<close>/\<open>store64\<close>, intrusive linked lists, shared lemmas.
  \<^item> \<open>KString\<close>, \<open>Snprintf\<close>: \<open>kernel/string.c\<close>. The word-at-a-time \<open>memcpy\<close>, \<open>memset\<close>, \<open>strlen\<close> and
    \<open>strcmp\<close> equal their byte-wise specifications; \<open>snprintf\<close> stays within its buffer, and its return value differs from the C standard's.
  \<^item> \<open>Buddy\<close>, \<open>BuddyInv\<close>, \<open>BuddyAlloc\<close>, \<open>BuddyInit\<close>, \<open>BuddyFrame\<close>: the page allocator of
    \<open>kernel/mem.c\<close>. The static variables are the record \<open>pmm\<close>. The invariant \<open>buddy_inv\<close> relates the free lists
    to a set of disjoint aligned blocks, with the blocks in use as ghost data; allocation, release and
    boot-time initialisation keep it, always return, and leave no buddies unmerged. \<open>BuddyFrame\<close> shows what
    the allocator does not touch.
  \<^item> \<open>Slab\<close>, \<open>SlabInv\<close>, \<open>SlabOps\<close>, \<open>SlabProps\<close>, \<open>HeapClient\<close>: the object allocator of \<open>kernel/mem.c\<close>.
    Free lists live in the memory they manage; the invariant \<open>slab_inv\<close> cuts the blocks in use into
    disjoint cells. The locale \<open>object_heap\<close> is the contract of \<open>kmalloc\<close> and \<open>kfree\<close>, and the lemmas on clients that
    keep to it are proved there and used through the interpretation \<open>kh\<close>.
  \<^item> \<open>PageTable\<close>: \<open>kernel/pagetable.c\<close> and, as reference, the walk of the processor (\<open>walk\<close>). The record \<open>vm\<close> is the heap
    with the CR3 values; a table is a page of the allocator's memory.
  \<^item> \<open>PageTableInv\<close>, \<open>PageTableMap\<close>, \<open>PageTableProps\<close>, \<open>AddressSpace\<close>: the invariant \<open>pt_inv\<close> says that the tables form a tree of
    frames that are not free. \<open>map_page\<close> and \<open>unmap_page\<close> change the translation of one page; the locale \<open>address_space\<close> (interpretation
    \<open>asp\<close>) extends this to any run of them. Two theorems are about mapping a page again and about a missing user bit.
  \<^item> \<open>PageTableClone\<close>, \<open>ForkSpace\<close>: the copy for \<open>fork\<close>. The three nested loops are three interpretations (\<open>cl0\<close>, \<open>cl1\<close>, \<open>cl2\<close>) of the locale
    \<open>clone_level\<close>; parent and child translate to the same pages, read-only.
  \<^item> \<open>CowFault\<close>: the write fault on a shared page gives the process a private copy.
  \<^item> \<open>Files\<close>: \<open>kernel/file.c\<close>, \<open>kernel/capability.c\<close> and the file objects of \<open>kernel/vfs.c\<close>. In every
    reachable state a reference count is the number of table entries, so no file is used after it is freed.
  \<^item> \<open>Pipe\<close>: \<open>kernel/pipe.c\<close>. The ring buffer refines a bounded queue (locale \<open>byte_queue\<close>, interpretation \<open>pq\<close>);
    readers and writers are interleaved at their lock regions, bytes arrive in order, and a wake-up can be lost.
  \<^item> \<open>RBTree\<close>, \<open>RBTreeInv\<close>, \<open>RBTreeInsert\<close>, \<open>RBTreeErase\<close>, \<open>RBTreeRemove\<close>: the pointer trees of
    \<open>kernel/rbtree.c\<close>. Insertion and removal keep the colour invariant and the order; the locale
    \<open>ordered_queue\<close> (interpretation \<open>rq\<close>) is what the scheduler relies on.
  \<^item> \<open>Pid\<close>, \<open>Sched\<close>, \<open>SchedProps\<close>, \<open>SchedBalance\<close>: \<open>kernel/sched.c\<close>. Choice of the next task, accounting,
    time slices, load balancing between queues, exit and \<open>waitpid\<close>.
  \<^item> \<open>Signal\<close>, \<open>SignalProps\<close>: \<open>kernel/signal.c\<close>, the user copies of \<open>include/userspace.h\<close>, the entry path
    \<open>arch/x86_64/syscall.S\<close>. Delivery followed by \<open>sigreturn\<close> restores the registers; SIGKILL always kills.
  \<^item> \<open>Fork\<close>: \<open>arch/x86_64/context.S\<close> and \<open>sys_fork\<close> of \<open>kernel/syscall.c\<close>.
  \<^item> \<open>BlockDev\<close>: \<open>kernel/block_dev.c\<close> and \<open>kernel/ramdisk.c\<close>. The locale \<open>disk\<close> is what a client of a block device relies on, and the RAM disk
    provides it (interpretation \<open>rdk\<close>). The disk keeps a record of its writes, so that a crash is a prefix of them.
  \<^item> \<open>Journal\<close>, \<open>JournalDisk\<close>, \<open>JournalRecover\<close>, \<open>JournalProps\<close>: \<open>kernel/journal.c\<close>, its records on disk byte by byte. Inside \<open>disk\<close> it is
    shown which writes a commit performs and that recovery replays a chain of transactions. On the RAM disk a commit stores the
    last data of each block, a later boot finds the journal, recovery restores committed data, a transaction fits its
    descriptor; and a crash during a commit leaves a journal that never mounts again. The theorems on commits assume that the transaction
    ends before the end of the journal area: the code does not wrap positions.

  \<^bold>\<open>Conventions.\<close> State is passed explicitly in records with the fields of the C structs. Registers, capability
  masks, keys and flags are machine words; addresses, sizes and counters are natural numbers where the code
  keeps them far below their width, which each theory states. A NULL pointer is \<open>None\<close> or the address 0. A result
  \<open>None\<close> of an operation means that the code does not return normally: an access through NULL, a loop
  over a cyclic list. The theorems therefore say \<open>f x = Some y\<close> wherever they say that the code
  returns. Loops whose end depends on the shape of the data are \<open>partial_function (option)\<close>;
  nothing uses fuel. An operation between lock and unlock is one step. Results of code outside the model (whether an
  allocation succeeds, the processor number, a new address space, whether a user page is present) are
  arguments of the definitions, and the theorems hold for all of them or under the hypotheses they name.

  \<^bold>\<open>Not modelled.\<close> The path lookup of the virtual file system, the
  file systems (ramfs, devtmpfs, procfs, sysfs, ext2, FAT32, squashfs), the network stack, the
  system call filter and the other system call handlers are program logic that the library does
  not cover yet, as are program and module loading. Of the control registers only CR3 is modelled. Device drivers
  (hardware block devices, network, display, keyboard, clock, interrupt controllers, PCI), processor start-up, descriptor
  tables, the other architectures and the boot loader are accesses to hardware or firmware. Console
  output, the shells and the build scripts have no state that the modelled parts depend on. Locks,
  memory ordering and the SMAP instructions are not modelled. The scheduler record leaves out the fields that no
  function of \<open>sched.c\<close>, \<open>signal.c\<close> or \<open>sys_fork\<close> reads. Of \<open>sys_nice\<close>, which clamps the priority to 0..255,
  only the resulting range is used.
\<close>

end
